(* ===== verification/Prelude.thy ===== *)
theory Prelude
  imports Main "HOL-Library.Word"
begin

unbundle bit_operations_syntax

text \<open>
  Shared vocabulary of the development: the machine types of the C++ code, the model of
  C strings and string literals, the arithmetic reading of the bit operations, and the
  \<open>codec\<close> interface that the encoders and decoders of the library implement.

  A pointer into a character buffer is modelled by the list of the characters from that
  position to the end of the buffer: \<open>*p\<close> is \<open>peek p\<close> (0 at the end, where the
  terminating NUL of \<open>c_str()\<close> is), \<open>p + n\<close> is \<open>drop n p\<close>, and two pointers into
  the same buffer are equal when the lengths are.
\<close>

section \<open>Types\<close>

type_synonym byte = "8 word"
type_synonym u16 = "16 word"
type_synonym u32 = "32 word"
type_synonym u64 = "64 word"
type_synonym wchar = "32 word"
type_synonym cstring = "byte list"
type_synonym wstring = "wchar list"

text \<open>Character and string literals of the source: \<open>'x'\<close>, \<open>L'x'\<close>, \<open>"abc"\<close>, \<open>L"abc"\<close>.\<close>

abbreviation bc :: "char \<Rightarrow> byte" where
  "bc c \<equiv> of_char c"

abbreviation wc :: "char \<Rightarrow> wchar" where
  "wc c \<equiv> of_char c"

abbreviation str :: "string \<Rightarrow> cstring" where
  "str s \<equiv> map of_char s"

abbreviation wstr :: "string \<Rightarrow> wstring" where
  "wstr s \<equiv> map of_char s"

definition peek :: "'a::zero list \<Rightarrow> 'a" where
  "peek p = (case p of [] \<Rightarrow> 0 | c # _ \<Rightarrow> c)"

lemma peek_simps [simp]: "peek [] = 0" "peek (c # p) = c"
  by (simp_all add: peek_def)

lemma peek_append [simp]: "p \<noteq> [] \<Longrightarrow> peek (p @ q) = peek p"
  by (cases p) simp_all

lemma peek_nonzero: "peek p \<noteq> 0 \<Longrightarrow> 0 < length p"
  by (cases p) simp_all

lemma drop_peek_nonzero: "peek (drop n p) \<noteq> 0 \<Longrightarrow> n < length p"
  using peek_nonzero [of "drop n p"] by simp

section \<open>Bit operations as arithmetic\<close>

named_theorems word_nat

lemma nat_or_add:
  fixes a b :: nat
  assumes "a < 2 ^ n" and "2 ^ n dvd b"
  shows "a OR b = a + b"
proof -
  from assms(1) have a: "a = take_bit n a"
    by (simp add: take_bit_nat_eq_self)
  from assms(2) obtain q where b: "b = push_bit n q"
    by (auto simp: push_bit_eq_mult elim!: dvdE)
  have "a AND b = 0"
    by (subst a, subst b, rule bit_eqI) (auto simp: bit_simps)
  then show ?thesis
    using disjunctive_add_eq_or [of a b] by simp
qed

lemma unat_or_add:
  fixes x y :: "'a::len word"
  assumes "unat x < 2 ^ n" and "2 ^ n dvd unat y"
  shows "unat (x OR y) = unat x + unat y"
  using nat_or_add [OF assms] by (simp add: unsigned_or_eq)

lemma unat_or_add':
  fixes x y :: "'a::len word"
  assumes "2 ^ n dvd unat x" and "unat y < 2 ^ n"
  shows "unat (x OR y) = unat x + unat y"
  using unat_or_add [OF assms(2,1)] by (simp add: or.commute add.commute)

lemma unat_and_mask: "unat (x AND mask n) = unat x mod 2 ^ n"
proof -
  have "unat (x AND mask n) = take_bit n (unat x)"
    by (simp only: take_bit_eq_mask [symmetric] unsigned_take_bit_eq)
  then show ?thesis
    by (simp only: take_bit_eq_mod)
qed

lemma unat_drop_bit_div [word_nat]: "unat (drop_bit n w) = unat w div 2 ^ n"
  by (subst unat_drop_bit_eq) (simp only: drop_bit_eq_div)

lemma unat_push_bit_mult:
  fixes w :: "'a::len word"
  assumes "unat w * 2 ^ n < 2 ^ LENGTH('a)"
  shows "unat (push_bit n w) = unat w * 2 ^ n"
  by (subst unsigned_push_bit_eq) (use assms in \<open>simp only: push_bit_eq_mult take_bit_nat_eq_self\<close>)

lemma unat_ucast_mod [word_nat]: "unat (ucast w :: 'b::len word) = unat w mod 2 ^ LENGTH('b)"
  by (simp add: unsigned_ucast_eq take_bit_eq_mod)

lemma unat_byte_bound: "unat (b :: byte) < 256"
proof -
  have "unat b < 2 ^ LENGTH(8)" by (rule unsigned_less)
  then show ?thesis by simp
qed

lemma unat_u32_bound: "unat (c :: u32) < 4294967296"
proof -
  have "unat c < 2 ^ LENGTH(32)" by (rule unsigned_less)
  then show ?thesis by simp
qed

lemma unat_inject: "unat a = unat b \<Longrightarrow> a = b"
  by (simp add: word_eq_iff_unsigned [where 'a = nat])

lemma bytes_eqI: "map unat xs = map unat ys \<Longrightarrow> xs = (ys :: byte list)"
  by (rule map_injective) (auto intro!: injI unat_inject)

lemma sint_range_64: "- (2 ^ 63) \<le> sint (w :: 64 word)" "sint w < 2 ^ 63"
  using sint_ge [of w] sint_lt [of w] by simp_all

lemma unat_of_sint:
  fixes w :: "64 word"
  shows "0 \<le> sint w \<Longrightarrow> unat w = nat (sint w)"
    and "sint w < 0 \<Longrightarrow> unat (- w) = nat (- sint w)"
proof -
  have u: "uint w = sint w mod 2 ^ 64"
    by (simp add: uint_sint take_bit_eq_mod)
  note r = sint_range_64 [of w]
  show "0 \<le> sint w \<Longrightarrow> unat w = nat (sint w)"
    using u r by (simp add: unat_eq_nat_uint)
  have "uint (- w) = (- sint w) mod 2 ^ 64"
    by (simp add: uint_word_ariths(4) u mod_minus_eq)
  then show "sint w < 0 \<Longrightarrow> unat (- w) = nat (- sint w)"
    using r by (simp add: unat_eq_nat_uint)
qed

lemma word_of_int_sint [simp]: "word_of_int (sint w) = w"
  by (metis scast_eq scast_id)

text \<open>A property of all bytes is checked on the 256 of them.\<close>

lemma byte_cases_all:
  assumes "list_all P (map word_of_nat [0..<256])"
  shows "P (b :: byte)"
proof -
  have "unat b \<in> set [0..<256]"
    using unat_byte_bound [of b] by simp
  then have "P (word_of_nat (unat b))"
    using assms by (simp only: list_all_iff set_map ball_simps)
  then show ?thesis by simp
qed

lemma byte_bitI:
  assumes "bit a 0 = bit b 0" "bit a 1 = bit b 1" "bit a 2 = bit b 2" "bit a 3 = bit b 3"
    "bit a 4 = bit b 4" "bit a 5 = bit b 5" "bit a 6 = bit b 6" "bit a 7 = bit b 7"
  shows "a = (b :: byte)"
proof (rule bit_word_eqI)
  fix n assume "n < LENGTH(8)"
  then have "n \<in> {0, 1, 2, 3, 4, 5, 6, 7}" by auto
  then show "bit a n \<longleftrightarrow> bit b n" using assms by auto
qed

section \<open>The contract of an encoder and its decoder\<close>

text \<open>
  \<open>dom_ok\<close> is the set of messages the encoder is used for; decoding an encoding gives
  the message back. The clients need injectivity: two messages with the same encoding are
  the same.
\<close>

locale codec =
  fixes enc :: "'a \<Rightarrow> 'b" and dec :: "'b \<Rightarrow> 'a option" and dom_ok :: "'a \<Rightarrow> bool"
  assumes dec_enc: "dom_ok x \<Longrightarrow> dec (enc x) = Some x"
begin

lemma enc_inj: "dom_ok x \<Longrightarrow> dom_ok y \<Longrightarrow> enc x = enc y \<longleftrightarrow> x = y"
  using dec_enc by (metis option.inject)

lemma inj_on_enc: "inj_on enc {x. dom_ok x}"
  by (simp add: inj_on_def enc_inj)

lemma dec_complete: "dom_ok x \<Longrightarrow> \<exists>w. dec w = Some x"
  using dec_enc by blast

end

end
