(* ===== verification/Unicode.thy ===== *)
theory Unicode
  imports Prelude
begin

unbundle bit_operations_syntax

text \<open>
  The character set conversions of \<^verbatim>\<open>public/basic/icu_utf.{h,cc}\<close> and of the classes
  \<^verbatim>\<open>StringConversions\<close> and \<^verbatim>\<open>StringConversionsUtils\<close> of \<^verbatim>\<open>public/basic/basic_util.cc\<close>:
  the safe UTF-8 reader, the writers, the two loops between UTF-8 and wide strings.
  A \<open>wchar_t\<close> has 32 bits, but the wide strings the library writes hold UTF-16 code units.

  The lemmas show that the reader accepts exactly the shortest encodings of the valid code
  points, and from it that both conversions are inverse to each other on well-formed strings.
\<close>

section \<open>The macros and tables of icu_utf\<close>

definition utf8_countTrailBytes :: "byte list" where
  "utf8_countTrailBytes =
     replicate 192 0 @ replicate 32 1 @ replicate 16 2 @ replicate 5 3
     @ replicate 3 3 @ replicate 4 4 @ replicate 2 5 @ replicate 2 0"

definition utf8_minLegal :: "u32 list" where
  "utf8_minLegal = [0, 0x80, 0x800, 0x10000]"

definition utf8_errorValue :: "u32 list" where
  "utf8_errorValue = [0x15, 0x9f, 0xffff, 0x10ffff, 0x3ffffff, 0x7fffffff]"

definition CBU_SENTINEL :: u32 where
  "CBU_SENTINEL = - 1"

definition CBU_IS_UNICODE_NONCHAR :: "u32 \<Rightarrow> bool" where
  "CBU_IS_UNICODE_NONCHAR c \<longleftrightarrow>
     0xfdd0 \<le> c \<and> (c \<le> 0xfdef \<or> (c AND 0xfffe) = 0xfffe) \<and> c \<le> 0x10ffff"

definition CBU_IS_SURROGATE :: "u32 \<Rightarrow> bool" where
  "CBU_IS_SURROGATE c \<longleftrightarrow> (c AND 0xfffff800) = 0xd800"

definition CBU16_IS_SURROGATE_LEAD :: "u32 \<Rightarrow> bool" where
  "CBU16_IS_SURROGATE_LEAD c \<longleftrightarrow> (c AND 0x400) = 0"

definition CBU16_IS_TRAIL :: "u32 \<Rightarrow> bool" where
  "CBU16_IS_TRAIL c \<longleftrightarrow> (c AND 0xfffffc00) = 0xdc00"

definition CBU16_SURROGATE_OFFSET :: u32 where
  "CBU16_SURROGATE_OFFSET = push_bit 10 0xd800 + 0xdc00 - 0x10000"

definition CBU16_GET_SUPPLEMENTARY :: "u32 \<Rightarrow> u32 \<Rightarrow> u32" where
  "CBU16_GET_SUPPLEMENTARY lead trail = push_bit 10 lead + trail - CBU16_SURROGATE_OFFSET"

definition CBU16_LENGTH :: "u32 \<Rightarrow> nat" where
  "CBU16_LENGTH c = (if c \<le> 0xffff then 1 else 2)"

definition CBU8_COUNT_TRAIL_BYTES :: "u32 \<Rightarrow> nat" where
  "CBU8_COUNT_TRAIL_BYTES leadByte = unat (utf8_countTrailBytes ! unat (ucast leadByte :: byte))"

definition CBU8_MASK_LEAD_BYTE :: "u32 \<Rightarrow> nat \<Rightarrow> u32" where
  "CBU8_MASK_LEAD_BYTE leadByte countTrailBytes =
     leadByte AND (push_bit (6 - countTrailBytes) 1 - 1)"

definition CBU8_IS_LEAD :: "u32 \<Rightarrow> bool" where
  "CBU8_IS_LEAD c \<longleftrightarrow> (ucast (c - 0xc0) :: byte) < 0x3e"

definition CBU8_IS_TRAIL :: "byte \<Rightarrow> bool" where
  "CBU8_IS_TRAIL c \<longleftrightarrow> (c AND 0xc0) = 0x80"

text \<open>\<open>CBU8_APPEND_UNSAFE\<close>: the bytes it stores at the offset, in order.\<close>

definition CBU8_APPEND_UNSAFE :: "cstring \<Rightarrow> u32 \<Rightarrow> cstring" where
  "CBU8_APPEND_UNSAFE s c =
     (if c \<le> 0x7f then s @ [ucast c]
      else (if c \<le> 0x7ff then s @ [ucast (drop_bit 6 c OR 0xc0)]
            else (if c \<le> 0xffff then s @ [ucast (drop_bit 12 c OR 0xe0)]
                  else s @ [ucast (drop_bit 18 c OR 0xf0),
                            ucast ((drop_bit 12 c AND 0x3f) OR 0x80)])
                 @ [ucast ((drop_bit 6 c AND 0x3f) OR 0x80)])
           @ [ucast ((c AND 0x3f) OR 0x80)])"

definition CBU16_APPEND_UNSAFE :: "wstring \<Rightarrow> u32 \<Rightarrow> wstring" where
  "CBU16_APPEND_UNSAFE s c =
     (if c \<le> 0xffff then s @ [ucast (ucast c :: u16)]
      else s @ [ucast (ucast (drop_bit 10 c + 0xd7c0) :: u16),
                ucast (ucast ((c AND 0x3ff) OR 0xdc00) :: u16)])"

section \<open>The safe UTF-8 reader\<close>

text \<open>
  One \<open>trail=s[(i)++]\<close> step of the switch. The state is the code point so far, the
  \<open>illegal\<close> flags and the rest of the input.
\<close>

definition utf8_trail :: "u32 \<times> byte \<times> cstring \<Rightarrow> u32 \<times> byte \<times> cstring" where
  "utf8_trail st =
     (case st of (c, illegal, s) \<Rightarrow>
        let trail = peek s
        in (push_bit 6 c OR (ucast trail AND 0x3f),
            illegal OR ((trail AND 0xc0) XOR 0x80),
            tl s))"

text \<open>The switch on \<open>count\<close> with its fall-through, for \<open>count > 0\<close>.\<close>

definition utf8_trails :: "nat \<Rightarrow> u32 \<Rightarrow> cstring \<Rightarrow> u32 \<times> byte \<times> cstring" where
  "utf8_trails count c s =
     (if count \<ge> 4 then (c, 1, s)
      else if count = 3 then
        (case utf8_trail (c, 0, s) of (c1, illegal, s1) \<Rightarrow>
           if c1 < 0x110 then utf8_trail (utf8_trail (c1, illegal, s1)) else (c1, 1, s1))
      else if count = 2 then utf8_trail (utf8_trail (c, 0, s))
      else utf8_trail (c, 0, s))"

fun utf8_skip_trail :: "nat \<Rightarrow> cstring \<Rightarrow> cstring" where
  "utf8_skip_trail (Suc count) (b # s) =
     (if CBU8_IS_TRAIL b then utf8_skip_trail count s else b # s)"
| "utf8_skip_trail _ s = s"

definition utf8_nextCharSafeBody :: "cstring \<Rightarrow> u32 \<Rightarrow> int \<Rightarrow> u32 \<times> cstring" where
  "utf8_nextCharSafeBody s c strict =
     (let count = CBU8_COUNT_TRAIL_BYTES c in
      if count \<le> length s then
        if count = 0 then (if strict \<ge> 0 then 0x15 else CBU_SENTINEL, s)
        else
          (case utf8_trails count (CBU8_MASK_LEAD_BYTE c count) s of (c', illegal, s') \<Rightarrow>
             if illegal \<noteq> 0 \<or> c' < utf8_minLegal ! count \<or> (CBU_IS_SURROGATE c' \<and> strict \<noteq> - 2)
             then
               (let s'' = utf8_skip_trail count s
                in (if strict \<ge> 0 then utf8_errorValue ! (length s - length s'') else CBU_SENTINEL,
                    s''))
             else if strict > 0 \<and> CBU_IS_UNICODE_NONCHAR c' then (utf8_errorValue ! count, s')
             else (c', s'))
      else
        (let s'' = dropWhile CBU8_IS_TRAIL s
         in (if strict \<ge> 0 then utf8_errorValue ! (length s - length s'') else CBU_SENTINEL, s'')))"

definition CBU8_NEXT :: "cstring \<Rightarrow> u32 \<times> cstring" where
  "CBU8_NEXT s =
     (let c = scast (peek s) :: u32; s' = tl s in
      if (ucast c :: byte) \<ge> 0x80 then
        if CBU8_IS_LEAD c then utf8_nextCharSafeBody s' c (- 1) else (CBU_SENTINEL, s')
      else (c, s'))"

section \<open>Reading and writing one character\<close>

definition IsValidCodepoint :: "u32 \<Rightarrow> bool" where
  "IsValidCodepoint code_point \<longleftrightarrow>
     code_point < 0xD800 \<or> (code_point \<ge> 0xE000 \<and> code_point \<le> 0x10FFFF)"

definition IsValidCharacter :: "u32 \<Rightarrow> bool" where
  "IsValidCharacter code_point \<longleftrightarrow>
     code_point < 0xD800 \<or> (code_point \<ge> 0xE000 \<and> code_point < 0xFDD0)
     \<or> (code_point > 0xFDEF \<and> code_point \<le> 0x10FFFF \<and> (code_point AND 0xFFFE) \<noteq> 0xFFFE)"

text \<open>
  The readers return whether the character is valid, the code point and the rest of the
  input. Without a result the out parameter keeps what it had: the callers use it only
  on success.
\<close>

definition ReadUnicodeCharacter_utf8 :: "cstring \<Rightarrow> bool \<times> u32 \<times> cstring" where
  "ReadUnicodeCharacter_utf8 src =
     (case CBU8_NEXT src of (code_point, s') \<Rightarrow> (IsValidCodepoint code_point, code_point, s'))"

definition ReadUnicodeCharacter_wide :: "wstring \<Rightarrow> bool \<times> u32 \<times> wstring" where
  "ReadUnicodeCharacter_wide src =
     (let c = peek src in
      if CBU_IS_SURROGATE c then
        if \<not> CBU16_IS_SURROGATE_LEAD c \<or> length src \<le> 1 \<or> \<not> CBU16_IS_TRAIL (src ! 1)
        then (False, 0, tl src)
        else (let code_point = CBU16_GET_SUPPLEMENTARY c (src ! 1)
              in (IsValidCodepoint code_point, code_point, drop 2 src))
      else (IsValidCodepoint c, c, tl src))"

definition WriteUnicodeCharacter_utf8 :: "u32 \<Rightarrow> cstring \<Rightarrow> cstring" where
  "WriteUnicodeCharacter_utf8 code_point output =
     (if code_point \<le> 0x7f then output @ [ucast code_point]
      else CBU8_APPEND_UNSAFE output code_point)"

definition WriteUnicodeCharacter_wide :: "u32 \<Rightarrow> wstring \<Rightarrow> wstring" where
  "WriteUnicodeCharacter_wide code_point output =
     (if CBU16_LENGTH code_point = 1 then output @ [code_point]
      else CBU16_APPEND_UNSAFE output code_point)"

lemma length_utf8_skip_trail: "length (utf8_skip_trail n s) \<le> length s"
  by (induction n s rule: utf8_skip_trail.induct) auto

lemma utf8_trail_length: "length (snd (snd (utf8_trail st))) \<le> length (snd (snd st))"
  by (simp add: utf8_trail_def Let_def split: prod.splits)

lemma utf8_trails_length: "length (snd (snd (utf8_trails n c s))) \<le> length s"
proof -
  have one: "length (snd (snd (utf8_trail (c, 0, s)))) \<le> length s"
    using utf8_trail_length [of "(c, 0, s)"] by simp
  have two: "length (snd (snd (utf8_trail (utf8_trail st)))) \<le> length (snd (snd st))" for st
    using utf8_trail_length le_trans by blast
  have "length (snd (snd (utf8_trail (utf8_trail (utf8_trail (c, 0, s)))))) \<le> length s"
    using one two [of "utf8_trail (c, 0, s)"] by linarith
  with one two [of "(c, 0, s)"] show ?thesis
    by (simp add: utf8_trails_def case_prod_beta)
qed

lemma utf8_nextCharSafeBody_length: "length (snd (utf8_nextCharSafeBody s c strict)) \<le> length s"
  using utf8_trails_length length_utf8_skip_trail length_dropWhile_le [of CBU8_IS_TRAIL s]
  by (simp add: utf8_nextCharSafeBody_def Let_def case_prod_beta)

lemma CBU8_NEXT_length: "s \<noteq> [] \<Longrightarrow> length (snd (CBU8_NEXT s)) < length s"
  using utf8_nextCharSafeBody_length [of "tl s"]
  by (cases s) (auto simp: CBU8_NEXT_def Let_def le_imp_less_Suc)

lemma ReadUnicodeCharacter_utf8_length:
  "ReadUnicodeCharacter_utf8 s = (ok, c, s') \<Longrightarrow> s \<noteq> [] \<Longrightarrow> length s' < length s"
  using CBU8_NEXT_length [of s] by (auto simp: ReadUnicodeCharacter_utf8_def split: prod.splits)

lemma ReadUnicodeCharacter_wide_length:
  "ReadUnicodeCharacter_wide s = (ok, c, s') \<Longrightarrow> s \<noteq> [] \<Longrightarrow> length s' < length s"
  by (auto simp: ReadUnicodeCharacter_wide_def Let_def split: if_splits)

section \<open>What the reader accepts\<close>

lemma CBU8_IS_TRAIL_iff: "CBU8_IS_TRAIL b \<longleftrightarrow> unat b div 64 = 2"
  by (rule byte_cases_all) code_simp

lemma scast_byte_small: "b < 0x80 \<longrightarrow> (scast (b::byte) :: u32) = ucast b"
  by (rule byte_cases_all) code_simp

lemma CBU8_IS_LEAD_byte: "CBU8_IS_LEAD (scast (b::byte)) \<longleftrightarrow> 0xc0 \<le> unat b \<and> unat b < 0xfe"
  by (rule byte_cases_all) code_simp

lemma count_byte: "CBU8_COUNT_TRAIL_BYTES (scast (b::byte)) =
  (if unat b < 192 then 0 else if unat b < 224 then 1 else if unat b < 240 then 2 else if unat b < 248 then 3 
    else if unat b < 252 then 4 else if unat b < 254 then 5 else 0)"
  by (rule byte_cases_all) code_simp

lemma CBU8_MASK_LEAD_BYTE_byte: "unat (CBU8_MASK_LEAD_BYTE (scast (b::byte)) n) = unat b mod 2 ^ (6 - n)"
proof -
  have "CBU8_MASK_LEAD_BYTE (scast b) n = take_bit (6 - n) (scast b)"
    by (simp add: CBU8_MASK_LEAD_BYTE_def take_bit_eq_mask mask_eq_exp_minus_1)
  also have "\<dots> = ucast (take_bit (6 - n) b)"
    by (rule bit_word_eqI) (auto simp: bit_simps)
  finally have "unat (CBU8_MASK_LEAD_BYTE (scast b) n) = unat (take_bit (6 - n) b) mod 4294967296"
    by (simp add: word_nat)
  also have "unat (take_bit (6 - n) b) = unat b mod 2 ^ (6 - n)"
    by (subst unsigned_take_bit_eq) (simp only: take_bit_eq_mod)
  also have "\<dots> mod 4294967296 = \<dots>"
    by (rule mod_less) (rule le_less_trans [OF mod_less_eq_dividend], use unat_byte_bound [of b] in linarith)
  finally show ?thesis .
qed

lemma ucast_scast_byte [simp]: "ucast (scast (b::byte) :: u32) = b"
  by (rule bit_word_eqI) (auto simp: bit_simps)

lemma byte_xor_trail: "(t AND 0xc0) XOR 0x80 = (0::byte) \<longleftrightarrow> CBU8_IS_TRAIL t"
  by (rule byte_cases_all) code_simp

lemma unat_and_3f [word_nat]: "unat (x AND 0x3f :: 'a::len word) = unat x mod 64"
  using unat_and_mask [of x 6] by (simp add: mask_eq_exp_minus_1)

lemma and_not_mask_eq: "x AND NOT (mask n) = push_bit n (drop_bit n (x :: 'a::len word))"
  by (rule bit_word_eqI) (auto simp: bit_simps)

lemma CBU_IS_SURROGATE_iff: "CBU_IS_SURROGATE c \<longleftrightarrow> unat c div 2048 = 27"
proof -
  have "(c AND 0xfffff800) = push_bit 11 (drop_bit 11 c)"
  proof -
    have "(0xfffff800 :: u32) = NOT (mask 11)" by code_simp
    then show ?thesis by (simp only: and_not_mask_eq)
  qed
  moreover have "unat (push_bit 11 (drop_bit 11 c)) = unat c div 2048 * 2048"
    using unat_u32_bound [of c] by (subst unat_push_bit_mult) (simp_all add: word_nat)
  ultimately show ?thesis
    by (simp add: CBU_IS_SURROGATE_def word_eq_iff_unsigned [where 'a = nat])
qed

lemma utf8_trail_step:
  assumes "unat c < 67108864"
  shows "\<exists>c'. utf8_trail (c, ill, t # s) = (c', ill OR ((t AND 0xc0) XOR 0x80), s)
     \<and> unat c' = unat c * 64 + unat t mod 64"
proof -
  have p: "unat (push_bit 6 c) = unat c * 64"
    using assms unat_push_bit_mult [of c 6] by simp
  have "unat (push_bit 6 c OR (ucast t AND 0x3f)) = unat c * 64 + unat t mod 64"
    using unat_byte_bound[of t]
    by (subst unat_or_add' [where n = 6]) (simp_all add: p word_nat)
  then show ?thesis
    by (simp add: utf8_trail_def Let_def)
qed

lemma CBU8_NEXT_ascii: "unat b < 128 \<Longrightarrow> CBU8_NEXT (b # s) = (ucast b, s)"
  using scast_byte_small [of b]
  by (simp only: CBU8_NEXT_def Let_def peek_simps list.sel ucast_scast_byte) (simp add: word_less_nat_alt word_le_nat_alt)

lemma CBU8_NEXT_bad:
  "128 \<le> unat b \<Longrightarrow> unat b < 192 \<or> 254 \<le> unat b \<Longrightarrow> CBU8_NEXT (b # s) = (CBU_SENTINEL, s)"
  by (auto simp: CBU8_NEXT_def Let_def CBU8_IS_LEAD_byte word_le_nat_alt)

lemma CBU8_NEXT_lead:
  assumes "192 \<le> unat b" "unat b < 254" and "CBU8_COUNT_TRAIL_BYTES (scast b) = n"
    and "utf8_trails n (CBU8_MASK_LEAD_BYTE (scast b) n) s = (c, illegal, s')"
    and "n \<le> length s"
  shows "CBU8_NEXT (b # s) =
    (if illegal \<noteq> 0 \<or> c < utf8_minLegal ! n \<or> CBU_IS_SURROGATE c
     then (CBU_SENTINEL, utf8_skip_trail n s) else (c, s'))"
proof -
  have "n \<noteq> 0" using assms(1,2,3) by (auto simp: count_byte split: if_splits)
  then show ?thesis
  using assms
  by (simp add: CBU8_NEXT_def Let_def CBU8_IS_LEAD_byte word_le_nat_alt utf8_nextCharSafeBody_def)
qed

lemma CBU8_NEXT_2:
  assumes "192 \<le> unat b" "unat b < 224"
  shows "\<exists>c. unat c = unat b mod 32 * 64 + unat t mod 64 \<and>
    CBU8_NEXT (b # t # s) =
     (if CBU8_IS_TRAIL t \<and> 128 \<le> unat c then (c, s) else (CBU_SENTINEL, utf8_skip_trail 1 (t # s)))"
proof -
  define m where "m = CBU8_MASK_LEAD_BYTE (scast b) 1"
  have m: "unat m = unat b mod 32"
    using CBU8_MASK_LEAD_BYTE_byte [of b 1] by (simp add: m_def)
  have "unat m < 67108864" unfolding m by (rule less_trans [of _ 32]) simp_all
  from utf8_trail_step [OF this, of 0 t s]
  obtain c where st: "utf8_trail (m, 0, t # s) = (c, (t AND 0xc0) XOR 0x80, s)"
    and c: "unat c = unat b mod 32 * 64 + unat t mod 64" by (auto simp: m)
  have "unat b mod 32 < 32" "unat t mod 64 < 64" by simp_all
  then have "unat c < 2048" unfolding c by linarith
  then have ns: "\<not> CBU_IS_SURROGATE c" by (simp add: CBU_IS_SURROGATE_iff)
  have "utf8_trails 1 m (t # s) = (c, (t AND 0xc0) XOR 0x80, s)"
    by (simp add: utf8_trails_def st)
  then have "CBU8_NEXT (b # t # s) = (if (t AND 0xc0) XOR 0x80 \<noteq> 0 \<or> c < utf8_minLegal ! 1 \<or> CBU_IS_SURROGATE c
     then (CBU_SENTINEL, utf8_skip_trail 1 (t # s)) else (c, s))"
    using assms unfolding m_def by (intro CBU8_NEXT_lead) (simp_all add: count_byte)
  then show ?thesis
    using c ns by (intro exI [of _ c]) (simp add: byte_xor_trail utf8_minLegal_def word_less_nat_alt not_less del: utf8_skip_trail.simps)
qed

lemma CBU8_NEXT_3:
  assumes "224 \<le> unat b" "unat b < 240"
  shows "\<exists>c. unat c = (unat b mod 16 * 64 + unat t mod 64) * 64 + unat u mod 64 \<and>
    CBU8_NEXT (b # t # u # s) =
     (if CBU8_IS_TRAIL t \<and> CBU8_IS_TRAIL u \<and> 2048 \<le> unat c \<and> unat c div 2048 \<noteq> 27
      then (c, s) else (CBU_SENTINEL, utf8_skip_trail 2 (t # u # s)))"
proof -
  define m where "m = CBU8_MASK_LEAD_BYTE (scast b) 2"
  have m: "unat m = unat b mod 16"
    using CBU8_MASK_LEAD_BYTE_byte [of b 2] by (simp add: m_def)
  have "unat m < 67108864" unfolding m by (rule less_trans [of _ 16]) simp_all
  from utf8_trail_step [OF this, of 0 t "u # s"]
  obtain c1 where st1: "utf8_trail (m, 0, t # u # s) = (c1, (t AND 0xc0) XOR 0x80, u # s)"
    and c1: "unat c1 = unat b mod 16 * 64 + unat t mod 64" by (auto simp: m)
  have "unat b mod 16 < 16" "unat t mod 64 < 64" by simp_all
  then have "unat c1 < 67108864" unfolding c1 by linarith
  from utf8_trail_step [OF this, of "(t AND 0xc0) XOR 0x80" u s]
  obtain c where st2: "utf8_trail (c1, (t AND 0xc0) XOR 0x80, u # s) = (c, ((t AND 0xc0) XOR 0x80) OR ((u AND 0xc0) XOR 0x80), s)"
    and c: "unat c = unat c1 * 64 + unat u mod 64" by blast
  have "utf8_trails 2 m (t # u # s) = (c, ((t AND 0xc0) XOR 0x80) OR ((u AND 0xc0) XOR 0x80), s)"
    by (simp add: utf8_trails_def st1 st2)
  then have "CBU8_NEXT (b # t # u # s) = (if ((t AND 0xc0) XOR 0x80) OR ((u AND 0xc0) XOR 0x80) \<noteq> 0 \<or> c < utf8_minLegal ! 2 \<or> CBU_IS_SURROGATE c
     then (CBU_SENTINEL, utf8_skip_trail 2 (t # u # s)) else (c, s))"
    using assms unfolding m_def by (intro CBU8_NEXT_lead) (simp_all add: count_byte)
  then show ?thesis
    using c unfolding c1 by (intro exI [of _ c]) (simp add: byte_xor_trail or_eq_0_iff utf8_minLegal_def word_less_nat_alt not_less CBU_IS_SURROGATE_iff del: utf8_skip_trail.simps)
qed

lemma utf8_shift:
  fixes x :: nat
  shows "(x + 192) mod 32 = x mod 32" "(x + 224) mod 16 = x mod 16" "(x + 240) mod 8 = x mod 8"
    "(x mod 64 + 128) mod 64 = x mod 64" "(x mod 64 + 128) div 64 = 2"
proof -
  show "(x + 192) mod 32 = x mod 32"
    using mod_mult_self2 [of x 32 6] by simp
  show "(x + 224) mod 16 = x mod 16"
    using mod_mult_self2 [of x 16 14] by simp
  show "(x + 240) mod 8 = x mod 8"
    using mod_mult_self2 [of x 8 30] by simp
  show "(x mod 64 + 128) mod 64 = x mod 64"
    using mod_mult_self2 [of "x mod 64" 64 2] by simp
  have "x mod 64 < 64" by simp
  then show "(x mod 64 + 128) div 64 = 2" by arith
qed

lemma utf8_horner:
  fixes n :: nat
  shows "n div 64 * 64 + n mod 64 = n"
    "(n div 4096 * 64 + n div 64 mod 64) * 64 + n mod 64 = n"
    "((n div 262144 * 64 + n div 4096 mod 64) * 64 + n div 64 mod 64) * 64 + n mod 64 = n"
proof -
  have q: "n div 4096 = n div 64 div 64" "n div 262144 = n div 64 div 64 div 64"
    by (simp_all add: div_mult2_eq [symmetric])
  show "n div 64 * 64 + n mod 64 = n"
    "(n div 4096 * 64 + n div 64 mod 64) * 64 + n mod 64 = n"
    "((n div 262144 * 64 + n div 4096 mod 64) * 64 + n div 64 mod 64) * 64 + n mod 64 = n"
    by (simp_all only: q div_mult_mod_eq)
qed

lemma CBU8_NEXT_4:
  assumes "240 \<le> unat b" "unat b < 248"
  shows "\<exists>c. unat c = ((unat b mod 8 * 64 + unat t mod 64) * 64 + unat u mod 64) * 64 + unat v mod 64 \<and>
    (if CBU8_IS_TRAIL t \<and> CBU8_IS_TRAIL u \<and> CBU8_IS_TRAIL v \<and> 65536 \<le> unat c \<and> unat c < 1114112
     then CBU8_NEXT (b # t # u # v # s) = (c, s)
     else fst (CBU8_NEXT (b # t # u # v # s)) = CBU_SENTINEL)"
proof -
  let ?il = "\<lambda>t :: byte. (t AND 0xc0) XOR 0x80"
  define m where "m = CBU8_MASK_LEAD_BYTE (scast b) 3"
  have m: "unat m = unat b mod 8"
    using CBU8_MASK_LEAD_BYTE_byte [of b 3] by (simp add: m_def)
  have "unat m < 67108864" unfolding m by (rule less_trans [of _ 8]) simp_all
  from utf8_trail_step [OF this, of 0 t "u # v # s"]
  obtain c1 where st1: "utf8_trail (m, 0, t # u # v # s) = (c1, ?il t, u # v # s)"
    and c1: "unat c1 = unat b mod 8 * 64 + unat t mod 64" by (auto simp: m)
  have lt: "unat b mod 8 < 8" "unat t mod 64 < 64" "unat u mod 64 < 64" "unat v mod 64 < 64" by simp_all
  then have "unat c1 < 1000" unfolding c1 by linarith
  then have "unat c1 < 67108864" by simp
  from utf8_trail_step [OF this, of "?il t" u "v # s"]
  obtain c2 where st2: "utf8_trail (c1, ?il t, u # v # s) = (c2, ?il t OR ?il u, v # s)"
    and c2: "unat c2 = unat c1 * 64 + unat u mod 64" by blast
  from lt(3) \<open>unat c1 < 1000\<close> have "unat c2 < 67108864" unfolding c2 by linarith
  from utf8_trail_step [OF this, of "?il t OR ?il u" v s]
  obtain c where st3: "utf8_trail (c2, ?il t OR ?il u, v # s) = (c, (?il t OR ?il u) OR ?il v, s)"
    and c: "unat c = unat c2 * 64 + unat v mod 64" by blast
  have next4: "CBU8_NEXT (b # t # u # v # s) = (if illegal \<noteq> 0 \<or> d < utf8_minLegal ! 3 \<or> CBU_IS_SURROGATE d
       then (CBU_SENTINEL, utf8_skip_trail 3 (t # u # v # s)) else (d, s'))"
    if "utf8_trails 3 m (t # u # v # s) = (d, illegal, s')" for d illegal s'
    using assms that unfolding m_def by (intro CBU8_NEXT_lead) (simp_all add: count_byte)
  have big: "unat c1 < 272 \<longleftrightarrow> unat c < 1114112" 
    
  proof -
    from lt(3,4) have "unat u mod 64 * 64 + unat v mod 64 < 4096" by linarith
    moreover have "unat c = unat c1 * 4096 + (unat u mod 64 * 64 + unat v mod 64)"
      by (simp add: c c2)
    ultimately show ?thesis by linarith
  qed
  have exp: "unat c = ((unat b mod 8 * 64 + unat t mod 64) * 64 + unat u mod 64) * 64 + unat v mod 64"
    by (simp add: c c2 c1)
  show ?thesis
  proof (cases "unat c1 < 272")
    case True
    then have "c1 < 0x110" by (simp add: word_less_nat_alt)
    then have "utf8_trails 3 m (t # u # v # s) = (c, (?il t OR ?il u) OR ?il v, s)"
      by (simp add: utf8_trails_def st1 st2 st3)
    from next4 [OF this] have "CBU8_NEXT (b # t # u # v # s) =
        (if \<not> (CBU8_IS_TRAIL t \<and> CBU8_IS_TRAIL u \<and> CBU8_IS_TRAIL v) \<or> unat c < 65536 \<or> unat c div 2048 = 27
         then (CBU_SENTINEL, utf8_skip_trail 3 (t # u # v # s)) else (c, s))"
      by (simp add: byte_xor_trail or_eq_0_iff utf8_minLegal_def word_less_nat_alt CBU_IS_SURROGATE_iff
          conj_assoc del: utf8_skip_trail.simps)
    moreover have "unat c div 2048 \<noteq> 27" if "65536 \<le> unat c"
      using div_le_mono [OF that, of 2048] by simp
    ultimately show ?thesis
      using True big by (intro exI [of _ c] conjI exp) auto
  next
    case False
    then have "\<not> c1 < 0x110" by (simp add: word_less_nat_alt)
    then have "utf8_trails 3 m (t # u # v # s) = (c1, 1, u # v # s)"
      by (simp add: utf8_trails_def st1)
    from next4 [OF this] False big show ?thesis
      by (intro exI [of _ c] conjI exp) simp
  qed
qed

lemma CBU8_NEXT_short:
  assumes "192 \<le> unat b" "unat b < 254" and "length s < CBU8_COUNT_TRAIL_BYTES (scast b)"
  shows "fst (CBU8_NEXT (b # s)) = CBU_SENTINEL"
  using assms
  by (simp add: CBU8_NEXT_def Let_def CBU8_IS_LEAD_byte word_le_nat_alt utf8_nextCharSafeBody_def)

lemma CBU8_NEXT_long:
  assumes "248 \<le> unat b" "unat b < 254"
  shows "fst (CBU8_NEXT (b # s)) = CBU_SENTINEL"
  using assms
  by (simp add: CBU8_NEXT_def Let_def CBU8_IS_LEAD_byte word_le_nat_alt utf8_nextCharSafeBody_def count_byte utf8_trails_def)

text \<open>The UTF-8 form of one code point.\<close>

abbreviation utf8_enc :: "u32 \<Rightarrow> cstring" where
  "utf8_enc c \<equiv> WriteUnicodeCharacter_utf8 c []"

lemma unat_or_const:
  fixes x :: u32
  shows "unat x < 64 \<Longrightarrow> unat (x OR 0xc0) = unat x + 192" "unat x < 32 \<Longrightarrow> unat (x OR 0xe0) = unat x + 224"
   "unat x < 16 \<Longrightarrow> unat (x OR 0xf0) = unat x + 240" "unat x < 64 \<Longrightarrow> unat (x OR 0x80) = unat x + 128"
  using unat_or_add [of x 6 "0xc0"] unat_or_add [of x 5 "0xe0"] unat_or_add [of x 4 "0xf0"] unat_or_add [of x 6 "0x80"]
  by (simp_all add: dvd_def)

lemma utf8_enc_1: "unat c < 128 \<Longrightarrow> map unat (utf8_enc c) = [unat c]"
  by (simp add: WriteUnicodeCharacter_utf8_def word_le_nat_alt word_nat)

lemma utf8_enc_2:
  "128 \<le> unat c \<Longrightarrow> unat c < 2048 \<Longrightarrow>
   map unat (utf8_enc c) = [unat c div 64 + 192, unat c mod 64 + 128]"
  by (simp add: WriteUnicodeCharacter_utf8_def CBU8_APPEND_UNSAFE_def word_le_nat_alt word_nat
      unat_or_const)

lemma utf8_enc_3:
  "2048 \<le> unat c \<Longrightarrow> unat c < 65536 \<Longrightarrow>
   map unat (utf8_enc c) = [unat c div 4096 + 224, unat c div 64 mod 64 + 128, unat c mod 64 + 128]"
  by (simp add: WriteUnicodeCharacter_utf8_def CBU8_APPEND_UNSAFE_def word_le_nat_alt word_nat
      unat_or_const)

lemma utf8_enc_4:
  "65536 \<le> unat c \<Longrightarrow> unat c < 1114112 \<Longrightarrow>
   map unat (utf8_enc c) =
     [unat c div 262144 + 240, unat c div 4096 mod 64 + 128, unat c div 64 mod 64 + 128,
      unat c mod 64 + 128]"
  by (simp add: WriteUnicodeCharacter_utf8_def CBU8_APPEND_UNSAFE_def word_le_nat_alt word_nat
      unat_or_const)

lemma IsValidCodepoint_nat:
  "IsValidCodepoint c \<longleftrightarrow> unat c < 55296 \<or> (57344 \<le> unat c \<and> unat c < 1114112)"
  by (auto simp: IsValidCodepoint_def word_less_nat_alt word_le_nat_alt)

lemma not_valid_sentinel: "\<not> IsValidCodepoint CBU_SENTINEL"
  by code_simp

lemma CBU8_NEXT_enc_2:
  assumes c: "128 \<le> unat c" "unat c < 2048"
  shows "CBU8_NEXT (utf8_enc c @ s) = (c, s)"
proof -
  from utf8_enc_2 [OF c] obtain b t where e: "utf8_enc c = [b, t]"
    and bt: "unat b = unat c div 64 + 192" "unat t = unat c mod 64 + 128" by auto
  from c bt have "192 \<le> unat b" "unat b < 224" by simp_all
  from CBU8_NEXT_2 [OF this] obtain d where d: "unat d = unat b mod 32 * 64 + unat t mod 64"
    and n: "CBU8_NEXT (b # t # s) =
       (if CBU8_IS_TRAIL t \<and> 128 \<le> unat d then (d, s) else (CBU_SENTINEL, utf8_skip_trail 1 (t # s)))"
    by blast
  from c have "unat c div 64 mod 32 = unat c div 64" by simp
  then have "unat d = unat c" by (simp only: d bt utf8_shift utf8_horner)
  then have "d = c" by (rule unat_inject)
  moreover have "CBU8_IS_TRAIL t" by (simp_all add: CBU8_IS_TRAIL_iff bt utf8_shift)
  ultimately show ?thesis using c n e by simp
qed

lemma CBU8_NEXT_enc_3:
  assumes c: "2048 \<le> unat c" "unat c < 65536" and ns: "unat c div 2048 \<noteq> 27"
  shows "CBU8_NEXT (utf8_enc c @ s) = (c, s)"
proof -
  from utf8_enc_3 [OF c] obtain b t u where e: "utf8_enc c = [b, t, u]"
    and bt: "unat b = unat c div 4096 + 224" "unat t = unat c div 64 mod 64 + 128"
      "unat u = unat c mod 64 + 128" by auto
  from c bt have "224 \<le> unat b" "unat b < 240" by simp_all
  from CBU8_NEXT_3 [OF this] obtain d
    where d: "unat d = (unat b mod 16 * 64 + unat t mod 64) * 64 + unat u mod 64"
      and n: "CBU8_NEXT (b # t # u # s) =
       (if CBU8_IS_TRAIL t \<and> CBU8_IS_TRAIL u \<and> 2048 \<le> unat d \<and> unat d div 2048 \<noteq> 27
        then (d, s) else (CBU_SENTINEL, utf8_skip_trail 2 (t # u # s)))"
    by blast
  from c have "unat c div 4096 mod 16 = unat c div 4096" by simp
  then have "unat d = unat c" by (simp only: d bt utf8_shift utf8_horner)
  then have "d = c" by (rule unat_inject)
  moreover have "CBU8_IS_TRAIL t" "CBU8_IS_TRAIL u" by (simp_all add: CBU8_IS_TRAIL_iff bt utf8_shift)
  ultimately show ?thesis using c ns n e by simp
qed

lemma CBU8_NEXT_enc_4:
  assumes c: "65536 \<le> unat c" "unat c < 1114112"
  shows "CBU8_NEXT (utf8_enc c @ s) = (c, s)"
proof -
  from utf8_enc_4 [OF c] obtain b t u v where e: "utf8_enc c = [b, t, u, v]"
    and bt: "unat b = unat c div 262144 + 240" "unat t = unat c div 4096 mod 64 + 128"
      "unat u = unat c div 64 mod 64 + 128" "unat v = unat c mod 64 + 128" by auto
  from c bt have "240 \<le> unat b" "unat b < 248" by simp_all
  from CBU8_NEXT_4 [OF this] obtain d
    where d: "unat d = ((unat b mod 8 * 64 + unat t mod 64) * 64 + unat u mod 64) * 64 + unat v mod 64"
      and n: "if CBU8_IS_TRAIL t \<and> CBU8_IS_TRAIL u \<and> CBU8_IS_TRAIL v \<and> 65536 \<le> unat d \<and> unat d < 1114112
        then CBU8_NEXT (b # t # u # v # s) = (d, s)
        else fst (CBU8_NEXT (b # t # u # v # s)) = CBU_SENTINEL"
    by blast
  from c have "unat c div 262144 mod 8 = unat c div 262144" by simp
  then have "unat d = unat c" by (simp only: d bt utf8_shift utf8_horner)
  then have "d = c" by (rule unat_inject)
  moreover have "CBU8_IS_TRAIL t" "CBU8_IS_TRAIL u" "CBU8_IS_TRAIL v"
    by (simp_all add: CBU8_IS_TRAIL_iff bt utf8_shift)
  ultimately show ?thesis using c n e by simp
qed

lemma CBU8_NEXT_enc_1: "unat c < 128 \<Longrightarrow> CBU8_NEXT (utf8_enc c @ s) = (c, s)"
proof -
  assume c: "unat c < 128"
  then obtain b where "utf8_enc c = [b]" and b: "unat b = unat c"
    using utf8_enc_1 [OF c] by auto
  moreover from b have "ucast b = c" using unat_u32_bound [of c] by (simp add: word_eq_iff_unsigned [where 'a = nat] word_nat)
  ultimately show ?thesis
    using c CBU8_NEXT_ascii [of b s] by simp
qed

lemma CBU8_NEXT_enc:
  assumes "IsValidCodepoint c"
  shows "CBU8_NEXT (utf8_enc c @ s) = (c, s)"
proof -
  from assms have "unat c < 1114112" "unat c div 2048 \<noteq> 27"
    by (auto simp: IsValidCodepoint_nat)
  then show ?thesis
    using CBU8_NEXT_enc_1 CBU8_NEXT_enc_2 CBU8_NEXT_enc_3 CBU8_NEXT_enc_4 by (meson not_less)
qed

lemma mod_in_block: "m * k \<le> n \<Longrightarrow> n < m * Suc k \<Longrightarrow> n mod m + m * k = (n :: nat)"
  using div_nat_eqI [of m k n] mult_div_mod_eq [of m n] by simp

lemma trail_byte: "CBU8_IS_TRAIL t \<Longrightarrow> unat t mod 64 + 128 = unat t"
  using mult_div_mod_eq [of 64 "unat t"] by (simp add: CBU8_IS_TRAIL_iff)

lemma lead_byte:
  "192 \<le> n \<Longrightarrow> n < 224 \<Longrightarrow> n mod 32 + 192 = (n :: nat)"
  "224 \<le> n \<Longrightarrow> n < 240 \<Longrightarrow> n mod 16 + 224 = n"
  "240 \<le> n \<Longrightarrow> n < 248 \<Longrightarrow> n mod 8 + 240 = n"
  using mod_in_block [of 32 6 n] mod_in_block [of 16 14 n] mod_in_block [of 8 30 n] by simp_all

lemma utf8_digits:
  fixes n :: nat
  shows "n div 4096 = n div 64 div 64" "n div 262144 = n div 64 div 64 div 64"
    and "b < 64 \<Longrightarrow> (n * 64 + b) div 64 = n" "b < 64 \<Longrightarrow> (n * 64 + b) mod 64 = b"
    and "n < 1024 \<Longrightarrow> b < 64 \<Longrightarrow> n * 64 + b < 65536"
  by (simp_all add: div_mult2_eq [symmetric])

lemma CBU8_NEXT_sound_2:
  assumes b: "192 \<le> unat b" "unat b < 224" and n: "CBU8_NEXT (b # t # s) = (c, r)"
    and v: "IsValidCodepoint c"
  shows "b # t # s = utf8_enc c @ r"
proof -
  from CBU8_NEXT_2 [OF b] obtain d where d: "unat d = unat b mod 32 * 64 + unat t mod 64"
    and e: "CBU8_NEXT (b # t # s) =
       (if CBU8_IS_TRAIL t \<and> 128 \<le> unat d then (d, s) else (CBU_SENTINEL, utf8_skip_trail 1 (t # s)))"
    by blast
  from e n v not_valid_sentinel have t: "CBU8_IS_TRAIL t" "128 \<le> unat c" "c = d" "r = s"
    by (auto split: if_splits)
  have lt: "unat b mod 32 < 32" "unat t mod 64 < 64" by simp_all
  then have "unat c < 2048" unfolding t(3) d by linarith
  from utf8_enc_2 [OF t(2) this] have "utf8_enc c = [b, t]"
    using lead_byte(1) [OF b] trail_byte [OF t(1)]
    by (intro bytes_eqI) (simp add: d t(3) utf8_digits lt)
  with t show ?thesis by simp
qed

lemma CBU8_NEXT_sound_3:
  assumes b: "224 \<le> unat b" "unat b < 240" and n: "CBU8_NEXT (b # t # u # s) = (c, r)"
    and v: "IsValidCodepoint c"
  shows "b # t # u # s = utf8_enc c @ r"
proof -
  from CBU8_NEXT_3 [OF b] obtain d
    where d: "unat d = (unat b mod 16 * 64 + unat t mod 64) * 64 + unat u mod 64"
    and e: "CBU8_NEXT (b # t # u # s) =
       (if CBU8_IS_TRAIL t \<and> CBU8_IS_TRAIL u \<and> 2048 \<le> unat d \<and> unat d div 2048 \<noteq> 27
        then (d, s) else (CBU_SENTINEL, utf8_skip_trail 2 (t # u # s)))"
    by blast
  from e n v not_valid_sentinel
  have t: "CBU8_IS_TRAIL t" "CBU8_IS_TRAIL u" "2048 \<le> unat c" "c = d" "r = s"
    by (auto split: if_splits)
  have lt: "unat b mod 16 < 16" "unat t mod 64 < 64" "unat u mod 64 < 64" by simp_all
  then have "unat b mod 16 * 64 + unat t mod 64 < 1024" by linarith
  from this lt(3) have "unat c < 65536" unfolding t(4) d by (rule utf8_digits)
  from utf8_enc_3 [OF t(3) this] have "utf8_enc c = [b, t, u]"
    using lead_byte(2) [OF b] trail_byte [OF t(1)] trail_byte [OF t(2)]
    by (intro bytes_eqI) (simp only: d t(4) utf8_digits lt simp_thms list.map)
  with t show ?thesis by simp
qed

lemma CBU8_NEXT_sound_4:
  assumes b: "240 \<le> unat b" "unat b < 248" and n: "CBU8_NEXT (b # t # u # w # s) = (c, r)"
    and v: "IsValidCodepoint c"
  shows "b # t # u # w # s = utf8_enc c @ r"
proof -
  from CBU8_NEXT_4 [OF b] obtain d
    where d: "unat d = ((unat b mod 8 * 64 + unat t mod 64) * 64 + unat u mod 64) * 64 + unat w mod 64"
    and e: "if CBU8_IS_TRAIL t \<and> CBU8_IS_TRAIL u \<and> CBU8_IS_TRAIL w \<and> 65536 \<le> unat d \<and> unat d < 1114112
        then CBU8_NEXT (b # t # u # w # s) = (d, s)
        else fst (CBU8_NEXT (b # t # u # w # s)) = CBU_SENTINEL"
    by blast
  from e n v not_valid_sentinel
  have t: "CBU8_IS_TRAIL t" "CBU8_IS_TRAIL u" "CBU8_IS_TRAIL w" "65536 \<le> unat c" "unat c < 1114112" "c = d" "r = s"
    by (auto split: if_splits)
  have lt: "unat t mod 64 < 64" "unat u mod 64 < 64" "unat w mod 64 < 64" by simp_all
  from utf8_enc_4 [OF t(4,5)] have "utf8_enc c = [b, t, u, w]"
    using lead_byte(3) [OF b] trail_byte [OF t(1)] trail_byte [OF t(2)] trail_byte [OF t(3)]
    by (intro bytes_eqI) (simp only: d t(6) utf8_digits lt simp_thms list.map)
  with t show ?thesis by simp
qed

lemma CBU8_NEXT_sound:
  assumes "CBU8_NEXT s = (c, r)" and "IsValidCodepoint c" and "s \<noteq> []"
  shows "s = utf8_enc c @ r"
proof -
  from assms(3) obtain b s' where s: "s = b # s'" by (cases s) auto
  have ns: "fst (CBU8_NEXT s) \<noteq> CBU_SENTINEL" using assms(1,2) not_valid_sentinel by auto
  let ?cnt = "CBU8_COUNT_TRAIL_BYTES (scast b)"
  have "\<not> (128 \<le> unat b \<and> (unat b < 192 \<or> 254 \<le> unat b))"
    using ns CBU8_NEXT_bad [of b s'] by (auto simp: s)
  moreover have "\<not> (248 \<le> unat b \<and> unat b < 254)"
    using ns CBU8_NEXT_long [of b s'] by (auto simp: s)
  moreover have "192 \<le> unat b \<Longrightarrow> unat b < 254 \<Longrightarrow> ?cnt \<le> length s'"
    using ns CBU8_NEXT_short [of b s'] by (auto simp: s not_less [symmetric])
  ultimately consider "unat b < 128" | "192 \<le> unat b" "unat b < 248" "?cnt \<le> length s'"
    by linarith
  then show ?thesis
  proof cases
    case 1
    then have "utf8_enc (ucast b) = [b]"
      using unat_byte_bound [of b] utf8_enc_1 [of "ucast b"] by (intro bytes_eqI) (simp add: word_nat)
    with 1 assms(1) s show ?thesis by (auto simp: CBU8_NEXT_ascii)
  next
    case 2
    show ?thesis
    proof (cases "unat b < 224")
      case True
      with 2 obtain t s2 where "s' = t # s2" by (cases s') (auto simp: count_byte)
      with True 2 assms s CBU8_NEXT_sound_2 show ?thesis by blast
    next
      case ge: False
      show ?thesis
      proof (cases "unat b < 240")
        case True
        with ge 2 have "Suc (Suc 0) \<le> length s'" by (simp add: count_byte)
        then obtain t u s2 where "s' = t # u # s2" by (auto simp: Suc_le_length_iff)
        with True ge assms s show ?thesis
          using CBU8_NEXT_sound_3 by (simp add: not_less)
      next
        case False
        with ge 2 have "Suc (Suc (Suc 0)) \<le> length s'" by (simp add: count_byte)
        then obtain t u w s2 where "s' = t # u # w # s2" by (auto simp: Suc_le_length_iff)
        with False 2 assms s show ?thesis
          using CBU8_NEXT_sound_4 by (simp add: not_less)
      qed
    qed
  qed
qed

section \<open>Wide characters\<close>

abbreviation wide_enc :: "u32 \<Rightarrow> wstring" where
  "wide_enc c \<equiv> WriteUnicodeCharacter_wide c []"

lemma CBU16_IS_TRAIL_iff: "CBU16_IS_TRAIL c \<longleftrightarrow> unat c div 1024 = 55"
proof -
  have "(c AND 0xfffffc00) = push_bit 10 (drop_bit 10 c)"
  proof -
    have "(0xfffffc00 :: u32) = NOT (mask 10)" by code_simp
    then show ?thesis by (simp only: and_not_mask_eq)
  qed
  moreover have "unat (push_bit 10 (drop_bit 10 c)) = unat c div 1024 * 1024"
    using unat_u32_bound [of c] by (subst unat_push_bit_mult) (simp_all add: word_nat)
  ultimately show ?thesis
    by (simp add: CBU16_IS_TRAIL_def word_eq_iff_unsigned [where 'a = nat])
qed

lemma CBU16_IS_SURROGATE_LEAD_iff: "CBU16_IS_SURROGATE_LEAD c \<longleftrightarrow> even (unat c div 1024)"
proof -
  have "(c AND 0x400) = (c AND 2 ^ 10)" by simp
  then have "(c AND 0x400) = 0 \<longleftrightarrow> \<not> bit c 10"
    by (simp only: and_exp_eq_0_iff_not_bit)
  also have "bit c 10 \<longleftrightarrow> bit (unat c) 10"
    by (simp add: bit_unsigned_iff )
  finally show ?thesis
    by (simp add: CBU16_IS_SURROGATE_LEAD_def bit_iff_odd)
qed

lemma wide_enc_2:
  assumes "65536 \<le> unat c" "unat c < 1114112"
  shows "\<exists>l t. wide_enc c = [l, t] \<and> unat l = unat c div 1024 + 55232 \<and> unat t = unat c mod 1024 + 56320"
proof -
  have "unat ((c AND 0x3ff) OR 0xdc00) = unat c mod 1024 + 56320"
    using unat_and_mask [of c 10] unat_or_add [of "c AND 0x3ff" 10 "0xdc00"] by (simp add: mask_eq_exp_minus_1 dvd_def)
  moreover have "unat (drop_bit 10 c + 0xd7c0) = unat c div 1024 + 55232"
    using assms by (simp add: unat_word_ariths word_nat)
  ultimately show ?thesis
    using assms
    by (simp add: WriteUnicodeCharacter_wide_def CBU16_LENGTH_def CBU16_APPEND_UNSAFE_def word_le_nat_alt word_nat)
qed

lemma wide_enc_1: "unat c < 65536 \<Longrightarrow> wide_enc c = [c]"
  by (simp add: WriteUnicodeCharacter_wide_def CBU16_LENGTH_def word_le_nat_alt)

lemma CBU16_GET_SUPPLEMENTARY_nat:
  assumes "55296 \<le> unat l" "unat l < 57344" "56320 \<le> unat t" "unat t < 65536"
  shows "unat (CBU16_GET_SUPPLEMENTARY l t) = unat l * 1024 + unat t - 56613888"
proof -
  have o: "unat CBU16_SURROGATE_OFFSET = 56613888"
    by (simp add: CBU16_SURROGATE_OFFSET_def)
  have "unat (push_bit 10 l) = unat l * 1024"
    using assms unat_push_bit_mult [of l 10] by simp
  then have "unat (push_bit 10 l + t) = unat l * 1024 + unat t"
    using assms by (simp add: unat_word_ariths)
  then show ?thesis
    using assms o by (simp add: CBU16_GET_SUPPLEMENTARY_def unat_sub_if')
qed

lemma Read_wide_enc:
  assumes "IsValidCodepoint c"
  shows "ReadUnicodeCharacter_wide (wide_enc c @ s) = (True, c, s)"
proof (cases "unat c < 65536")
  case True
  from assms have "unat c div 2048 \<noteq> 27" by (auto simp: IsValidCodepoint_nat)
  with True assms show ?thesis
    by (simp add: wide_enc_1 ReadUnicodeCharacter_wide_def CBU_IS_SURROGATE_iff)
next
  case False
  with assms have c: "65536 \<le> unat c" "unat c < 1114112" by (auto simp: IsValidCodepoint_nat)
  from wide_enc_2 [OF c] obtain l t where e: "wide_enc c = [l, t]"
    and l: "unat l = unat c div 1024 + 55232" and t: "unat t = unat c mod 1024 + 56320" by blast
  from c have q: "64 \<le> unat c div 1024" "unat c div 1024 < 1088" by simp_all
  have r: "unat c mod 1024 < 1024" by simp
  have "unat (CBU16_GET_SUPPLEMENTARY l t) = unat c div 1024 * 1024 + unat c mod 1024"
    using q r l t by (subst CBU16_GET_SUPPLEMENTARY_nat) simp_all
  then have "CBU16_GET_SUPPLEMENTARY l t = c" by (intro unat_inject) (simp only: div_mult_mod_eq)
  moreover have "unat l div 1024 = 54" "unat l div 2048 = 27" "unat t div 1024 = 55"
    using q r unfolding l t by (auto intro!: div_nat_eqI)
  ultimately show ?thesis
    using assms by (simp add: e ReadUnicodeCharacter_wide_def CBU_IS_SURROGATE_iff
      CBU16_IS_SURROGATE_LEAD_iff CBU16_IS_TRAIL_iff)
qed

lemma block_1024:
  fixes a b :: nat
  assumes "b < 1024"
  shows "(a * 1024 + b) div 1024 = a" "(a * 1024 + b) mod 1024 = b"
  using assms by simp_all

lemma Read_wide_sound:
  assumes "ReadUnicodeCharacter_wide s = (True, c, r)" and "s \<noteq> []" and "unat (peek s) < 65536"
  shows "IsValidCodepoint c \<and> s = wide_enc c @ r"
proof -
  from assms(2) obtain l s' where s: "s = l # s'" by (cases s) auto
  show ?thesis
  proof (cases "CBU_IS_SURROGATE l")
    case False
    with assms s show ?thesis
      by (auto simp: ReadUnicodeCharacter_wide_def Let_def wide_enc_1)
  next
    case True
    with assms(1) s obtain t s2 where s': "s' = t # s2" and c: "c = CBU16_GET_SUPPLEMENTARY l t"
      and t: "unat t div 1024 = 55" and l: "even (unat l div 1024)" and r: "r = s2" and v: "IsValidCodepoint c"
      by (cases s') (auto simp: ReadUnicodeCharacter_wide_def Let_def CBU16_IS_SURROGATE_LEAD_iff
        CBU16_IS_TRAIL_iff split: if_splits)
    from True have "unat l div 1024 div 2 = 27"
      by (simp add: CBU_IS_SURROGATE_iff div_mult2_eq [symmetric])
    with l have "unat l div 1024 = 54" by (auto elim!: evenE)
    then have lr: "55296 \<le> unat l" "unat l < 56320" by auto
    from t have tr: "56320 \<le> unat t" "unat t < 57344" by auto
    from lr tr have n: "unat c = unat l * 1024 + unat t - 56613888"
      unfolding c by (subst CBU16_GET_SUPPLEMENTARY_nat) auto
    then have n': "unat c = (unat l - 55232) * 1024 + (unat t - 56320)"
      using lr tr by simp
    have c2: "65536 \<le> unat c" "unat c < 1114112" using lr tr n by auto
    from wide_enc_2 [OF c2] obtain l' t' where e: "wide_enc c = [l', t']"
      and l': "unat l' = unat c div 1024 + 55232" and t': "unat t' = unat c mod 1024 + 56320" by blast
    have "unat t - 56320 < 1024" using tr by simp
    then have "unat c div 1024 = unat l - 55232" "unat c mod 1024 = unat t - 56320"
      unfolding n' by (simp_all only: block_1024)
    then have "l' = l" "t' = t" using l' t' lr tr by (auto intro: unat_inject)
    with e s s' r v show ?thesis by simp
  qed
qed

section \<open>The conversion loops\<close>

function ConverUnicode_utf8 :: "cstring \<Rightarrow> wstring \<Rightarrow> wstring" where
  "ConverUnicode_utf8 src output =
     (if src = [] then output
      else (case ReadUnicodeCharacter_utf8 src of (ok, code_point, src') \<Rightarrow>
        ConverUnicode_utf8 src'
          (WriteUnicodeCharacter_wide (if ok then code_point else 0xFFFD) output)))"
  by pat_completeness auto
termination
  by (relation "measure (length \<circ> fst)") (auto dest: sym intro: ReadUnicodeCharacter_utf8_length)

function ConverUnicode_wide :: "wstring \<Rightarrow> cstring \<Rightarrow> cstring" where
  "ConverUnicode_wide src output =
     (if src = [] then output
      else (case ReadUnicodeCharacter_wide src of (ok, code_point, src') \<Rightarrow>
        ConverUnicode_wide src'
          (WriteUnicodeCharacter_utf8 (if ok then code_point else 0xFFFD) output)))"
  by pat_completeness auto
termination
  by (relation "measure (length \<circ> fst)") (auto dest: sym intro: ReadUnicodeCharacter_wide_length)

declare ConverUnicode_utf8.simps [simp del] ConverUnicode_wide.simps [simp del]

definition UTF8ToWide :: "cstring \<Rightarrow> wstring" where
  "UTF8ToWide utf8 = ConverUnicode_utf8 utf8 []"

definition WideToUTF8 :: "wstring \<Rightarrow> cstring" where
  "WideToUTF8 wide = ConverUnicode_wide wide []"

definition WideToASCII :: "wstring \<Rightarrow> cstring" where
  "WideToASCII wide = map ucast wide"

text \<open>\<open>std::wstring(ascii.begin(), ascii.end())\<close> sign-extends each (signed) \<open>char\<close>.\<close>

definition ASCIIToWide :: "cstring \<Rightarrow> wstring" where
  "ASCIIToWide ascii = map scast ascii"

definition IsStringASCII :: "cstring \<Rightarrow> bool" where
  "IsStringASCII s \<longleftrightarrow> list_all (\<lambda>c. \<not> (0x7F :: byte) < c) s"

lemma CBU8_NEXT_less: "CBU8_NEXT s = (c, s') \<Longrightarrow> s \<noteq> [] \<Longrightarrow> length s' < length s"
  using CBU8_NEXT_length [of s] by simp

function IsStringUTF8 :: "cstring \<Rightarrow> bool" where
  "IsStringUTF8 src =
     (if src = [] then True
      else (case CBU8_NEXT src of (code_point, src') \<Rightarrow>
        if IsValidCharacter code_point then False else IsStringUTF8 src'))"
  by pat_completeness auto
termination
  by (relation "measure length") (auto dest: sym intro: CBU8_NEXT_less)

declare IsStringUTF8.simps [simp del]

section \<open>Well-formed strings\<close>

text \<open>Every character is read without error; for wide strings, as UTF-16.\<close>

function utf8_ok :: "cstring \<Rightarrow> bool" where
  "utf8_ok s = (if s = [] then True else (case ReadUnicodeCharacter_utf8 s of (ok, c, s') \<Rightarrow> ok \<and> utf8_ok s'))"
  by pat_completeness auto
termination
  by (relation "measure length") (auto dest: sym intro: ReadUnicodeCharacter_utf8_length)

function wide_ok :: "wstring \<Rightarrow> bool" where
  "wide_ok s = (if s = [] then True else (case ReadUnicodeCharacter_wide s of (ok, c, s') \<Rightarrow>
     ok \<and> peek s \<le> 0xffff \<and> wide_ok s'))"
  by pat_completeness auto
termination
  by (relation "measure length") (auto dest: sym intro: ReadUnicodeCharacter_wide_length)

declare utf8_ok.simps [simp del] wide_ok.simps [simp del]

abbreviation utf8_text :: "u32 list \<Rightarrow> cstring" where
  "utf8_text cs \<equiv> concat (map utf8_enc cs)"

abbreviation wide_text :: "u32 list \<Rightarrow> wstring" where
  "wide_text cs \<equiv> concat (map wide_enc cs)"

lemma utf8_enc_not_Nil [simp]: "utf8_enc c \<noteq> []"
  by (simp add: WriteUnicodeCharacter_utf8_def CBU8_APPEND_UNSAFE_def)

lemma wide_enc_not_Nil [simp]: "wide_enc c \<noteq> []"
  by (simp add: WriteUnicodeCharacter_wide_def CBU16_APPEND_UNSAFE_def)

lemma Write_utf8_append: "WriteUnicodeCharacter_utf8 c out = out @ utf8_enc c"
  by (simp add: WriteUnicodeCharacter_utf8_def CBU8_APPEND_UNSAFE_def)

lemma Write_wide_append: "WriteUnicodeCharacter_wide c out = out @ wide_enc c"
  by (simp add: WriteUnicodeCharacter_wide_def CBU16_APPEND_UNSAFE_def)

lemma Read_utf8_enc:
  "IsValidCodepoint c \<Longrightarrow> ReadUnicodeCharacter_utf8 (utf8_enc c @ s) = (True, c, s)"
  by (simp add: ReadUnicodeCharacter_utf8_def CBU8_NEXT_enc)

lemma ConverUnicode_utf8_text:
  "list_all IsValidCodepoint cs \<Longrightarrow>
   ConverUnicode_utf8 (utf8_text cs @ s) out = ConverUnicode_utf8 s (out @ wide_text cs)"
proof (induction cs arbitrary: out)
  case (Cons c cs)
  then show ?case
    by (subst ConverUnicode_utf8.simps) (simp add: Read_utf8_enc Write_wide_append [of c out])
qed simp

lemma ConverUnicode_wide_text:
  "list_all IsValidCodepoint cs \<Longrightarrow>
   ConverUnicode_wide (wide_text cs @ s) out = ConverUnicode_wide s (out @ utf8_text cs)"
proof (induction cs arbitrary: out)
  case (Cons c cs)
  then show ?case
    by (subst ConverUnicode_wide.simps) (simp add: Read_wide_enc Write_utf8_append [of c out])
qed simp

lemma UTF8ToWide_text: "list_all IsValidCodepoint cs \<Longrightarrow> UTF8ToWide (utf8_text cs) = wide_text cs"
  using ConverUnicode_utf8_text [of cs "[]" "[]"] by (simp add: UTF8ToWide_def ConverUnicode_utf8.simps)

lemma WideToUTF8_text: "list_all IsValidCodepoint cs \<Longrightarrow> WideToUTF8 (wide_text cs) = utf8_text cs"
  using ConverUnicode_wide_text [of cs "[]" "[]"] by (simp add: WideToUTF8_def ConverUnicode_wide.simps)

lemma ConverUnicode_utf8_acc: "ConverUnicode_utf8 s out = out @ ConverUnicode_utf8 s []"
proof (induction "length s" arbitrary: s out rule: less_induct)
  case less
  show ?case
  proof (cases "s = []")
    case True
    then show ?thesis by (simp add: ConverUnicode_utf8.simps)
  next
    case False
    obtain ok c s' where r: "ReadUnicodeCharacter_utf8 s = (ok, c, s')" by (cases "ReadUnicodeCharacter_utf8 s")
    define w where "w = wide_enc (if ok then c else 0xFFFD)"
    have step: "ConverUnicode_utf8 s o1 = ConverUnicode_utf8 s' (o1 @ w)" for o1
      using False r Write_wide_append [of _ o1] by (simp add: ConverUnicode_utf8.simps [of s] w_def)
    have IH: "ConverUnicode_utf8 s' o2 = o2 @ ConverUnicode_utf8 s' []" for o2
      using less [OF ReadUnicodeCharacter_utf8_length [OF r False]] .
    show ?thesis
      by (simp only: step IH [of "out @ w"] IH [of "[] @ w"]) simp
  qed
qed

lemma utf8_ok_text: "utf8_ok s \<longleftrightarrow> (\<exists>cs. list_all IsValidCodepoint cs \<and> s = utf8_text cs)"
proof
  show "utf8_ok s \<Longrightarrow> \<exists>cs. list_all IsValidCodepoint cs \<and> s = utf8_text cs"
  proof (induction s rule: utf8_ok.induct)
    case (1 s)
    show ?case
    proof (cases "s = []")
      case True
      then show ?thesis by (intro exI [of _ "[]"]) simp
    next
      case False
      with 1(2) obtain c s' where r: "ReadUnicodeCharacter_utf8 s = (True, c, s')" and ok: "utf8_ok s'"
        by (auto simp: utf8_ok.simps [of s] split: prod.splits)
      then obtain cs where cs: "list_all IsValidCodepoint cs" "s' = utf8_text cs"
        using 1(1) [OF False] by metis
      from r have "CBU8_NEXT s = (c, s')" "IsValidCodepoint c"
        by (auto simp: ReadUnicodeCharacter_utf8_def split: prod.splits)
      with CBU8_NEXT_sound [of s c s'] False cs show ?thesis
        by (intro exI [of _ "c # cs"]) simp
    qed
  qed
next
  assume "\<exists>cs. list_all IsValidCodepoint cs \<and> s = utf8_text cs"
  then obtain cs where "list_all IsValidCodepoint cs" "s = utf8_text cs" by blast
  then show "utf8_ok s"
    by (induction cs arbitrary: s) (simp_all add: utf8_ok.simps Read_utf8_enc)
qed

lemma wide_enc_peek: "IsValidCodepoint c \<Longrightarrow> peek (wide_enc c) \<le> 0xffff"
  using wide_enc_1 [of c] wide_enc_2 [of c]
  by (cases "unat c < 65536") (auto simp: word_le_nat_alt IsValidCodepoint_nat)

lemma wide_ok_text: "wide_ok s \<longleftrightarrow> (\<exists>cs. list_all IsValidCodepoint cs \<and> s = wide_text cs)"
proof
  show "wide_ok s \<Longrightarrow> \<exists>cs. list_all IsValidCodepoint cs \<and> s = wide_text cs"
  proof (induction s rule: wide_ok.induct)
    case (1 s)
    show ?case
    proof (cases "s = []")
      case True
      then show ?thesis by (intro exI [of _ "[]"]) simp
    next
      case False
      with 1(2) obtain c s' where r: "ReadUnicodeCharacter_wide s = (True, c, s')"
        and p: "unat (peek s) < 65536" and ok: "wide_ok s'"
        by (auto simp: wide_ok.simps [of s] word_le_nat_alt split: prod.splits)
      then obtain cs where cs: "list_all IsValidCodepoint cs" "s' = wide_text cs"
        using 1(1) [OF False] 1(2) False by (metis wide_ok.simps case_prod_conv)
      with Read_wide_sound [OF r False p] show ?thesis
        by (intro exI [of _ "c # cs"]) simp
    qed
  qed
next
  assume "\<exists>cs. list_all IsValidCodepoint cs \<and> s = wide_text cs"
  then obtain cs where "list_all IsValidCodepoint cs" "s = wide_text cs" by blast
  then show "wide_ok s"
    by (induction cs arbitrary: s) (simp_all add: wide_ok.simps Read_wide_enc wide_enc_peek)
qed

lemma UTF8ToWide_append:
  assumes "utf8_ok a"
  shows "UTF8ToWide (a @ b) = UTF8ToWide a @ UTF8ToWide b"
proof -
  from assms obtain cs where cs: "list_all IsValidCodepoint cs" "a = utf8_text cs"
    by (auto simp: utf8_ok_text)
  have "UTF8ToWide (a @ b) = ConverUnicode_utf8 b (wide_text cs)"
    using ConverUnicode_utf8_text [OF cs(1), of b "[]"] by (simp add: UTF8ToWide_def cs(2))
  also have "\<dots> = wide_text cs @ UTF8ToWide b"
    unfolding UTF8ToWide_def by (rule ConverUnicode_utf8_acc)
  finally show ?thesis using cs by (simp add: UTF8ToWide_text)
qed

lemma utf8_ok_append: "utf8_ok a \<Longrightarrow> utf8_ok b \<Longrightarrow> utf8_ok (a @ b)"
  unfolding utf8_ok_text by (metis concat_append list_all_append map_append)

lemma UTF8ToWide_WideToUTF8: "wide_ok w \<Longrightarrow> UTF8ToWide (WideToUTF8 w) = w"
  by (auto simp: wide_ok_text WideToUTF8_text UTF8ToWide_text)

lemma WideToUTF8_UTF8ToWide: "utf8_ok s \<Longrightarrow> WideToUTF8 (UTF8ToWide s) = s"
  by (auto simp: utf8_ok_text WideToUTF8_text UTF8ToWide_text)

text \<open>
  Whatever bytes or code units come in, what goes out is well formed: characters that
  cannot be read are replaced by U+FFFD.
\<close>

lemma IsValidCodepoint_FFFD: "IsValidCodepoint 0xFFFD"
  by (simp add: IsValidCodepoint_def)

lemma ConverUnicode_utf8_valid:
  "\<exists>cs. list_all IsValidCodepoint cs \<and> ConverUnicode_utf8 s out = out @ wide_text cs"
proof (induction s out rule: ConverUnicode_utf8.induct)
  case (1 s out)
  show ?case
  proof (cases "s = []")
    case True
    then show ?thesis by (intro exI [of _ "[]"]) (simp add: ConverUnicode_utf8.simps)
  next
    case False
    obtain ok c s' where r: "ReadUnicodeCharacter_utf8 s = (ok, c, s')" by (cases "ReadUnicodeCharacter_utf8 s")
    define d where "d = (if ok then c else 0xFFFD)"
    have v: "IsValidCodepoint d"
      using r IsValidCodepoint_FFFD by (auto simp: d_def ReadUnicodeCharacter_utf8_def split: prod.splits)
    from 1 [OF False r [symmetric] refl] obtain cs where "list_all IsValidCodepoint cs"
      "ConverUnicode_utf8 s' (WriteUnicodeCharacter_wide d out) = WriteUnicodeCharacter_wide d out @ wide_text cs"
      unfolding d_def by blast
    with v show ?thesis
      using r False Write_wide_append [of d out]
      by (intro exI [of _ "d # cs"]) (simp add: ConverUnicode_utf8.simps [of s] d_def [symmetric])
  qed
qed

lemma ConverUnicode_wide_valid:
  "\<exists>cs. list_all IsValidCodepoint cs \<and> ConverUnicode_wide s out = out @ utf8_text cs"
proof (induction s out rule: ConverUnicode_wide.induct)
  case (1 s out)
  show ?case
  proof (cases "s = []")
    case True
    then show ?thesis by (intro exI [of _ "[]"]) (simp add: ConverUnicode_wide.simps)
  next
    case False
    obtain ok c s' where r: "ReadUnicodeCharacter_wide s = (ok, c, s')" by (cases "ReadUnicodeCharacter_wide s")
    define d where "d = (if ok then c else 0xFFFD)"
    have v: "IsValidCodepoint d"
      using r IsValidCodepoint_FFFD by (auto simp: d_def ReadUnicodeCharacter_wide_def Let_def split: if_splits)
    from 1 [OF False r [symmetric] refl] obtain cs where "list_all IsValidCodepoint cs"
      "ConverUnicode_wide s' (WriteUnicodeCharacter_utf8 d out) = WriteUnicodeCharacter_utf8 d out @ utf8_text cs"
      unfolding d_def by blast
    with v show ?thesis
      using r False Write_utf8_append [of d out]
      by (intro exI [of _ "d # cs"]) (simp add: ConverUnicode_wide.simps [of s] d_def [symmetric])
  qed
qed

lemma utf8_ok_WideToUTF8: "utf8_ok (WideToUTF8 w)"
  using ConverUnicode_wide_valid [of w "[]"] by (auto simp: WideToUTF8_def utf8_ok_text)

lemma wide_ok_UTF8ToWide: "wide_ok (UTF8ToWide s)"
  using ConverUnicode_utf8_valid [of s "[]"] by (auto simp: UTF8ToWide_def wide_ok_text)

lemma utf8_ok_ascii: "list_all (\<lambda>b. unat b < 128) s \<Longrightarrow> utf8_ok s"
  by (induction s) (simp_all add: utf8_ok.simps ReadUnicodeCharacter_utf8_def CBU8_NEXT_ascii
      IsValidCodepoint_nat word_nat)

lemma UTF8ToWide_ascii: "list_all (\<lambda>b. unat b < 128) s \<Longrightarrow> UTF8ToWide s = map ucast s"
proof (induction s)
  case Nil
  then show ?case by (simp add: UTF8ToWide_def ConverUnicode_utf8.simps)
next
  case (Cons b s)
  then have b: "unat b < 128" by simp
  have "UTF8ToWide [b] = [ucast b]"
    using b by (simp add: UTF8ToWide_def ConverUnicode_utf8.simps ReadUnicodeCharacter_utf8_def
        CBU8_NEXT_ascii IsValidCodepoint_nat word_nat wide_enc_1)
  moreover have "UTF8ToWide ([b] @ s) = UTF8ToWide [b] @ UTF8ToWide s"
    using b by (intro UTF8ToWide_append utf8_ok_ascii) simp
  ultimately show ?case using Cons by simp
qed

interpretation utf16: codec WideToUTF8 "\<lambda>s. Some (UTF8ToWide s)" wide_ok
  by unfold_locales (simp add: UTF8ToWide_WideToUTF8)

interpretation utf8: codec UTF8ToWide "\<lambda>w. Some (WideToUTF8 w)" utf8_ok
  by unfold_locales (simp add: WideToUTF8_UTF8ToWide)

section \<open>Properties\<close>

text \<open>
  (C11) On well-formed strings the two conversions are inverse to each other: a UTF-16 wide
  string survives \<open>WideToUTF8\<close> and \<open>UTF8ToWide\<close>, a UTF-8 string survives them in the
  other order.
\<close>

theorem unicode_roundtrip:
  assumes "wide_ok w" and "utf8_ok s"
  shows "UTF8ToWide (WideToUTF8 w) = w \<and> WideToUTF8 (UTF8ToWide s) = s"
  using assms utf16.dec_enc [of w] utf8.dec_enc [of s] by simp

theorem unicode_roundtrip_witness:
  "wide_ok [0x4e2d, 0xd83d, 0xde00, 0x41] \<and> utf8_ok [0xe4, 0xb8, 0xad, 0x41] \<and>
   UTF8ToWide (WideToUTF8 [0x4e2d, 0xd83d, 0xde00, 0x41]) = [0x4e2d, 0xd83d, 0xde00, 0x41] \<and>
   WideToUTF8 (UTF8ToWide [0xe4, 0xb8, 0xad, 0x41]) = [0xe4, 0xb8, 0xad, 0x41]"
proof -
  have "wide_ok [0x4e2d, 0xd83d, 0xde00, 0x41]" by code_simp
  moreover have "utf8_ok [0xe4, 0xb8, 0xad, 0x41]" by code_simp
  ultimately show ?thesis using unicode_roundtrip by blast
qed

text \<open>
  (C15) The safe UTF-8 reader reports a character exactly when the input starts with the
  shortest encoding of a valid code point (no surrogates, nothing above U+10FFFF), the
  one the writer produces, and then it consumes exactly these bytes.
\<close>

theorem utf8_reader_exact:
  assumes "src \<noteq> []"
  shows "ReadUnicodeCharacter_utf8 src = (True, c, rest) \<longleftrightarrow>
    IsValidCodepoint c \<and> src = WriteUnicodeCharacter_utf8 c [] @ rest"
proof
  assume "ReadUnicodeCharacter_utf8 src = (True, c, rest)"
  then have "CBU8_NEXT src = (c, rest)" "IsValidCodepoint c"
    by (auto simp: ReadUnicodeCharacter_utf8_def split: prod.splits)
  then show "IsValidCodepoint c \<and> src = WriteUnicodeCharacter_utf8 c [] @ rest"
    using CBU8_NEXT_sound assms by blast
qed (use Read_utf8_enc in blast)

theorem utf8_reader_exact_witness:
  "ReadUnicodeCharacter_utf8 [0xe2, 0x82, 0xac, 0x21] = (True, 0x20ac, [0x21]) \<longleftrightarrow>
   IsValidCodepoint 0x20ac \<and> [0xe2, 0x82, 0xac, 0x21] = WriteUnicodeCharacter_utf8 0x20ac [] @ [0x21]"
  by (rule utf8_reader_exact) simp

text \<open>
  (C31) Neither conversion ever produces an ill-formed string, whatever its input: unreadable
  input comes out as U+FFFD.
\<close>

theorem conversions_well_formed: "wide_ok (UTF8ToWide s) \<and> utf8_ok (WideToUTF8 w)"
  by (simp add: wide_ok_UTF8ToWide utf8_ok_WideToUTF8)

text \<open>
  \<open>IsStringUTF8\<close> tests its characters the wrong way round: it answers false for every
  non-empty string that starts with a valid character.
\<close>

theorem IsStringUTF8_rejects_valid:
  assumes "IsValidCharacter c" and "IsValidCodepoint c"
  shows "\<not> IsStringUTF8 (WriteUnicodeCharacter_utf8 c [] @ rest)"
  using assms by (simp add: IsStringUTF8.simps CBU8_NEXT_enc)

theorem IsStringUTF8_rejects_valid_witness:
  "IsValidCharacter 0x61 \<and> \<not> IsStringUTF8 (WriteUnicodeCharacter_utf8 0x61 [] @ [0x62])"
proof -
  have "IsValidCharacter 0x61" "IsValidCodepoint 0x61"
    by (simp_all add: IsValidCharacter_def IsValidCodepoint_def)
  then show ?thesis using IsStringUTF8_rejects_valid [of "0x61" "[0x62]"] by blast
qed

end
