(* ===== verification/Std_Map.thy ===== *)
theory Std_Map
  imports Prelude
begin

text \<open>
  \<^verbatim>\<open>std::map\<close> as the library uses it: an association list kept strictly sorted by the key
  comparison, so that iteration is the list itself. \<open>key_map\<close> is what a client of a map
  relies on; \<open>key_order\<close> shows that the sorted list keeps that contract for any strict
  total order, and the order of \<^verbatim>\<open>std::wstring\<close> is one.
\<close>

section \<open>Operations\<close>

fun map_find :: "'k \<Rightarrow> ('k \<times> 'v) list \<Rightarrow> 'v option" where
  "map_find k [] = None"
| "map_find k ((k', v) # m) = (if k = k' then Some v else map_find k m)"

fun map_assign :: "('k \<Rightarrow> 'k \<Rightarrow> bool) \<Rightarrow> 'k \<Rightarrow> 'v \<Rightarrow> ('k \<times> 'v) list \<Rightarrow> ('k \<times> 'v) list" where
  "map_assign lt k v [] = [(k, v)]"
| "map_assign lt k v ((k', v') # m) =
     (if k = k' then (k, v) # m
      else if lt k k' then (k, v) # (k', v') # m
      else (k', v') # map_assign lt k v m)"

fun map_erase :: "'k \<Rightarrow> ('k \<times> 'v) list \<Rightarrow> ('k \<times> 'v) list" where
  "map_erase k [] = []"
| "map_erase k ((k', v) # m) = (if k = k' then m else (k', v) # map_erase k m)"

definition map_ok :: "('k \<Rightarrow> 'k \<Rightarrow> bool) \<Rightarrow> ('k \<times> 'v) list \<Rightarrow> bool" where
  "map_ok lt m \<longleftrightarrow> sorted_wrt lt (map fst m)"

lemma map_ok_Nil [simp]: "map_ok lt []"
  by (simp add: map_ok_def)

lemma map_ok_Cons [simp]: "map_ok lt ((k, v) # m) \<longleftrightarrow> (\<forall>x\<in>set (map fst m). lt k x) \<and> map_ok lt m"
  by (simp add: map_ok_def)

lemma map_find_map_of: "map_find k m = map_of m k"
  by (induction m) auto

lemma map_find_None: "k \<notin> fst ` set m \<Longrightarrow> map_find k m = None"
  by (induction m) auto

lemma map_find_in_set: "map_find k m = Some v \<Longrightarrow> (k, v) \<in> set m"
  by (induction m) (auto split: if_splits)

lemma map_find_dom: "map_find k m = None \<longleftrightarrow> k \<notin> fst ` set m"
  by (induction m) (auto split: if_splits)

lemma fst_set_map_assign: "fst ` set (map_assign lt k v m) = insert k (fst ` set m)"
  by (induction lt k v m rule: map_assign.induct) (simp_all add: insert_commute)

lemma set_map_assign: "set (map_assign lt k v m) \<subseteq> insert (k, v) (set m)"
  by (induction m) (auto split: if_splits)

lemma fst_set_map_erase: "fst ` set (map_erase k m) \<subseteq> fst ` set m"
  by (induction k m rule: map_erase.induct) (simp_all add: subset_insertI subset_insertI2)

lemma set_map_erase: "set (map_erase k m) \<subseteq> set m"
  by (induction m) (auto split: if_splits)

lemma map_find_assign: "map_find k' (map_assign lt k v m) = (if k' = k then Some v else map_find k' m)"
  by (induction m) auto

section \<open>The contract\<close>

locale key_map =
  fixes find :: "'k \<Rightarrow> 'm \<Rightarrow> 'v option"
    and assign :: "'k \<Rightarrow> 'v \<Rightarrow> 'm \<Rightarrow> 'm"
    and erase :: "'k \<Rightarrow> 'm \<Rightarrow> 'm"
    and ok :: "'m \<Rightarrow> bool"
  assumes ok_assign: "ok m \<Longrightarrow> ok (assign k v m)"
    and ok_erase: "ok m \<Longrightarrow> ok (erase k m)"
    and find_assign: "ok m \<Longrightarrow> find k' (assign k v m) = (if k' = k then Some v else find k' m)"
    and find_erase: "ok m \<Longrightarrow> find k' (erase k m) = (if k' = k then None else find k' m)"
begin

lemma find_assign_same [simp]: "ok m \<Longrightarrow> find k (assign k v m) = Some v"
  by (simp add: find_assign)

lemma find_assign_other [simp]: "ok m \<Longrightarrow> k' \<noteq> k \<Longrightarrow> find k' (assign k v m) = find k' m"
  by (simp add: find_assign)

lemma find_erase_same [simp]: "ok m \<Longrightarrow> find k (erase k m) = None"
  by (simp add: find_erase)

lemma erase_assign_find: "ok m \<Longrightarrow> find k m = None \<Longrightarrow> find k' (erase k (assign k v m)) = find k' m"
  by (simp add: find_erase find_assign ok_assign)

lemma assign_assign_find: "ok m \<Longrightarrow> find k' (assign k v (assign k w m)) = find k' (assign k v m)"
  by (simp add: find_assign ok_assign)

end

locale key_order =
  fixes lt :: "'k \<Rightarrow> 'k \<Rightarrow> bool"
  assumes lt_irrefl: "\<not> lt a a"
    and lt_trans: "lt a b \<Longrightarrow> lt b c \<Longrightarrow> lt a c"
    and lt_total: "a \<noteq> b \<Longrightarrow> lt a b \<or> lt b a"
begin

lemma map_ok_assign: "map_ok lt m \<Longrightarrow> map_ok lt (map_assign lt k v m)"
proof (induction m)
  case (Cons e m)
  obtain k' v' where e: "e = (k', v')" by (cases e)
  consider "k = k'" | "k \<noteq> k'" "lt k k'" | "k \<noteq> k'" "\<not> lt k k'" "lt k' k"
    using lt_total by blast
  then show ?case
    using Cons by cases (auto simp: e fst_set_map_assign simp flip: image_iff dest: lt_trans)
qed simp

lemma map_ok_erase: "map_ok lt m \<Longrightarrow> map_ok lt (map_erase k m)"
  by (induction k m rule: map_erase.induct) (simp_all, meson set_map_erase subsetD)

lemma map_find_erase:
  "map_ok lt m \<Longrightarrow> map_find k' (map_erase k m) = (if k' = k then None else map_find k' m)"
proof (induction k m rule: map_erase.induct)
  case (2 k k1 v m)
  then have "k1 \<notin> fst ` set m" using lt_irrefl by auto
  then have "map_find k1 m = None" by (rule map_find_None)
  with 2 show ?case by auto
qed simp

text \<open>Appending a key larger than all keys: the order in which a sorted list is rebuilt.\<close>

lemma map_assign_last:
  "\<forall>x\<in>fst ` set m. lt x k \<Longrightarrow> map_assign lt k v m = m @ [(k, v)]"
proof (induction m)
  case (Cons e m)
  obtain k' v' where e: "e = (k', v')" by (cases e)
  with Cons.prems have "lt k' k" by simp
  then have "k \<noteq> k'" "\<not> lt k k'" using lt_irrefl lt_trans by blast+
  with Cons e show ?case by simp
qed simp

end

sublocale key_order \<subseteq> m: key_map map_find "map_assign lt" map_erase "map_ok lt"
  by unfold_locales (simp_all add: map_ok_assign map_ok_erase map_find_assign map_find_erase)

section \<open>The order of wide strings\<close>

text \<open>
  \<^verbatim>\<open>std::less<std::wstring>\<close>: lexicographic, each \<open>wchar_t\<close> compared as a signed integer.
\<close>

fun wstring_less :: "wstring \<Rightarrow> wstring \<Rightarrow> bool" where
  "wstring_less _ [] = False"
| "wstring_less [] (_ # _) = True"
| "wstring_less (a # s) (b # t) = (sint a < sint b \<or> (a = b \<and> wstring_less s t))"

lemma wstring_less_irrefl: "\<not> wstring_less s s"
  by (induction s) auto

lemma wstring_less_trans: "wstring_less s t \<Longrightarrow> wstring_less t u \<Longrightarrow> wstring_less s u"
proof (induction s t arbitrary: u rule: wstring_less.induct)
  case (2 b t)
  then show ?case by (cases u) auto
next
  case (3 a s b t)
  then show ?case by (cases u) auto
qed simp

lemma wstring_less_total: "s \<noteq> t \<Longrightarrow> wstring_less s t \<or> wstring_less t s"
proof (induction s t rule: wstring_less.induct)
  case (3 a s b t)
  have "sint a < sint b \<or> sint b < sint a \<or> a = b"
    using linorder_less_linear [of "sint a" "sint b"] by (auto intro: signed_word_eqI)
  with 3 show ?case by auto
qed (auto simp: neq_Nil_conv)

interpretation wkey: key_order wstring_less
  by unfold_locales (auto intro: wstring_less_trans simp: wstring_less_irrefl dest: wstring_less_total)

end
