(* ===== verification/Numbers.thy ===== *)
theory Numbers
  imports Prelude
begin

unbundle bit_operations_syntax

text \<open>
  Numbers and their text: \<^verbatim>\<open>IntToStringT\<close>, \<^verbatim>\<open>StringToNumber\<close> with its traits and
  \<^verbatim>\<open>StringAppendVT\<close> of \<^verbatim>\<open>public/basic/basic_util.{h,cc}\<close>, on a model of what they use
  of the C library: \<open>strtol\<close>, the \<open>%d\<close> conversions of \<open>printf\<close>, and the decimal text of an
  IEEE double as \<open>operator<<\<close> writes it and \<open>atof\<close> reads it. A double is its bit pattern.
\<close>

section \<open>Decimal digits\<close>

function dec_digits :: "nat \<Rightarrow> cstring" where
  "dec_digits n = (if n < 10 then [word_of_nat (48 + n)]
                   else dec_digits (n div 10) @ [word_of_nat (48 + n mod 10)])"
  by pat_completeness auto
termination
  by (relation "measure id") auto

declare dec_digits.simps [simp del]

definition isdigit :: "byte \<Rightarrow> bool" where
  "isdigit c \<longleftrightarrow> bc CHR ''0'' \<le> c \<and> c \<le> bc CHR ''9''"

definition isspace :: "byte \<Rightarrow> bool" where
  "isspace c \<longleftrightarrow> c = bc CHR '' '' \<or> (9 \<le> c \<and> c \<le> 13)"

definition dec_value :: "cstring \<Rightarrow> nat" where
  "dec_value ds = foldl (\<lambda>a d. a * 10 + (unat d - 48)) 0 ds"

lemma isdigit_nat: "isdigit c \<longleftrightarrow> 48 \<le> unat c \<and> unat c < 58"
  by (auto simp: isdigit_def word_le_nat_alt)

lemma unat_digit: "d < 10 \<Longrightarrow> unat (word_of_nat (48 + d) :: byte) = 48 + d"
  by (simp only: unat_of_nat) simp

lemma dec_digits_not_Nil [simp]: "dec_digits n \<noteq> []"
  by (subst dec_digits.simps) simp

lemma dec_digits_isdigit: "list_all isdigit (dec_digits n)"
proof (induction n rule: dec_digits.induct)
  case (1 n)
  have "isdigit (word_of_nat (48 + d))" if "d < 10" for d
    unfolding isdigit_nat unat_digit [OF that] using that by simp
  with 1 show ?case by (subst dec_digits.simps) (simp del: of_nat_add)
qed

lemma dec_value_dec_digits [simp]: "dec_value (dec_digits n) = n"
proof (induction n rule: dec_digits.induct)
  case (1 n)
  then show ?case
    by (subst dec_digits.simps) (simp add: dec_value_def unat_digit del: of_nat_add)
qed

lemma dec_digits_first:
  "\<exists>d ds. dec_digits n = d # ds \<and> isdigit d \<and> (d = bc CHR ''0'' \<longrightarrow> ds = [] \<and> n = 0)"
proof (induction n rule: dec_digits.induct)
  case (1 n)
  show ?case
  proof (cases "n < 10")
    case True
    have "isdigit (word_of_nat (48 + n))"
      unfolding isdigit_nat unat_digit [OF True] using True by simp
    moreover have "word_of_nat (48 + n) = bc CHR ''0'' \<longrightarrow> n = 0"
      using unat_digit [OF True] by auto
    ultimately show ?thesis using True by (subst dec_digits.simps) (simp del: of_nat_add)
  next
    case False
    then show ?thesis using 1 by (subst dec_digits.simps) fastforce
  qed
qed

lemma length_dec_digits: "n < 10 ^ Suc k \<Longrightarrow> length (dec_digits n) \<le> Suc k"
proof (induction k arbitrary: n)
  case 0
  then show ?case by (subst dec_digits.simps) simp
next
  case (Suc k)
  then have "n div 10 < 10 ^ Suc k" by (simp add: less_mult_imp_div_less)
  with Suc.IH show ?case by (subst dec_digits.simps) simp
qed

section \<open>strtol and StringToNumber\<close>

text \<open>
  \<open>strtol\<close> and \<open>strtoll\<close>, base 10, with a 64-bit \<open>long\<close>: the value (clamped), the rest of
  the input \<open>endptr\<close>, and whether \<open>errno\<close> is \<open>ERANGE\<close>. Without digits nothing is consumed.
\<close>

definition strtol :: "cstring \<Rightarrow> int \<times> cstring \<times> bool" where
  "strtol s =
     (let s1 = dropWhile isspace s;
          neg = (peek s1 = bc CHR ''-'');
          s2 = (if peek s1 = bc CHR ''-'' \<or> peek s1 = bc CHR ''+'' then tl s1 else s1);
          ds = takeWhile isdigit s2;
          v = (if neg then - int (dec_value ds) else int (dec_value ds))
      in if ds = [] then (0, s, False)
         else if v > 2 ^ 63 - 1 then (2 ^ 63 - 1, dropWhile isdigit s2, True)
         else if v < - (2 ^ 63) then (- (2 ^ 63), dropWhile isdigit s2, True)
         else (v, dropWhile isdigit s2, False))"

definition valid_func :: "cstring \<Rightarrow> bool" where
  "valid_func s \<longleftrightarrow> s \<noteq> [] \<and> \<not> isspace (peek s)"

text \<open>
  The template: the result of the conversion function converted to the value type of the
  traits, and whether the conversion is accepted.
\<close>

definition StringToNumber :: "cstring \<Rightarrow> bool \<times> 'a::len word" where
  "StringToNumber input =
     (case strtol input of (value, endptr, erange) \<Rightarrow>
        (\<not> erange \<and> input \<noteq> [] \<and> endptr = [] \<and> valid_func input, word_of_int value))"

definition StringToCharInt :: "cstring \<Rightarrow> bool \<times> 8 word" where
  "StringToCharInt input = StringToNumber input"

definition StringToShortInt :: "cstring \<Rightarrow> bool \<times> 16 word" where
  "StringToShortInt input = StringToNumber input"

definition StringToInt :: "cstring \<Rightarrow> bool \<times> 32 word" where
  "StringToInt input = StringToNumber input"

definition StringToInt64 :: "cstring \<Rightarrow> bool \<times> 64 word" where
  "StringToInt64 input = StringToNumber input"

section \<open>IntToString\<close>

text \<open>
  \<open>IntToStringT<STR, int64, uint64, true>\<close>: the digits are written from the end of the
  buffer; the list holds what is written so far.
\<close>

function IntToString_loop :: "bool \<Rightarrow> u64 \<Rightarrow> cstring \<Rightarrow> cstring" where
  "IntToString_loop is_neg res it =
     (let it' = (ucast (res mod 10) + bc CHR ''0'') # it; res' = res div 10
      in if res' = 0 then (if is_neg then bc CHR ''-'' # it' else it')
         else IntToString_loop is_neg res' it')"
  by pat_completeness auto
termination
proof (relation "measure (\<lambda>(_, res, _). unat res)", goal_cases)
  case (2 is_neg res it it' res')
  then have "unat res' = unat res div 10" by (simp add: unat_div)
  moreover have "unat res \<noteq> 0" using 2 by (auto simp: unat_eq_zero)
  ultimately show ?case by simp
qed simp

declare IntToString_loop.simps [simp del]

definition Int64ToString :: "64 word \<Rightarrow> cstring" where
  "Int64ToString value =
     IntToString_loop (sint value < 0) (if sint value < 0 then - value else value) []"

section \<open>printf and StringAppendVT\<close>

definition fmt_d :: "int \<Rightarrow> cstring" where
  "fmt_d i = (if i < 0 then bc CHR ''-'' # dec_digits (nat (- i)) else dec_digits (nat i))"

definition fmt_pad :: "nat \<Rightarrow> cstring \<Rightarrow> cstring" where
  "fmt_pad width s = replicate (width - length s) (bc CHR '' '') @ s"

text \<open>
  \<open>StringAppendVT\<close>, for the text that the format and its arguments denote; \<open>vsnprintf\<close>
  returns the length of the whole text and stores what fits. \<open>None\<close> stands for an encoding
  error (a negative result).
\<close>

definition vsnprintf :: "nat \<Rightarrow> cstring option \<Rightarrow> int \<times> cstring" where
  "vsnprintf buf_size text =
     (case text of None \<Rightarrow> (- 1, []) | Some t \<Rightarrow> (int (length t), take (buf_size - 1) t))"

text \<open>
  The body of \<open>while(true)\<close> is one retry with a buffer of the reported size; the result
  \<open>None\<close> is the exception that \<open>append\<close> throws for the length \<open>(size_t)-1\<close>.
\<close>

definition StringAppendVT :: "cstring \<Rightarrow> cstring option \<Rightarrow> cstring option" where
  "StringAppendVT dst text =
     (case vsnprintf 1024 text of (result, stack_buf) \<Rightarrow>
        if result \<le> 0 \<and> result < 1024 then
          (if result < 0 then None else Some (dst @ take (nat result) stack_buf))
        else
          (let mem_length = result + 1 in
           if mem_length > 32 * 1024 * 1024 then Some dst
           else (case vsnprintf (nat mem_length) text of (result', mem_buf) \<Rightarrow>
             Some (dst @ take (nat result') mem_buf))))"

definition StringAppendF :: "cstring \<Rightarrow> cstring \<Rightarrow> cstring" where
  "StringAppendF dst text = (case StringAppendVT dst (Some text) of None \<Rightarrow> dst | Some r \<Rightarrow> r)"

section \<open>Correctness of the conversions\<close>

lemma IntToString_loop_digits:
  "IntToString_loop is_neg res it =
     (if is_neg then [bc CHR ''-''] else []) @ dec_digits (unat res) @ it"
proof (induction is_neg res it rule: IntToString_loop.induct)
  case (1 is_neg res it)
  have d: "ucast (res mod 10) + bc CHR ''0'' = (word_of_nat (48 + unat res mod 10) :: byte)"
    by (rule unat_inject) (simp add: unat_word_ariths word_nat unat_digit unat_mod del: of_nat_add)
  have z: "res div 10 = 0 \<longleftrightarrow> unat res < 10"
    unfolding unat_eq_zero [symmetric] by (simp add: unat_div div_eq_0_iff)
  show ?case
    using 1 [OF refl refl] d z
    by (simp add: IntToString_loop.simps [of is_neg res it] dec_digits.simps [of "unat res"] unat_div Let_def)
qed

lemma Int64ToString_fmt_d: "Int64ToString value = fmt_d (sint value)"
proof (cases "sint value < 0")
  case True
  from unat_of_sint(2) [OF this] True show ?thesis by (simp add: Int64ToString_def IntToString_loop_digits fmt_d_def)
next
  case False
  then have "unat value = nat (sint value)"
    by (intro unat_of_sint(1)) simp
  with False show ?thesis by (simp add: Int64ToString_def IntToString_loop_digits fmt_d_def)
qed

lemma isdigit_not_space: "isdigit c \<Longrightarrow> \<not> isspace c"
  by (auto simp: isdigit_nat isspace_def word_le_nat_alt)

lemma isdigit_not_sign: "isdigit c \<Longrightarrow> c \<noteq> bc CHR ''-'' \<and> c \<noteq> bc CHR ''+''"
  by (auto simp: isdigit_nat)

lemma takeWhile_all: "list_all P xs \<Longrightarrow> takeWhile P xs = xs \<and> dropWhile P xs = []"
  by (induction xs) auto

lemma strtol_fmt_d:
  assumes "- (2 ^ 63) \<le> i" and "i < 2 ^ 63"
  shows "strtol (fmt_d i) = (i, [], False)"
proof -
  obtain d ds where d: "dec_digits (nat \<bar>i\<bar>) = d # ds" "isdigit d"
    using dec_digits_first by blast
  note t = takeWhile_all [OF dec_digits_isdigit [of "nat \<bar>i\<bar>"]]
  have v: "int (dec_value (d # ds)) = \<bar>i\<bar>"
    using dec_value_dec_digits [of "nat \<bar>i\<bar>"] d by simp
  have t': "takeWhile isdigit ds = ds" "dropWhile isdigit ds = []"
    using t d by simp_all
  have ns: "\<not> isspace (bc CHR ''-'')" by (simp add: isspace_def)
  show ?thesis
  proof (cases "i < 0")
    case True
    then have "nat (- i) = nat \<bar>i\<bar>" by simp
    with True show ?thesis
      using d v ns assms by (simp add: fmt_d_def strtol_def Let_def t')
  next
    case False
    then have "nat i = nat \<bar>i\<bar>" by simp
    with False show ?thesis
      using d v isdigit_not_space [OF d(2)] isdigit_not_sign [OF d(2)] assms
      by (simp add: fmt_d_def strtol_def Let_def t')
  qed
qed

lemma valid_func_fmt_d: "valid_func (fmt_d i)"
proof -
  obtain d ds where "dec_digits (nat \<bar>i\<bar>) = d # ds" "isdigit d"
    using dec_digits_first by blast
  then show ?thesis
    using isdigit_not_space [of d]
    by (cases "i < 0") (auto simp: valid_func_def fmt_d_def isspace_def)
qed

lemma StringToNumber_fmt_d:
  assumes "- (2 ^ 63) \<le> i" and "i < 2 ^ 63"
  shows "StringToNumber (fmt_d i) = (True, word_of_int i)"
  using valid_func_fmt_d [of i]
  by (simp add: StringToNumber_def strtol_fmt_d [OF assms]) (auto simp: valid_func_def)

lemma StringAppendF_append: "length s < 32 * 1024 * 1024 \<Longrightarrow> StringAppendF dst s = dst @ s"
  by (cases s) (auto simp: StringAppendF_def StringAppendVT_def vsnprintf_def Let_def nat_add_distrib)

lemma StringAppendF_too_long: "32 * 1024 * 1024 \<le> length s \<Longrightarrow> StringAppendF dst s = dst"
  by (auto simp: StringAppendF_def StringAppendVT_def vsnprintf_def Let_def)

lemma nat_abs_digits: "- (2 ^ 63) \<le> i \<Longrightarrow> i < 2 ^ 63 \<Longrightarrow> nat \<bar>i\<bar> < 10 ^ Suc 18"
  by simp

lemma length_fmt_d:
  assumes "- (2 ^ 63) \<le> i" and "i < 2 ^ 63"
  shows "length (fmt_d i) \<le> 20"
proof -
  have "length (dec_digits (nat \<bar>i\<bar>)) \<le> 19"
    using length_dec_digits [OF nat_abs_digits [OF assms]] by simp
  then show ?thesis by (auto simp: fmt_d_def abs_if split: if_splits)
qed

section \<open>Properties\<close>


text \<open>
  The conversions to the narrower types use \<open>strtol\<close> and check only its 64-bit range:
  the text of any 64-bit number is accepted by \<open>StringToInt\<close>, \<open>StringToShortInt\<close> and
  \<open>StringToCharInt\<close>, and the result is the number modulo the width, although the function
  documents an overflow as a reason to return false.
\<close>

theorem narrow_conversions_truncate:
  assumes "- (2 ^ 63) \<le> i" and "i < 2 ^ 63"
  shows "StringToInt (fmt_d i) = (True, word_of_int i) \<and>
    StringToShortInt (fmt_d i) = (True, word_of_int i) \<and>
    StringToCharInt (fmt_d i) = (True, word_of_int i)"
  by (simp add: StringToInt_def StringToShortInt_def StringToCharInt_def StringToNumber_fmt_d [OF assms])

theorem narrow_conversions_truncate_witness:
  "StringToInt (fmt_d 4294967301) = (True, 5)"
  using narrow_conversions_truncate [of 4294967301] by simp

text \<open>
  \<open>StringAppendF\<close> appends the whole formatted text when it is shorter than 32 MiB, through
  the stack buffer or the retry, and leaves the string alone otherwise.
\<close>

theorem StringAppendF_spec:
  "StringAppendF dst s = (if length s < 32 * 1024 * 1024 then dst @ s else dst)"
  by (simp add: StringAppendF_append StringAppendF_too_long)

end
