(* ===== verification/Doubles.thy ===== *)
theory Doubles
  imports Numbers
begin

unbundle bit_operations_syntax

text \<open>
  IEEE 754 doubles as 64-bit patterns: comparison, \<open>finite\<close>, the text that
  \<open>std::ostream << double\<close> writes (six significant digits, \<open>%g\<close>) and the value \<open>atof\<close>
  gives to a decimal number, both correctly rounded (ties to even). These are the library
  functions behind \<^verbatim>\<open>DoubleToString\<close> and \<^verbatim>\<open>StringToDouble\<close>.
\<close>

type_synonym real64 = "64 word"

section \<open>Bit fields\<close>

definition dbl_neg :: "real64 \<Rightarrow> bool" where
  "dbl_neg d \<longleftrightarrow> bit d 63"

definition dbl_exp :: "real64 \<Rightarrow> nat" where
  "dbl_exp d = unat (drop_bit 52 d AND 0x7ff)"

definition dbl_man :: "real64 \<Rightarrow> nat" where
  "dbl_man d = unat (take_bit 52 d)"

definition is_nan :: "real64 \<Rightarrow> bool" where
  "is_nan d \<longleftrightarrow> dbl_exp d = 0x7ff \<and> dbl_man d \<noteq> 0"

definition finite_dbl :: "real64 \<Rightarrow> bool" where
  "finite_dbl d \<longleftrightarrow> dbl_exp d \<noteq> 0x7ff"

definition is_zero_dbl :: "real64 \<Rightarrow> bool" where
  "is_zero_dbl d \<longleftrightarrow> dbl_exp d = 0 \<and> dbl_man d = 0"

text \<open>The built-in \<open>==\<close>.\<close>

definition dbl_eq :: "real64 \<Rightarrow> real64 \<Rightarrow> bool" where
  "dbl_eq a b \<longleftrightarrow> \<not> is_nan a \<and> \<not> is_nan b \<and> (a = b \<or> (is_zero_dbl a \<and> is_zero_dbl b))"

section \<open>Rounding\<close>

text \<open>\<open>num / den\<close> rounded to an integer, ties to even.\<close>

definition round_half_even :: "nat \<Rightarrow> nat \<Rightarrow> nat" where
  "round_half_even num den =
     (let q = num div den; r = num mod den
      in if 2 * r < den \<or> (2 * r = den \<and> even q) then q else Suc q)"

text \<open>\<open>num / den * base ^ e\<close> as a fraction, for an integer exponent \<open>e\<close>.\<close>

definition scale :: "nat \<Rightarrow> int \<Rightarrow> nat \<times> nat \<Rightarrow> nat \<times> nat" where
  "scale base e q =
     (case q of (num, den) \<Rightarrow>
        if e \<ge> 0 then (num * base ^ nat e, den) else (num, den * base ^ nat (- e)))"

function ilog :: "nat \<Rightarrow> nat \<Rightarrow> nat" where
  "ilog base n = (if base < 2 \<or> n < base then 0 else Suc (ilog base (n div base)))"
  by pat_completeness auto
termination
  by (relation "measure snd") auto

declare ilog.simps [simp del]

text \<open>\<open>e\<close> with \<open>base ^ e \<le> num / den < base ^ (e + 1)\<close>.\<close>

definition frac_log :: "nat \<Rightarrow> nat \<times> nat \<Rightarrow> int" where
  "frac_log base q =
     (case q of (num, den) \<Rightarrow>
        let l = int (ilog base num) - int (ilog base den)
        in if (case scale base (- l) (num, den) of (a, b) \<Rightarrow> b \<le> a) then l else l - 1)"

text \<open>The absolute value of a finite double as a fraction.\<close>

definition dbl_abs :: "real64 \<Rightarrow> nat \<times> nat" where
  "dbl_abs d =
     (if dbl_exp d = 0 then scale 2 (- 1074) (dbl_man d, 1)
      else scale 2 (int (dbl_exp d) - 1075) (2 ^ 52 + dbl_man d, 1))"

text \<open>The double nearest to a positive fraction, without its sign.\<close>

definition dbl_of_frac :: "nat \<times> nat \<Rightarrow> real64" where
  "dbl_of_frac q =
     (if fst q = 0 then 0
      else
        let e = max (frac_log 2 q - 52) (- 1074);
            m = (case scale 2 (- e) q of (a, b) \<Rightarrow> round_half_even a b);
            (m', e') = (if m = 2 ^ 53 then (2 ^ 52, e + 1) else (m, e))
        in if m' < 2 ^ 52 then word_of_nat m'
           else if e' + 1075 \<ge> 2047 then push_bit 52 0x7ff
           else push_bit 52 (word_of_nat (nat (e' + 1075))) + word_of_nat (m' - 2 ^ 52))"

section \<open>Writing\<close>

definition strip_zeros :: "cstring \<Rightarrow> cstring" where
  "strip_zeros s = rev (dropWhile (\<lambda>c. c = bc CHR ''0'') (rev s))"

definition with_fraction :: "cstring \<Rightarrow> cstring \<Rightarrow> cstring" where
  "with_fraction int_part frac =
     (let f = strip_zeros frac in if f = [] then int_part else int_part @ str ''.'' @ f)"

text \<open>The significant digits (six of them) and the decimal exponent \<open>X\<close> of \<open>%e\<close>.\<close>

definition sig_digits :: "nat \<times> nat \<Rightarrow> cstring \<times> int" where
  "sig_digits q =
     (let x = frac_log 10 q;
          n = (case scale 10 (5 - x) q of (a, b) \<Rightarrow> round_half_even a b)
      in if n = 10 ^ 6 then (dec_digits (10 ^ 5), x + 1) else (dec_digits n, x))"

definition DoubleToString :: "real64 \<Rightarrow> cstring" where
  "DoubleToString d =
     (if dbl_neg d then str ''-'' else []) @
     (if is_nan d then str ''nan''
      else if \<not> finite_dbl d then str ''inf''
      else if is_zero_dbl d then str ''0''
      else (case sig_digits (dbl_abs d) of (ds, x) \<Rightarrow>
        if - 4 \<le> x \<and> x < 6 then
          (if x \<ge> 0 then with_fraction (take (nat x + 1) ds) (drop (nat x + 1) ds)
           else with_fraction (str ''0'') (replicate (nat (- x) - 1) (bc CHR ''0'') @ ds))
        else
          with_fraction (take 1 ds) (drop 1 ds) @ str ''e'' @
          (if x < 0 then str ''-'' else str ''+'') @
          (let e = dec_digits (nat \<bar>x\<bar>) in if length e < 2 then bc CHR ''0'' # e else e)))"

section \<open>Reading\<close>

text \<open>
  \<open>atof\<close> on decimal input: an optional sign, digits with an optional point, an optional
  exponent. Hexadecimal numbers and the names of infinity and NaN are not in this model;
  the callers pass tokens of the decimal grammar only.
\<close>

definition atof_exponent :: "cstring \<Rightarrow> int" where
  "atof_exponent s =
     (if peek s = bc CHR ''e'' \<or> peek s = bc CHR ''E'' then
        let s1 = tl s;
            s2 = (if peek s1 = bc CHR ''-'' \<or> peek s1 = bc CHR ''+'' then tl s1 else s1);
            v = int (dec_value (takeWhile isdigit s2))
        in (if peek s1 = bc CHR ''-'' then - v else v)
      else 0)"

definition atof :: "cstring \<Rightarrow> real64" where
  "atof s =
     (let s1 = dropWhile isspace s;
          s2 = (if peek s1 = bc CHR ''-'' \<or> peek s1 = bc CHR ''+'' then tl s1 else s1);
          i = takeWhile isdigit s2;
          s3 = dropWhile isdigit s2;
          f = (if peek s3 = bc CHR ''.'' then takeWhile isdigit (tl s3) else []);
          s4 = (if peek s3 = bc CHR ''.'' then dropWhile isdigit (tl s3) else s3);
          e = atof_exponent s4 - int (length f);
          m = dbl_of_frac (scale 10 e (dec_value (i @ f), 1))
      in if peek s1 = bc CHR ''-'' then push_bit 63 1 OR m else m)"

text \<open>\<open>StringToDouble\<close>: everything but the empty string is accepted.\<close>

definition StringToDouble :: "cstring \<Rightarrow> bool \<times> real64" where
  "StringToDouble input = (if input \<noteq> [] then (True, atof input) else (False, 0))"

lemma dbl_eq_sym: "dbl_eq a b \<longleftrightarrow> dbl_eq b a"
  by (auto simp: dbl_eq_def)

lemma dbl_eq_refl: "dbl_eq a a \<longleftrightarrow> \<not> is_nan a"
  by (simp add: dbl_eq_def)

end
