(* ===== verification/Values.thy ===== *)
theory Values
  imports Unicode Std_Map Doubles "HOL-Library.Sublist"
begin

text \<open>
  The value tree of \<^verbatim>\<open>base/logic/base_values.cc\<close>: the class hierarchy of \<open>Value\<close> as one
  datatype, and one definition per method. A \<open>Value*\<close> that may be NULL is an option; an
  output parameter with a \<open>bool\<close> result is an option; a method that changes the object
  returns the new one. A value owns its children, so a tree is a value of the datatype and
  writing through a pointer to a child is assigning the child in its parent. The map of a
  dictionary is the sorted association list of \<open>Std_Map\<close>.
\<close>

section \<open>The data\<close>

datatype ValueType =
    TYPE_NULL | TYPE_BOOLEAN | TYPE_CHAR_INTEGER | TYPE_SHORT_INTEGER | TYPE_INTEGER
  | TYPE_BIG_INTEGER | TYPE_REAL | TYPE_STRING | TYPE_BINARY | TYPE_DICTIONARY | TYPE_LIST

datatype Value =
    Null
  | Boolean bool
  | CharInteger "8 word"
  | ShortInteger "16 word"
  | Integer "32 word"
  | BigInteger "64 word"
  | Real real64
  | String cstring
  | Binary "byte list"
  | Dictionary "(wstring \<times> Value) list"
  | List "Value list"

type_synonym dict = "(wstring \<times> Value) list"

abbreviation assign :: "wstring \<Rightarrow> Value \<Rightarrow> dict \<Rightarrow> dict" where
  "assign \<equiv> map_assign wstring_less"

fun GetType :: "Value \<Rightarrow> ValueType" where
  "GetType Null = TYPE_NULL"
| "GetType (Boolean _) = TYPE_BOOLEAN"
| "GetType (CharInteger _) = TYPE_CHAR_INTEGER"
| "GetType (ShortInteger _) = TYPE_SHORT_INTEGER"
| "GetType (Integer _) = TYPE_INTEGER"
| "GetType (BigInteger _) = TYPE_BIG_INTEGER"
| "GetType (Real _) = TYPE_REAL"
| "GetType (String _) = TYPE_STRING"
| "GetType (Binary _) = TYPE_BINARY"
| "GetType (Dictionary _) = TYPE_DICTIONARY"
| "GetType (List _) = TYPE_LIST"

definition IsType :: "Value \<Rightarrow> ValueType \<Rightarrow> bool" where
  "IsType v t \<longleftrightarrow> t = GetType v"

section \<open>Construction and conversion\<close>

definition CreateStringValue :: "cstring \<Rightarrow> Value" where
  "CreateStringValue in_value = String in_value"

definition CreateStringValueW :: "wstring \<Rightarrow> Value" where
  "CreateStringValueW in_value = String (WideToUTF8 in_value)"

text \<open>\<open>buffer\<close> is NULL or points to \<open>size\<close> bytes.\<close>

definition BinaryValue_Create :: "byte list option \<Rightarrow> Value option" where
  "BinaryValue_Create buffer = (case buffer of None \<Rightarrow> None | Some b \<Rightarrow> Some (Binary b))"

definition GetAsBoolean :: "Value \<Rightarrow> bool option" where
  "GetAsBoolean v = (case v of Boolean b \<Rightarrow> Some b | _ \<Rightarrow> None)"

definition GetAsCharInteger :: "Value \<Rightarrow> 8 word option" where
  "GetAsCharInteger v = (case v of CharInteger i \<Rightarrow> Some i | _ \<Rightarrow> None)"

definition GetAsShortInteger :: "Value \<Rightarrow> 16 word option" where
  "GetAsShortInteger v = (case v of ShortInteger i \<Rightarrow> Some i | _ \<Rightarrow> None)"

definition GetAsInteger :: "Value \<Rightarrow> 32 word option" where
  "GetAsInteger v = (case v of Integer i \<Rightarrow> Some i | _ \<Rightarrow> None)"

definition GetAsBigInteger :: "Value \<Rightarrow> 64 word option" where
  "GetAsBigInteger v = (case v of BigInteger i \<Rightarrow> Some i | _ \<Rightarrow> None)"

definition GetAsReal :: "Value \<Rightarrow> real64 option" where
  "GetAsReal v = (case v of Real r \<Rightarrow> Some r | _ \<Rightarrow> None)"

definition GetAsString :: "Value \<Rightarrow> cstring option" where
  "GetAsString v = (case v of String s \<Rightarrow> Some s | _ \<Rightarrow> None)"

definition GetAsStringW :: "Value \<Rightarrow> wstring option" where
  "GetAsStringW v = (case v of String s \<Rightarrow> Some (UTF8ToWide s) | _ \<Rightarrow> None)"

definition AsBinary :: "Value \<Rightarrow> byte list option" where
  "AsBinary v = (case v of Binary b \<Rightarrow> Some b | _ \<Rightarrow> None)"

definition AsDictionary :: "Value \<Rightarrow> dict option" where
  "AsDictionary v = (case v of Dictionary d \<Rightarrow> Some d | _ \<Rightarrow> None)"

definition AsList :: "Value \<Rightarrow> Value list option" where
  "AsList v = (case v of List xs \<Rightarrow> Some xs | _ \<Rightarrow> None)"

section \<open>Copy and comparison\<close>

text \<open>\<open>DictionaryValue::DeepCopy\<close> returns a fresh dictionary and copies nothing into it.\<close>

fun DeepCopy :: "Value \<Rightarrow> Value" where
  "DeepCopy (Dictionary _) = Dictionary []"
| "DeepCopy (List xs) = List (map DeepCopy xs)"
| "DeepCopy v = v"

text \<open>
  \<open>Equals\<close>: doubles are compared with \<open>==\<close>, dictionaries by their type only, lists
  element by element until one of them ends.
\<close>

fun Equals :: "Value \<Rightarrow> Value \<Rightarrow> bool" where
  "Equals Null other = (GetType other = TYPE_NULL)"
| "Equals (Real a) other = (case other of Real b \<Rightarrow> dbl_eq a b | _ \<Rightarrow> False)"
| "Equals (Dictionary _) other = (GetType other = TYPE_DICTIONARY)"
| "Equals (List xs) other =
     (case other of List ys \<Rightarrow> list_all2 Equals xs ys | _ \<Rightarrow> False)"
| "Equals (Boolean a) other = (case other of Boolean b \<Rightarrow> a = b | _ \<Rightarrow> False)"
| "Equals (CharInteger a) other = (case other of CharInteger b \<Rightarrow> a = b | _ \<Rightarrow> False)"
| "Equals (ShortInteger a) other = (case other of ShortInteger b \<Rightarrow> a = b | _ \<Rightarrow> False)"
| "Equals (Integer a) other = (case other of Integer b \<Rightarrow> a = b | _ \<Rightarrow> False)"
| "Equals (BigInteger a) other = (case other of BigInteger b \<Rightarrow> a = b | _ \<Rightarrow> False)"
| "Equals (String a) other = (case other of String b \<Rightarrow> a = b | _ \<Rightarrow> False)"
| "Equals (Binary a) other = (case other of Binary b \<Rightarrow> a = b | _ \<Rightarrow> False)"

section \<open>Dictionary: keys without path expansion\<close>

definition HasKey :: "dict \<Rightarrow> wstring \<Rightarrow> bool" where
  "HasKey d key \<longleftrightarrow> map_find key d \<noteq> None"

definition HasKeyASCII :: "dict \<Rightarrow> cstring \<Rightarrow> bool" where
  "HasKeyASCII d key = HasKey d (ASCIIToWide key)"

definition Dict_Clear :: "dict \<Rightarrow> dict" where
  "Dict_Clear d = []"

definition SetWithoutPathExpansion :: "dict \<Rightarrow> wstring \<Rightarrow> Value option \<Rightarrow> dict" where
  "SetWithoutPathExpansion d key in_value =
     (case in_value of None \<Rightarrow> d | Some v \<Rightarrow> assign key v d)"

definition GetWithoutPathExpansion :: "dict \<Rightarrow> wstring \<Rightarrow> Value option" where
  "GetWithoutPathExpansion d key = map_find key d"

definition RemoveWithoutPathExpansion :: "dict \<Rightarrow> wstring \<Rightarrow> (Value \<times> dict) option" where
  "RemoveWithoutPathExpansion d key =
     (case map_find key d of None \<Rightarrow> None | Some entry \<Rightarrow> Some (entry, map_erase key d))"

definition GetDictionaryWithoutPathExpansion :: "dict \<Rightarrow> wstring \<Rightarrow> dict option" where
  "GetDictionaryWithoutPathExpansion d path = Option.bind (GetWithoutPathExpansion d path) AsDictionary"

definition GetListWithoutPathExpansion :: "dict \<Rightarrow> wstring \<Rightarrow> Value list option" where
  "GetListWithoutPathExpansion d path = Option.bind (GetWithoutPathExpansion d path) AsList"

definition GetCharIntegerWithoutPathExpansion :: "dict \<Rightarrow> wstring \<Rightarrow> 8 word option" where
  "GetCharIntegerWithoutPathExpansion d path = Option.bind (GetWithoutPathExpansion d path) GetAsCharInteger"

definition GetShortIntegerWithoutPathExpansion :: "dict \<Rightarrow> wstring \<Rightarrow> 16 word option" where
  "GetShortIntegerWithoutPathExpansion d path = Option.bind (GetWithoutPathExpansion d path) GetAsShortInteger"

definition GetIntegerWithoutPathExpansion :: "dict \<Rightarrow> wstring \<Rightarrow> 32 word option" where
  "GetIntegerWithoutPathExpansion d path = Option.bind (GetWithoutPathExpansion d path) GetAsInteger"

definition GetBigIntegerWithoutPathExpansion :: "dict \<Rightarrow> wstring \<Rightarrow> 64 word option" where
  "GetBigIntegerWithoutPathExpansion d path = Option.bind (GetWithoutPathExpansion d path) GetAsBigInteger"

definition GetStringWithoutPathExpansion :: "dict \<Rightarrow> wstring \<Rightarrow> cstring option" where
  "GetStringWithoutPathExpansion d path = Option.bind (GetWithoutPathExpansion d path) GetAsString"

definition GetStringWWithoutPathExpansion :: "dict \<Rightarrow> wstring \<Rightarrow> wstring option" where
  "GetStringWWithoutPathExpansion d path = Option.bind (GetWithoutPathExpansion d path) GetAsStringW"

section \<open>Dictionary: dotted paths\<close>

text \<open>\<open>std::wstring::find\<close> and \<open>rfind\<close> of one character.\<close>

fun string_find :: "'a \<Rightarrow> 'a list \<Rightarrow> nat option" where
  "string_find c [] = None"
| "string_find c (x # s) = (if x = c then Some 0 else map_option Suc (string_find c s))"

fun string_rfind :: "'a \<Rightarrow> 'a list \<Rightarrow> nat option" where
  "string_rfind c [] = None"
| "string_rfind c (x # s) =
     (case string_rfind c s of Some i \<Rightarrow> Some (Suc i) | None \<Rightarrow> if x = c then Some 0 else None)"

lemma string_find_less: "string_find c s = Some i \<Longrightarrow> i < length s"
  by (induction s arbitrary: i) (auto split: if_splits)

lemma string_rfind_less: "string_rfind c s = Some i \<Longrightarrow> i < length s"
  by (induction s arbitrary: i) (auto split: if_splits option.splits)

text \<open>
  \<open>Get\<close> walks the dictionaries named by the components before each dot;
  \<open>GetDictionary\<close> is \<open>Get\<close> with a check of the type, and \<open>Get\<close> calls it on each component.
\<close>

function (sequential) Dict_Get :: "dict \<Rightarrow> wstring \<Rightarrow> Value option"
  and Dict_GetDictionary :: "dict \<Rightarrow> wstring \<Rightarrow> dict option"
where
  "Dict_Get d path =
     (case string_find (wc CHR ''.'') path of
        None \<Rightarrow> GetWithoutPathExpansion d path
      | Some p \<Rightarrow>
          (case Dict_GetDictionary d (take p path) of
             None \<Rightarrow> None
           | Some child \<Rightarrow> Dict_Get child (drop (p + 1) path)))"
| "Dict_GetDictionary d path =
     (case Dict_Get d path of
        None \<Rightarrow> None
      | Some v \<Rightarrow> (case v of Dictionary c \<Rightarrow> Some c | _ \<Rightarrow> None))"
  by pat_completeness auto
termination
  by (relation "measure (\<lambda>x. case x of Inl (_, path) \<Rightarrow> 2 * length path
                               | Inr (_, path) \<Rightarrow> 2 * length path + 1)")
    (auto dest: string_find_less)

declare Dict_Get.simps [simp del] Dict_GetDictionary.simps [simp del]

text \<open>
  The loop of \<open>Set\<close>: at each dot the child dictionary is the existing one, or a new empty
  one put under the key, replacing a value that is not a dictionary.
\<close>

function Dict_Set_loop :: "dict \<Rightarrow> wstring \<Rightarrow> Value \<Rightarrow> dict" where
  "Dict_Set_loop d current_path in_value =
     (case string_find (wc CHR ''.'') current_path of
        None \<Rightarrow> SetWithoutPathExpansion d current_path (Some in_value)
      | Some p \<Rightarrow>
          (let key = take p current_path;
               child_dictionary = (case Dict_GetDictionary d key of None \<Rightarrow> [] | Some c \<Rightarrow> c)
           in SetWithoutPathExpansion d key
                (Some (Dictionary
                  (Dict_Set_loop child_dictionary (drop (p + 1) current_path) in_value)))))"
  by pat_completeness auto
termination
  by (relation "measure (\<lambda>(_, path, _). length path)") (auto dest: string_find_less)

declare Dict_Set_loop.simps [simp del]

definition Dict_Set :: "dict \<Rightarrow> wstring \<Rightarrow> Value option \<Rightarrow> dict" where
  "Dict_Set d path in_value = (case in_value of None \<Rightarrow> d | Some v \<Rightarrow> Dict_Set_loop d path v)"

definition Dict_Set8 :: "dict \<Rightarrow> cstring \<Rightarrow> Value option \<Rightarrow> dict" where
  "Dict_Set8 d path in_value =
     (case in_value of None \<Rightarrow> d | Some v \<Rightarrow> Dict_Set d (UTF8ToWide path) (Some v))"

text \<open>
  \<open>Remove\<close> finds the dictionary before the last dot and removes the key after it there;
  \<open>Dict_Set_loop\<close> along the same, existing path writes the changed dictionary back.
\<close>

definition Dict_Remove :: "dict \<Rightarrow> wstring \<Rightarrow> (Value \<times> dict) option" where
  "Dict_Remove d path =
     (case string_rfind (wc CHR ''.'') path of
        None \<Rightarrow> RemoveWithoutPathExpansion d path
      | Some p \<Rightarrow>
          (case Dict_GetDictionary d (take p path) of
             None \<Rightarrow> None
           | Some current_dictionary \<Rightarrow>
               (case RemoveWithoutPathExpansion current_dictionary (drop (p + 1) path) of
                  None \<Rightarrow> None
                | Some (entry, c) \<Rightarrow> Some (entry, Dict_Set_loop d (take p path) (Dictionary c)))))"

section \<open>Dictionary: typed access\<close>

text \<open>
  The typed setters wrap the value and call \<open>Set\<close>, by wide path or, with the suffix 8, by
  UTF-8 path; the typed getters call \<open>Get\<close> and the conversion.
\<close>

definition Dict_SetBoolean :: "dict \<Rightarrow> wstring \<Rightarrow> bool \<Rightarrow> dict" where
  "Dict_SetBoolean d path in_value = Dict_Set d path (Some (Boolean in_value))"

definition Dict_SetCharInteger :: "dict \<Rightarrow> wstring \<Rightarrow> 8 word \<Rightarrow> dict" where
  "Dict_SetCharInteger d path in_value = Dict_Set d path (Some (CharInteger in_value))"

definition Dict_SetShortInteger :: "dict \<Rightarrow> wstring \<Rightarrow> 16 word \<Rightarrow> dict" where
  "Dict_SetShortInteger d path in_value = Dict_Set d path (Some (ShortInteger in_value))"

definition Dict_SetInteger :: "dict \<Rightarrow> wstring \<Rightarrow> 32 word \<Rightarrow> dict" where
  "Dict_SetInteger d path in_value = Dict_Set d path (Some (Integer in_value))"

definition Dict_SetBigInteger :: "dict \<Rightarrow> wstring \<Rightarrow> 64 word \<Rightarrow> dict" where
  "Dict_SetBigInteger d path in_value = Dict_Set d path (Some (BigInteger in_value))"

definition Dict_SetReal :: "dict \<Rightarrow> wstring \<Rightarrow> real64 \<Rightarrow> dict" where
  "Dict_SetReal d path in_value = Dict_Set d path (Some (Real in_value))"

definition Dict_SetString :: "dict \<Rightarrow> wstring \<Rightarrow> cstring \<Rightarrow> dict" where
  "Dict_SetString d path in_value = Dict_Set d path (Some (CreateStringValue in_value))"

definition Dict_SetStringW :: "dict \<Rightarrow> wstring \<Rightarrow> wstring \<Rightarrow> dict" where
  "Dict_SetStringW d path in_value = Dict_Set d path (Some (CreateStringValueW in_value))"

definition Dict_SetBoolean8 :: "dict \<Rightarrow> cstring \<Rightarrow> bool \<Rightarrow> dict" where
  "Dict_SetBoolean8 d path in_value = Dict_Set8 d path (Some (Boolean in_value))"

definition Dict_SetCharInteger8 :: "dict \<Rightarrow> cstring \<Rightarrow> 8 word \<Rightarrow> dict" where
  "Dict_SetCharInteger8 d path in_value = Dict_Set8 d path (Some (CharInteger in_value))"

definition Dict_SetShortInteger8 :: "dict \<Rightarrow> cstring \<Rightarrow> 16 word \<Rightarrow> dict" where
  "Dict_SetShortInteger8 d path in_value = Dict_Set8 d path (Some (ShortInteger in_value))"

definition Dict_SetInteger8 :: "dict \<Rightarrow> cstring \<Rightarrow> 32 word \<Rightarrow> dict" where
  "Dict_SetInteger8 d path in_value = Dict_Set8 d path (Some (Integer in_value))"

definition Dict_SetBigInteger8 :: "dict \<Rightarrow> cstring \<Rightarrow> 64 word \<Rightarrow> dict" where
  "Dict_SetBigInteger8 d path in_value = Dict_Set8 d path (Some (BigInteger in_value))"

definition Dict_SetReal8 :: "dict \<Rightarrow> cstring \<Rightarrow> real64 \<Rightarrow> dict" where
  "Dict_SetReal8 d path in_value = Dict_Set8 d path (Some (Real in_value))"

definition Dict_SetString8 :: "dict \<Rightarrow> cstring \<Rightarrow> cstring \<Rightarrow> dict" where
  "Dict_SetString8 d path in_value = Dict_Set8 d path (Some (CreateStringValue in_value))"

definition Dict_SetStringW8 :: "dict \<Rightarrow> cstring \<Rightarrow> wstring \<Rightarrow> dict" where
  "Dict_SetStringW8 d path in_value = Dict_Set8 d path (Some (CreateStringValueW in_value))"

definition Dict_GetBoolean :: "dict \<Rightarrow> wstring \<Rightarrow> bool option" where
  "Dict_GetBoolean d path = Option.bind (Dict_Get d path) GetAsBoolean"

definition Dict_GetCharInteger :: "dict \<Rightarrow> wstring \<Rightarrow> 8 word option" where
  "Dict_GetCharInteger d path = Option.bind (Dict_Get d path) GetAsCharInteger"

definition Dict_GetShortInteger :: "dict \<Rightarrow> wstring \<Rightarrow> 16 word option" where
  "Dict_GetShortInteger d path = Option.bind (Dict_Get d path) GetAsShortInteger"

definition Dict_GetInteger :: "dict \<Rightarrow> wstring \<Rightarrow> 32 word option" where
  "Dict_GetInteger d path = Option.bind (Dict_Get d path) GetAsInteger"

definition Dict_GetBigInteger :: "dict \<Rightarrow> wstring \<Rightarrow> 64 word option" where
  "Dict_GetBigInteger d path = Option.bind (Dict_Get d path) GetAsBigInteger"

definition Dict_GetReal :: "dict \<Rightarrow> wstring \<Rightarrow> real64 option" where
  "Dict_GetReal d path = Option.bind (Dict_Get d path) GetAsReal"

definition Dict_GetString :: "dict \<Rightarrow> wstring \<Rightarrow> cstring option" where
  "Dict_GetString d path = Option.bind (Dict_Get d path) GetAsString"

definition Dict_GetStringW :: "dict \<Rightarrow> wstring \<Rightarrow> wstring option" where
  "Dict_GetStringW d path = Option.bind (Dict_Get d path) GetAsStringW"

definition Dict_GetBinary :: "dict \<Rightarrow> wstring \<Rightarrow> byte list option" where
  "Dict_GetBinary d path = Option.bind (Dict_Get d path) AsBinary"

definition Dict_GetList :: "dict \<Rightarrow> wstring \<Rightarrow> Value list option" where
  "Dict_GetList d path = Option.bind (Dict_Get d path) AsList"

definition Dict_GetStringASCII :: "dict \<Rightarrow> cstring \<Rightarrow> cstring option" where
  "Dict_GetStringASCII d path =
     (case Dict_GetString d (ASCIIToWide path) of
        None \<Rightarrow> None
      | Some out \<Rightarrow> if IsStringASCII out then Some out else None)"

section \<open>Dictionary: whole trees\<close>

text \<open>
  The keys of a dictionary are visited in order; the value found under a key of the
  iteration is the entry itself.
\<close>

fun MergeDictionary :: "dict \<Rightarrow> dict \<Rightarrow> dict" where
  "MergeDictionary d [] = d"
| "MergeDictionary d ((key, merge_value) # rest) =
     MergeDictionary
       (case merge_value of
          Dictionary sub \<Rightarrow>
            (case GetDictionaryWithoutPathExpansion d key of
               Some sub_dict \<Rightarrow> assign key (Dictionary (MergeDictionary sub_dict sub)) d
             | None \<Rightarrow> SetWithoutPathExpansion d key (Some (DeepCopy merge_value)))
        | _ \<Rightarrow> SetWithoutPathExpansion d key (Some (DeepCopy merge_value)))
       rest"

definition GetDicKey :: "dict \<Rightarrow> cstring list" where
  "GetDicKey d = map (\<lambda>e. WideToASCII (fst e)) d"

section \<open>Lists\<close>

definition List_Clear :: "Value list \<Rightarrow> Value list" where
  "List_Clear xs = []"

definition List_Append :: "Value list \<Rightarrow> Value option \<Rightarrow> Value list" where
  "List_Append xs in_value = (case in_value of None \<Rightarrow> xs | Some v \<Rightarrow> xs @ [v])"

text \<open>The loop that appends nulls until the list has \<open>index\<close> elements.\<close>

function List_pad :: "Value list \<Rightarrow> nat \<Rightarrow> Value list" where
  "List_pad xs index = (if index > length xs then List_pad (List_Append xs (Some Null)) index else xs)"
  by pat_completeness auto
termination
  by (relation "measure (\<lambda>(xs, index). index - length xs)") (auto simp: List_Append_def)

declare List_pad.simps [simp del]

definition List_Set :: "Value list \<Rightarrow> nat \<Rightarrow> Value option \<Rightarrow> bool \<times> Value list" where
  "List_Set xs index in_value =
     (case in_value of
        None \<Rightarrow> (False, xs)
      | Some v \<Rightarrow>
          if index \<ge> length xs then (True, List_Append (List_pad xs index) (Some v))
          else (True, xs[index := v]))"

definition List_Get :: "Value list \<Rightarrow> nat \<Rightarrow> Value option" where
  "List_Get xs index = (if index \<ge> length xs then None else Some (xs ! index))"

definition List_GetBoolean :: "Value list \<Rightarrow> nat \<Rightarrow> bool option" where
  "List_GetBoolean xs index = Option.bind (List_Get xs index) GetAsBoolean"

definition List_GetCharInteger :: "Value list \<Rightarrow> nat \<Rightarrow> 8 word option" where
  "List_GetCharInteger xs index = Option.bind (List_Get xs index) GetAsCharInteger"

definition List_GetShortInteger :: "Value list \<Rightarrow> nat \<Rightarrow> 16 word option" where
  "List_GetShortInteger xs index = Option.bind (List_Get xs index) GetAsShortInteger"

definition List_GetInteger :: "Value list \<Rightarrow> nat \<Rightarrow> 32 word option" where
  "List_GetInteger xs index = Option.bind (List_Get xs index) GetAsInteger"

definition List_GetBigInteger :: "Value list \<Rightarrow> nat \<Rightarrow> 64 word option" where
  "List_GetBigInteger xs index = Option.bind (List_Get xs index) GetAsBigInteger"

definition List_GetReal :: "Value list \<Rightarrow> nat \<Rightarrow> real64 option" where
  "List_GetReal xs index = Option.bind (List_Get xs index) GetAsReal"

definition List_GetString :: "Value list \<Rightarrow> nat \<Rightarrow> cstring option" where
  "List_GetString xs index = Option.bind (List_Get xs index) GetAsString"

definition List_GetStringW :: "Value list \<Rightarrow> nat \<Rightarrow> wstring option" where
  "List_GetStringW xs index = Option.bind (List_Get xs index) GetAsStringW"

definition List_GetBinary :: "Value list \<Rightarrow> nat \<Rightarrow> byte list option" where
  "List_GetBinary xs index = Option.bind (List_Get xs index) AsBinary"

definition List_GetDictionary :: "Value list \<Rightarrow> nat \<Rightarrow> dict option" where
  "List_GetDictionary xs index = Option.bind (List_Get xs index) AsDictionary"

definition List_GetList :: "Value list \<Rightarrow> nat \<Rightarrow> Value list option" where
  "List_GetList xs index = Option.bind (List_Get xs index) AsList"

definition List_Remove :: "Value list \<Rightarrow> nat \<Rightarrow> (Value \<times> Value list) option" where
  "List_Remove xs index =
     (if index \<ge> length xs then None
      else Some (xs ! index, take index xs @ drop (index + 1) xs))"

text \<open>\<open>Remove(const Value&)\<close>: the index of the first element equal to the value, or -1.\<close>

fun List_RemoveValue :: "Value list \<Rightarrow> Value \<Rightarrow> int \<times> Value list" where
  "List_RemoveValue [] v = (- 1, [])"
| "List_RemoveValue (x # xs) v =
     (if Equals x v then (0, xs)
      else (case List_RemoveValue xs v of (i, ys) \<Rightarrow> (if i = - 1 then - 1 else i + 1, x # ys)))"

definition AppendIfNotPresent :: "Value list \<Rightarrow> Value option \<Rightarrow> bool \<times> Value list" where
  "AppendIfNotPresent xs in_value =
     (case in_value of
        None \<Rightarrow> (False, xs)
      | Some v \<Rightarrow> if list_ex (\<lambda>x. Equals x v) xs then (False, xs) else (True, xs @ [v]))"

definition List_Insert :: "Value list \<Rightarrow> nat \<Rightarrow> Value option \<Rightarrow> bool \<times> Value list" where
  "List_Insert xs index in_value =
     (case in_value of
        None \<Rightarrow> (False, xs)
      | Some v \<Rightarrow>
          if index > length xs then (False, xs)
          else (True, take index xs @ [v] @ drop index xs))"

section \<open>Copying without empty children\<close>

text \<open>\<open>None\<close> is the NULL returned for a list or dictionary that has nothing left.\<close>

fun CopyWithoutEmptyChildren :: "Value \<Rightarrow> Value option"
  and copy_list_children :: "Value list \<Rightarrow> Value list \<Rightarrow> Value list"
  and copy_dict_children :: "dict \<Rightarrow> dict \<Rightarrow> dict"
where
  "CopyWithoutEmptyChildren (List xs) =
     (let copy = copy_list_children [] xs in if copy \<noteq> [] then Some (List copy) else None)"
| "CopyWithoutEmptyChildren (Dictionary d) =
     (let copy = copy_dict_children [] d in if copy \<noteq> [] then Some (Dictionary copy) else None)"
| "CopyWithoutEmptyChildren v = Some (DeepCopy v)"
| "copy_list_children copy [] = copy"
| "copy_list_children copy (x # xs) =
     copy_list_children (List_Append copy (CopyWithoutEmptyChildren x)) xs"
| "copy_dict_children copy [] = copy"
| "copy_dict_children copy ((key, child) # d) =
     copy_dict_children (SetWithoutPathExpansion copy key (CopyWithoutEmptyChildren child)) d"

definition DeepCopyWithoutEmptyChildren :: "dict \<Rightarrow> dict" where
  "DeepCopyWithoutEmptyChildren d =
     (case CopyWithoutEmptyChildren (Dictionary d) of Some (Dictionary c) \<Rightarrow> c | _ \<Rightarrow> [])"

section \<open>Choice of the serializer\<close>

datatype SerializerImplType = IMPL_JSON | IMPL_XML | IMPL_HTTP | IMPL_JSONP

text \<open>The engine class that \<open>ValueSerializer::Create\<close> instantiates, or NULL.\<close>

definition ValueSerializer_Create :: "32 word \<Rightarrow> SerializerImplType option" where
  "ValueSerializer_Create type =
     (if type = 0 then Some IMPL_JSON
      else if type = 1 then Some IMPL_XML
      else if type = 2 then Some IMPL_HTTP
      else if type = 3 then Some IMPL_JSONP
      else None)"

section \<open>Paths as lists of keys\<close>

text \<open>
  The abstract view of a tree: a dotted path is the list of its components, and a value is
  read as the partial function from component lists to the value found there.
\<close>

fun path_keys :: "wstring \<Rightarrow> wstring list" where
  "path_keys [] = [[]]"
| "path_keys (c # s) =
     (if c = wc CHR ''.'' then [] # path_keys s
      else (c # hd (path_keys s)) # tl (path_keys s))"

fun lookup :: "Value \<Rightarrow> wstring list \<Rightarrow> Value option" where
  "lookup v [] = Some v"
| "lookup v (k # ks) =
     (case v of
        Dictionary d \<Rightarrow> (case map_find k d of None \<Rightarrow> None | Some c \<Rightarrow> lookup c ks)
      | _ \<Rightarrow> None)"

fun update :: "dict \<Rightarrow> wstring list \<Rightarrow> Value \<Rightarrow> dict" where
  "update d [] v = d"
| "update d [k] v = assign k v d"
| "update d (k # ks) v =
     assign k (Dictionary (update (case map_find k d of Some (Dictionary c) \<Rightarrow> c | _ \<Rightarrow> []) ks v)) d"

lemma lookup_leaf [simp]:
  assumes "ks \<noteq> []"
  shows "lookup Null ks = None"
    and "lookup (Boolean b) ks = None"
    and "lookup (CharInteger c) ks = None"
    and "lookup (ShortInteger h) ks = None"
    and "lookup (Integer i) ks = None"
    and "lookup (BigInteger l) ks = None"
    and "lookup (Real r) ks = None"
    and "lookup (String t) ks = None"
    and "lookup (Binary y) ks = None"
    and "lookup (List xs) ks = None"
  using assms by (cases ks; simp)+

lemma update_Cons:
  "update d (k # ks) v = (if ks = [] then assign k v d else
     assign k (Dictionary (update (case map_find k d of Some (Dictionary c) \<Rightarrow> c | _ \<Rightarrow> []) ks v)) d)"
  by (cases ks) auto

lemma path_keys_not_Nil [simp]: "path_keys s \<noteq> []"
  by (cases s) auto

lemma path_keys_find:
  "path_keys s =
     (case string_find (wc CHR ''.'') s of
        None \<Rightarrow> [s] | Some p \<Rightarrow> take p s # path_keys (drop (p + 1) s))"
  by (induction s) (auto split: option.splits)

lemma string_find_take: "string_find c s = Some p \<Longrightarrow> string_find c (take p s) = None"
  by (induction s arbitrary: p) (auto split: if_splits)

lemma path_keys_rfind:
  "path_keys s =
     (case string_rfind (wc CHR ''.'') s of
        None \<Rightarrow> [s] | Some p \<Rightarrow> path_keys (take p s) @ [drop (p + 1) s])"
  by (induction s) (auto split: option.splits)

lemma Dict_GetDictionary_key:
  "string_find (wc CHR ''.'') k = None \<Longrightarrow>
   Dict_GetDictionary d k = (case map_find k d of Some (Dictionary c) \<Rightarrow> Some c | _ \<Rightarrow> None)"
  by (simp add: Dict_GetDictionary.simps Dict_Get.simps GetWithoutPathExpansion_def
      split: option.splits Value.splits)

lemma Dict_Get_lookup: "Dict_Get d path = lookup (Dictionary d) (path_keys path)"
proof (induction "length path" arbitrary: d path rule: less_induct)
  case less
  show ?case
  proof (cases "string_find (wc CHR ''.'') path")
    case None
    then show ?thesis
      by (simp add: Dict_Get.simps path_keys_find [of path] GetWithoutPathExpansion_def split: option.splits)
  next
    case (Some p)
    have "Dict_Get c (drop (Suc p) path) = lookup (Dictionary c) (path_keys (drop (Suc p) path))" for c
      using string_find_less [OF Some] by (intro less) simp
    then show ?thesis
      using Some path_keys_not_Nil [of "drop (Suc p) path"]
      by (subst Dict_Get.simps, subst path_keys_find)
        (auto simp: Dict_GetDictionary_key [OF string_find_take [OF Some]] neq_Nil_conv
          split: option.splits Value.splits)
  qed
qed

lemma Dict_Set_loop_update: "Dict_Set_loop d path v = update d (path_keys path) v"
proof (induction "length path" arbitrary: d path rule: less_induct)
  case less
  show ?case
  proof (cases "string_find (wc CHR ''.'') path")
    case None
    then show ?thesis
      by (simp add: Dict_Set_loop.simps path_keys_find [of path] SetWithoutPathExpansion_def)
  next
    case (Some p)
    have "Dict_Set_loop c (drop (Suc p) path) v = update c (path_keys (drop (Suc p) path)) v" for c
      using string_find_less [OF Some] by (intro less) simp
    then show ?thesis
      using Some path_keys_not_Nil [of "drop (Suc p) path"]
      by (subst Dict_Set_loop.simps, subst path_keys_find)
        (auto simp: Dict_GetDictionary_key [OF string_find_take [OF Some]] neq_Nil_conv
          SetWithoutPathExpansion_def Let_def update_Cons split: option.splits Value.splits)
  qed
qed

lemma Dict_GetDictionary_lookup:
  "Dict_GetDictionary d path = Option.bind (lookup (Dictionary d) (path_keys path)) AsDictionary"
  by (simp add: Dict_GetDictionary.simps Dict_Get_lookup AsDictionary_def split: option.splits Value.splits)

lemma lookup_append: "lookup v (ks @ ls) = Option.bind (lookup v ks) (\<lambda>w. lookup w ls)"
  by (induction v ks rule: lookup.induct) (auto split: option.splits Value.splits)

lemma lookup_update_same: "ks \<noteq> [] \<Longrightarrow> lookup (Dictionary (update d ks v)) ks = Some v"
  by (induction d ks v rule: update.induct) (auto simp: map_find_assign)

lemma lookup_empty [simp]: "ks \<noteq> [] \<Longrightarrow> lookup (Dictionary []) ks = None"
  by (cases ks) auto

lemma lookup_update_parallel:
  "ks \<parallel> ls \<Longrightarrow> lookup (Dictionary (update d ks v)) ls = lookup (Dictionary d) ls"
proof (induction ks arbitrary: d ls)
  case (Cons k ks)
  then obtain l ls' where ls: "ls = l # ls'" by (cases ls) auto
  show ?case
  proof (cases "l = k")
    case True
    with Cons.prems ls have "ks \<parallel> ls'" by (simp add: parallel_def)
    then have "ks \<noteq> []" "ls' \<noteq> []" by auto
    with Cons.IH [OF \<open>ks \<parallel> ls'\<close>] ls True show ?thesis
      by (auto simp: update_Cons map_find_assign split: option.splits Value.splits)
  next
    case False
    with ls show ?thesis by (simp add: update_Cons map_find_assign)
  qed
qed simp

section \<open>Well-formed values\<close>

text \<open>Every map of the tree is sorted.\<close>

fun value_wf :: "Value \<Rightarrow> bool" where
  "value_wf (Dictionary d) \<longleftrightarrow> map_ok wstring_less d \<and> list_all (\<lambda>e. value_wf (snd e)) d"
| "value_wf (List xs) \<longleftrightarrow> list_all value_wf xs"
| "value_wf _ \<longleftrightarrow> True"

abbreviation dict_wf :: "dict \<Rightarrow> bool" where
  "dict_wf d \<equiv> value_wf (Dictionary d)"

lemma dict_wf_Nil: "dict_wf []"
  by simp

lemma dict_wf_assign: "dict_wf d \<Longrightarrow> value_wf v \<Longrightarrow> dict_wf (assign k v d)"
  using set_map_assign [of wstring_less k v d] by (auto simp: list_all_iff wkey.map_ok_assign)

lemma dict_wf_erase: "dict_wf d \<Longrightarrow> dict_wf (map_erase k d)"
  using set_map_erase [of k d] by (auto simp: list_all_iff wkey.map_ok_erase)

lemma dict_wf_find: "dict_wf d \<Longrightarrow> map_find k d = Some v \<Longrightarrow> value_wf v"
  by (auto simp: list_all_iff dest!: map_find_in_set)

lemma lookup_wf: "value_wf v \<Longrightarrow> lookup v ks = Some w \<Longrightarrow> value_wf w"
proof (induction v ks rule: lookup.induct)
  case (2 v k ks)
  then show ?case
    using dict_wf_find [of _ k] by (auto split: Value.splits option.splits)
qed simp

lemma update_wf: "dict_wf d \<Longrightarrow> value_wf v \<Longrightarrow> dict_wf (update d ks v)"
proof (induction d ks v rule: update.induct)
  case (3 d k l ks v)
  define c where "c = (case map_find k d of Some (Dictionary c) \<Rightarrow> c | _ \<Rightarrow> [])"
  have "dict_wf c"
    using dict_wf_find [OF 3(2), of k] dict_wf_Nil
    by (simp add: c_def del: value_wf.simps(1) split: option.splits Value.splits)
  then show ?case
    using 3(1) 3(2,3) by (simp del: value_wf.simps add: dict_wf_assign c_def [symmetric])
qed (simp_all add: dict_wf_assign del: value_wf.simps)

lemma Dict_Set_wf: "dict_wf d \<Longrightarrow> value_wf v \<Longrightarrow> dict_wf (Dict_Set d path (Some v))"
  unfolding Dict_Set_def option.case Dict_Set_loop_update by (rule update_wf)

lemma AsDictionary_Some [simp]: "AsDictionary v = Some c \<longleftrightarrow> v = Dictionary c"
  by (auto simp: AsDictionary_def split: Value.splits)

lemma AsDictionary_Dictionary [simp]: "AsDictionary (Dictionary d) = Some d"
  by simp

lemma lookup_snoc:
  "lookup v (ks @ [k]) = Option.bind (Option.bind (lookup v ks) AsDictionary) (map_find k)"
  by (cases "lookup v ks") (auto simp: lookup_append AsDictionary_def split: Value.splits option.splits)

text \<open>\<open>Remove\<close> through the components: the parent dictionary loses the last key.\<close>

definition removed :: "dict \<Rightarrow> wstring list \<Rightarrow> wstring \<Rightarrow> dict \<Rightarrow> dict" where
  "removed d ks k c = (if ks = [] then map_erase k d else update d ks (Dictionary (map_erase k c)))"

lemma Dict_Remove_keys:
  obtains ks k where "path_keys path = ks @ [k]"
    and "Dict_Remove d path =
      (case Option.bind (lookup (Dictionary d) ks) AsDictionary of
         None \<Rightarrow> None
       | Some c \<Rightarrow> map_option (\<lambda>v. (v, removed d ks k c)) (map_find k c))"
proof (cases "string_rfind (wc CHR ''.'') path")
  case None
  then show ?thesis
    by (intro that [of "[]" path])
      (auto simp: Dict_Remove_def path_keys_rfind [of path] RemoveWithoutPathExpansion_def removed_def
        AsDictionary_def split: option.splits)
next
  case (Some p)
  then show ?thesis
    by (intro that [of "path_keys (take p path)" "drop (p + 1) path"])
      (simp_all add: Dict_Remove_def path_keys_rfind [of path] RemoveWithoutPathExpansion_def removed_def
        Dict_GetDictionary_lookup Dict_Set_loop_update split: option.splits)
qed

lemma Dict_Remove_Some:
  assumes "Dict_Remove d path = Some (v, d')"
  obtains ks k c where "path_keys path = ks @ [k]" "lookup (Dictionary d) ks = Some (Dictionary c)"
    "map_find k c = Some v" "d' = removed d ks k c"
proof -
  obtain ks k where "path_keys path = ks @ [k]"
    and r: "Dict_Remove d path =
      (case Option.bind (lookup (Dictionary d) ks) AsDictionary of
         None \<Rightarrow> None
       | Some c \<Rightarrow> map_option (\<lambda>v. (v, removed d ks k c)) (map_find k c))"
    by (rule Dict_Remove_keys)
  with assms show ?thesis
    by (auto split: option.splits simp: bind_eq_Some_conv intro: that)
qed

lemma Dict_Remove_result:
  "map_option fst (Dict_Remove d path) = Dict_Get d path"
proof -
  obtain ks k where "path_keys path = ks @ [k]"
    and "Dict_Remove d path =
      (case Option.bind (lookup (Dictionary d) ks) AsDictionary of
         None \<Rightarrow> None
       | Some c \<Rightarrow> map_option (\<lambda>v. (v, removed d ks k c)) (map_find k c))"
    by (rule Dict_Remove_keys)
  then show ?thesis
    by (simp add: Dict_Get_lookup lookup_snoc option.map_comp comp_def option.map_ident
        del: Option.bind_assoc split: option.split)
qed

lemma removed_wf:
  assumes "dict_wf d" "lookup (Dictionary d) ks = Some (Dictionary c)"
  shows "dict_wf (removed d ks k c)"
proof -
  have "dict_wf c" using lookup_wf [OF assms] .
  then show ?thesis
    using assms(1) by (simp del: value_wf.simps add: removed_def dict_wf_erase update_wf)
qed

lemma lookup_removed_same:
  assumes "dict_wf d" "lookup (Dictionary d) ks = Some (Dictionary c)"
  shows "lookup (Dictionary (removed d ks k c)) (ks @ [k]) = None"
proof -
  have "map_ok wstring_less c" "map_ok wstring_less d"
    using lookup_wf [OF assms] assms(1) by auto
  then show ?thesis
    using lookup_update_same [of ks d "Dictionary (map_erase k c)"]
    by (auto simp: removed_def lookup_snoc wkey.map_find_erase AsDictionary_def)
qed

lemma lookup_removed_other:
  assumes "dict_wf d" "lookup (Dictionary d) ks = Some (Dictionary c)" "(ks @ [k]) \<parallel> ls"
  shows "lookup (Dictionary (removed d ks k c)) ls = lookup (Dictionary d) ls"
proof (cases "ks \<parallel> ls")
  case True
  then show ?thesis by (auto simp: removed_def lookup_update_parallel)
next
  case False
  have ok: "map_ok wstring_less c" "map_ok wstring_less d"
    using lookup_wf [OF assms(1,2)] assms(1) by auto
  from False assms(3) have "prefix ks ls" "\<not> prefix ls ks"
    by (auto simp: parallel_def)
  then obtain l rest where ls: "ls = ks @ l # rest"
    by (metis neq_Nil_conv prefixE self_append_conv prefix_order.refl)
  with assms(3) have "l \<noteq> k" by (auto simp: parallel_def)
  have "lookup (Dictionary (removed d ks k c)) ks = Some (Dictionary (map_erase k c))"
    using assms(2) lookup_update_same [of ks d "Dictionary (map_erase k c)"]
    by (auto simp: removed_def)
  with ok \<open>l \<noteq> k\<close> show ?thesis
    by (simp add: ls lookup_append assms(2) wkey.map_find_erase)
qed

section \<open>Merging\<close>

text \<open>The value that a key of the merged-in dictionary gets.\<close>

definition merge_entry :: "Value option \<Rightarrow> Value \<Rightarrow> Value" where
  "merge_entry old merge_value =
     (case merge_value of
        Dictionary sub \<Rightarrow>
          (case Option.bind old AsDictionary of
             Some s \<Rightarrow> Dictionary (MergeDictionary s sub) | None \<Rightarrow> Dictionary [])
      | _ \<Rightarrow> DeepCopy merge_value)"

lemma MergeDictionary_step:
  "(case mv of
      Dictionary sub \<Rightarrow>
        (case GetDictionaryWithoutPathExpansion d k of
           Some sub_dict \<Rightarrow> assign k (Dictionary (MergeDictionary sub_dict sub)) d
         | None \<Rightarrow> SetWithoutPathExpansion d k (Some (DeepCopy mv)))
    | _ \<Rightarrow> SetWithoutPathExpansion d k (Some (DeepCopy mv))) =
   assign k (merge_entry (map_find k d) mv) d"
  by (cases mv; cases "Option.bind (map_find k d) AsDictionary")
    (simp_all add: merge_entry_def GetDictionaryWithoutPathExpansion_def GetWithoutPathExpansion_def
      SetWithoutPathExpansion_def)

lemmas MergeDictionary_Cons = MergeDictionary.simps(2) [unfolded MergeDictionary_step]

lemma MergeDictionary_find:
  "map_ok wstring_less m \<Longrightarrow>
   map_find k (MergeDictionary d m) =
     (case map_find k m of None \<Rightarrow> map_find k d | Some mv \<Rightarrow> Some (merge_entry (map_find k d) mv))"
proof (induction m arbitrary: d)
  case (Cons e m)
  obtain k' mv where e: "e = (k', mv)" by (cases e)
  with Cons.prems have "map_find k' m = None"
    using wstring_less_irrefl by (intro map_find_None) auto
  with Cons e show ?case
    by (auto simp del: MergeDictionary.simps simp add: MergeDictionary_Cons map_find_assign split: option.split)
qed simp

lemma DeepCopy_wf: "value_wf v \<Longrightarrow> value_wf (DeepCopy v)"
  by (induction v rule: DeepCopy.induct) (auto simp: list_all_iff)

lemma merge_wf:
  "dict_wf d \<Longrightarrow> dict_wf m \<Longrightarrow> dict_wf (MergeDictionary d m)"
proof (induction d m rule: MergeDictionary.induct)
  case (2 d k mv rest)
  have mv: "value_wf mv" and rest: "dict_wf rest"
    using 2(4) by auto
  have "value_wf (merge_entry (map_find k d) mv)"
  proof (cases mv)
    case (Dictionary sub)
    have "dict_wf (MergeDictionary s sub)" if "map_find k d = Some (Dictionary s)" for s
      using 2(1) [OF Dictionary, of s] that mv Dictionary dict_wf_find [OF 2(3) that]
      by (simp add: GetDictionaryWithoutPathExpansion_def GetWithoutPathExpansion_def)
    then show ?thesis
      by (cases "Option.bind (map_find k d) AsDictionary")
        (auto simp: merge_entry_def Dictionary bind_eq_Some_conv simp del: value_wf.simps(1) intro: dict_wf_Nil)
  qed (use mv DeepCopy_wf in \<open>auto simp: merge_entry_def list_all_iff\<close>)
  then have "dict_wf (assign k (merge_entry (map_find k d) mv) d)"
    using 2(3) dict_wf_assign by blast
  then show ?case
    using 2(2) rest unfolding MergeDictionary_step MergeDictionary_Cons by blast
qed simp

section \<open>Copying and comparing\<close>

lemma list_all_snd: "list_all (\<lambda>e. P (snd e)) d \<longleftrightarrow> (\<forall>k x. (k, x) \<in> set d \<longrightarrow> P x)"
  by (force simp: list_all_iff)

text \<open>No dictionary with entries is reached through the lists of the value.\<close>

fun copyable :: "Value \<Rightarrow> bool" where
  "copyable (Dictionary d) \<longleftrightarrow> d = []"
| "copyable (List xs) \<longleftrightarrow> list_all copyable xs"
| "copyable _ \<longleftrightarrow> True"

lemma map_id_iff: "map f xs = xs \<longleftrightarrow> (\<forall>x\<in>set xs. f x = x)"
  by (induction xs) auto

lemma DeepCopy_id: "DeepCopy v = v \<longleftrightarrow> copyable v"
proof (induction v rule: DeepCopy.induct)
  case (2 xs)
  then show ?case by (simp add: list_all_iff map_id_iff)
qed auto

lemma copyable_DeepCopy: "copyable (DeepCopy v)"
  by (induction v rule: DeepCopy.induct) (auto simp: list_all_iff)

text \<open>No NaN is reached through the lists of the value.\<close>

fun nan_free :: "Value \<Rightarrow> bool" where
  "nan_free (Real r) \<longleftrightarrow> \<not> is_nan r"
| "nan_free (List xs) \<longleftrightarrow> list_all nan_free xs"
| "nan_free _ \<longleftrightarrow> True"

lemma Equals_refl: "Equals v v \<longleftrightarrow> nan_free v"
  by (induction v rule: nan_free.induct) (auto simp: dbl_eq_refl list_all_iff list_all2_same)

lemma Equals_sym: "Equals a b \<Longrightarrow> Equals b a"
proof (induction a arbitrary: b)
  case (List xs)
  then obtain ys where b: "b = List ys" and l: "list_all2 Equals xs ys"
    by (auto split: Value.splits)
  have "list_all2 Equals ys xs"
    using l by (simp add: list_all2_conv_all_nth) (metis List.IH nth_mem)
  then show ?case by (simp add: b)
qed (auto simp: dbl_eq_sym split: Value.splits elim: GetType.elims)

text \<open>Values on which \<open>Equals\<close> is equality: no doubles and no dictionaries.\<close>

fun plain :: "Value \<Rightarrow> bool" where
  "plain (Dictionary _) \<longleftrightarrow> False"
| "plain (Real _) \<longleftrightarrow> False"
| "plain (List xs) \<longleftrightarrow> list_all plain xs"
| "plain _ \<longleftrightarrow> True"

lemma Equals_plain: "plain a \<Longrightarrow> Equals a b \<longleftrightarrow> a = b"
proof (induction a arbitrary: b)
  case (List xs)
  have "list_all2 Equals xs ys \<longleftrightarrow> xs = ys" for ys
    using List by (auto simp: list_all2_conv_all_nth list_eq_iff_nth_eq list_all_length)
  then show ?case by (auto split: Value.splits)
qed (auto split: Value.splits elim: GetType.elims)

section \<open>Copying without empty children\<close>

definition prune_list :: "Value list \<Rightarrow> Value list" where
  "prune_list xs = concat (map (\<lambda>x. case CopyWithoutEmptyChildren x of None \<Rightarrow> [] | Some y \<Rightarrow> [y]) xs)"

definition prune_dict :: "dict \<Rightarrow> dict" where
  "prune_dict d =
     concat (map (\<lambda>e. case CopyWithoutEmptyChildren (snd e) of None \<Rightarrow> [] | Some y \<Rightarrow> [(fst e, y)]) d)"

lemma prune_simps [simp]:
  "prune_list [] = []"
  "prune_list (x # xs) = (case CopyWithoutEmptyChildren x of None \<Rightarrow> [] | Some y \<Rightarrow> [y]) @ prune_list xs"
  "prune_dict [] = []"
  "prune_dict ((k, x) # d) =
     (case CopyWithoutEmptyChildren x of None \<Rightarrow> [] | Some y \<Rightarrow> [(k, y)]) @ prune_dict d"
  by (simp_all add: prune_list_def prune_dict_def split: option.split)

lemma copy_list_children_prune: "copy_list_children copy xs = copy @ prune_list xs"
  by (induction xs arbitrary: copy) (auto simp: List_Append_def split: option.split)

lemma copy_dict_children_prune:
  "map_ok wstring_less (copy @ d) \<Longrightarrow> copy_dict_children copy d = copy @ prune_dict d"
proof (induction d arbitrary: copy)
  case (Cons e d)
  obtain k x where e: "e = (k, x)" by (cases e)
  show ?case
  proof (cases "CopyWithoutEmptyChildren x")
    case None
    have "map_ok wstring_less (copy @ d)"
      using Cons.prems by (auto simp: map_ok_def sorted_wrt_append)
    with Cons.IH None e show ?thesis by (simp add: SetWithoutPathExpansion_def)
  next
    case (Some y)
    have "assign k y copy = copy @ [(k, y)]"
      using Cons.prems e by (intro wkey.map_assign_last) (auto simp: map_ok_def sorted_wrt_append)
    moreover have "map_ok wstring_less ((copy @ [(k, y)]) @ d)"
      using Cons.prems e by (simp add: map_ok_def)
    ultimately show ?thesis
      using Cons.IH [of "copy @ [(k, y)]"] Some e by (simp add: SetWithoutPathExpansion_def)
  qed
qed simp

lemma CopyWithoutEmptyChildren_prune:
  "CopyWithoutEmptyChildren (List xs) = (if prune_list xs = [] then None else Some (List (prune_list xs)))"
  "map_ok wstring_less d \<Longrightarrow>
   CopyWithoutEmptyChildren (Dictionary d) = (if prune_dict d = [] then None else Some (Dictionary (prune_dict d)))"
  using copy_list_children_prune [of "[]" xs] copy_dict_children_prune [of "[]" d] by (simp_all add: Let_def)

lemma set_prune_dict:
  "(k, y) \<in> set (prune_dict d) \<Longrightarrow> \<exists>x. (k, x) \<in> set d \<and> CopyWithoutEmptyChildren x = Some y"
  by (auto simp: prune_dict_def split: option.splits)

lemma map_ok_prune: "map_ok wstring_less d \<Longrightarrow> map_ok wstring_less (prune_dict d)"
proof (induction d)
  case (Cons e d)
  then show ?case
    by (cases e) (fastforce dest: set_prune_dict split: option.split)
qed simp

lemma map_find_prune:
  "map_ok wstring_less d \<Longrightarrow>
   map_find k (prune_dict d) = Option.bind (map_find k d) CopyWithoutEmptyChildren"
proof (induction d)
  case (Cons e d)
  obtain k' x where e: "e = (k', x)" by (cases e)
  with Cons.prems have "map_find k' (prune_dict d) = None"
    using wstring_less_irrefl by (intro map_find_None) (auto dest!: set_prune_dict)
  with Cons e show ?case by (auto split: option.split)
qed simp

text \<open>Lists and dictionaries all have content, down to the leaves.\<close>

fun no_empty :: "Value \<Rightarrow> bool" where
  "no_empty (Dictionary d) \<longleftrightarrow> d \<noteq> [] \<and> list_all (\<lambda>e. no_empty (snd e)) d"
| "no_empty (List xs) \<longleftrightarrow> xs \<noteq> [] \<and> list_all no_empty xs"
| "no_empty _ \<longleftrightarrow> True"

text \<open>Nothing but empty lists and dictionaries.\<close>

fun hollow :: "Value \<Rightarrow> bool" where
  "hollow (Dictionary d) \<longleftrightarrow> list_all (\<lambda>e. hollow (snd e)) d"
| "hollow (List xs) \<longleftrightarrow> list_all hollow xs"
| "hollow _ \<longleftrightarrow> False"

lemma prune_list_Nil: "prune_list xs = [] \<longleftrightarrow> (\<forall>x\<in>set xs. CopyWithoutEmptyChildren x = None)"
  by (auto simp: prune_list_def split: option.splits)

lemma prune_dict_Nil: "prune_dict d = [] \<longleftrightarrow> (\<forall>e\<in>set d. CopyWithoutEmptyChildren (snd e) = None)"
  by (auto simp: prune_dict_def split: option.splits)

lemma Copy_None: "value_wf v \<Longrightarrow> CopyWithoutEmptyChildren v = None \<longleftrightarrow> hollow v"
  by (induction v rule: hollow.induct)
    (auto simp: CopyWithoutEmptyChildren_prune prune_list_Nil prune_dict_Nil list_all_iff
      simp del: CopyWithoutEmptyChildren.simps(1,2))

lemma Copy_no_empty: "value_wf v \<Longrightarrow> CopyWithoutEmptyChildren v = Some c \<Longrightarrow> no_empty c"
proof (induction v arbitrary: c)
  case (List xs)
  then have "no_empty y" if "y \<in> set (prune_list xs)" for y
    using that by (auto simp: prune_list_def list_all_iff split: option.splits)
  with List show ?case
    by (auto simp: CopyWithoutEmptyChildren_prune list_all_iff simp del: CopyWithoutEmptyChildren.simps
        split: if_splits)
next
  case (Dictionary d)
  then have "no_empty (snd y)" if "y \<in> set (prune_dict d)" for y
    using that by (fastforce simp: prune_dict_def list_all_iff split: option.splits)
  with Dictionary show ?case
    by (auto simp: CopyWithoutEmptyChildren_prune list_all_iff simp del: CopyWithoutEmptyChildren.simps
        split: if_splits)
qed auto

lemma Copy_id: "value_wf v \<Longrightarrow> no_empty v \<Longrightarrow> CopyWithoutEmptyChildren v = Some v"
proof (induction v)
  case (List xs)
  then have "\<forall>x\<in>set xs. CopyWithoutEmptyChildren x = Some x"
    by (auto simp: list_all_iff)
  then have "prune_list xs = xs"
    by (induction xs) auto
  with List show ?case
    by (simp add: CopyWithoutEmptyChildren_prune del: CopyWithoutEmptyChildren.simps)
next
  case (Dictionary d)
  then have "\<forall>e\<in>set d. CopyWithoutEmptyChildren (snd e) = Some (snd e)"
    by (auto simp: list_all_snd)
  then have "prune_dict d = d"
    by (induction d) auto
  with Dictionary show ?case
    by (simp add: CopyWithoutEmptyChildren_prune del: CopyWithoutEmptyChildren.simps)
qed auto

lemma hollow_lookup: "hollow v \<Longrightarrow> lookup v ks = Some w \<Longrightarrow> hollow w"
proof (induction v ks rule: lookup.induct)
  case (2 v k ks)
  then show ?case
    by (auto simp: list_all_snd split: Value.splits option.splits) (metis map_find_in_set)
qed simp

text \<open>A leaf keeps its place.\<close>

lemma Copy_lookup:
  assumes "value_wf v" and "CopyWithoutEmptyChildren v = Some c"
    and "lookup v ks = Some w" and "CopyWithoutEmptyChildren w = Some w'"
  shows "lookup c ks = Some w'"
  using assms
proof (induction v ks arbitrary: c rule: lookup.induct)
  case (2 v k ks)
  then obtain d x where v: "v = Dictionary d" "map_find k d = Some x" "lookup x ks = Some w"
    by (auto split: Value.splits option.splits)
  have x: "value_wf x" using 2(2) v dict_wf_find by blast
  have d: "map_ok wstring_less d" using 2(2) v by simp
  have c: "c = Dictionary (prune_dict d)"
    using 2(3) d unfolding v(1) by (auto simp: CopyWithoutEmptyChildren_prune simp del: CopyWithoutEmptyChildren.simps split: if_splits)
  have w: "value_wf w" using lookup_wf [OF x v(3)] .
  have "CopyWithoutEmptyChildren x \<noteq> None"
    using hollow_lookup [OF _ v(3)] 2(5) Copy_None [OF x] Copy_None [OF w] by auto
  then show ?case
    using 2(1) [OF v(1,2) x _ v(3) 2(5)] c v d by (auto simp: map_find_prune)
qed simp

section \<open>Lists\<close>

lemma List_pad_replicate: "List_pad xs n = xs @ replicate (n - length xs) Null"
proof (induction xs n rule: List_pad.induct)
  case (1 xs n)
  show ?case
  proof (cases "n > length xs")
    case True
    then have "replicate (n - length xs) Null = Null # replicate (n - Suc (length xs)) Null"
      by (metis Suc_diff_Suc replicate_Suc)
    with True 1 show ?thesis
      by (subst List_pad.simps) (simp add: List_Append_def)
  qed (simp add: List_pad.simps)
qed

lemma List_Set_eq:
  "List_Set xs i (Some v) = (True, (xs @ replicate (Suc i - length xs) Null)[i := v])"
proof (cases "i < length xs")
  case False
  then have "replicate (Suc i - length xs) Null = replicate (i - length xs) Null @ [Null]"
    by (simp add: Suc_diff_le replicate_append_same)
  with False show ?thesis
    by (simp add: List_Set_def List_pad_replicate List_Append_def list_update_append)
qed (simp add: List_Set_def list_update_append)

lemma List_Get_Set:
  "List_Get (snd (List_Set xs i (Some v))) j =
     (if j = i then Some v else if j < length xs then Some (xs ! j)
      else if j < i then Some Null else None)"
  by (auto simp: List_Set_eq List_Get_def nth_list_update nth_append)

lemma List_Set_wf: "value_wf (List xs) \<Longrightarrow> value_wf v \<Longrightarrow> value_wf (List (snd (List_Set xs i (Some v))))"
  by (auto simp: List_Set_eq list_all_length nth_list_update nth_append)

lemma List_RemoveValue_spec:
  "List_RemoveValue xs v =
     (case string_find True (map (\<lambda>x. Equals x v) xs) of
        None \<Rightarrow> (- 1, xs)
      | Some i \<Rightarrow> (int i, take i xs @ drop (Suc i) xs))"
  by (induction xs) (auto split: option.splits)

section \<open>Typed access\<close>

text \<open>
  What the typed setters and getters have in common: a wrapper and a conversion that
  undoes it.
\<close>

locale typed_field =
  fixes mk :: "'a \<Rightarrow> Value" and conv :: "Value \<Rightarrow> 'a option" and ok :: "'a \<Rightarrow> bool"
  assumes conv_mk: "ok x \<Longrightarrow> conv (mk x) = Some x"
begin

lemma set_get: "ok x \<Longrightarrow> Option.bind (Dict_Get (Dict_Set d p (Some (mk x))) p) conv = Some x"
  by (simp add: Dict_Set_def Dict_Get_lookup Dict_Set_loop_update lookup_update_same conv_mk)

lemma set8_get:
  "ok x \<Longrightarrow> Option.bind (Dict_Get (Dict_Set8 d p (Some (mk x))) (UTF8ToWide p)) conv = Some x"
  by (simp add: Dict_Set8_def set_get)

lemma list_set_get: "ok x \<Longrightarrow> Option.bind (List_Get (snd (List_Set xs i (Some (mk x)))) i) conv = Some x"
  by (simp add: List_Get_Set conv_mk)

end

interpretation bool_field: typed_field Boolean GetAsBoolean "\<lambda>_. True"
  by unfold_locales (simp add: GetAsBoolean_def)

interpretation char_field: typed_field CharInteger GetAsCharInteger "\<lambda>_. True"
  by unfold_locales (simp add: GetAsCharInteger_def)

interpretation short_field: typed_field ShortInteger GetAsShortInteger "\<lambda>_. True"
  by unfold_locales (simp add: GetAsShortInteger_def)

interpretation int_field: typed_field Integer GetAsInteger "\<lambda>_. True"
  by unfold_locales (simp add: GetAsInteger_def)

interpretation big_field: typed_field BigInteger GetAsBigInteger "\<lambda>_. True"
  by unfold_locales (simp add: GetAsBigInteger_def)

interpretation real_field: typed_field Real GetAsReal "\<lambda>_. True"
  by unfold_locales (simp add: GetAsReal_def)

interpretation string_field: typed_field CreateStringValue GetAsString "\<lambda>_. True"
  by unfold_locales (simp add: GetAsString_def CreateStringValue_def)

interpretation wstring_field: typed_field CreateStringValueW GetAsStringW wide_ok
  by unfold_locales (simp add: GetAsStringW_def CreateStringValueW_def UTF8ToWide_WideToUTF8)

section \<open>Properties\<close>

lemma path_keys_append: "path_keys (p @ 46 # q) = path_keys p @ path_keys q"
  by (induction p) auto

lemma string_find_Some:
  "string_find c s = Some n \<Longrightarrow> n < length s \<and> s ! n = c \<and> (\<forall>m<n. s ! m \<noteq> c)"
proof (induction s arbitrary: n)
  case (Cons x s)
  then show ?case
    by (cases n) (auto simp: nth_Cons split: if_splits nat.splits)
qed simp

lemma string_find_None: "string_find c s = None \<longleftrightarrow> c \<notin> set s"
  by (induction s) auto

lemma List_RemoveValue_result:
  "case List_RemoveValue xs v of (r, ys) \<Rightarrow>
     if \<forall>x\<in>set xs. \<not> Equals x v then r = - 1 \<and> ys = xs
     else (\<exists>n. r = int n \<and> n < length xs \<and> Equals (xs ! n) v \<and> (\<forall>m<n. \<not> Equals (xs ! m) v) \<and>
           ys = take n xs @ drop (Suc n) xs)"
proof (cases "string_find True (map (\<lambda>x. Equals x v) xs)")
  case None
  then have "\<forall>x\<in>set xs. \<not> Equals x v"
    by (auto simp: string_find_None)
  with None show ?thesis by (simp add: List_RemoveValue_spec)
next
  case (Some n)
  have n: "n < length xs" "Equals (xs ! n) v" "\<forall>m<n. \<not> Equals (xs ! m) v"
    using string_find_Some [OF Some] by auto
  then have "\<not> (\<forall>x\<in>set xs. \<not> Equals x v)" by auto
  with n Some show ?thesis by (auto simp: List_RemoveValue_spec)
qed

lemma set_List_RemoveValue: "set (snd (List_RemoveValue xs v)) \<subseteq> set xs"
  by (auto simp: List_RemoveValue_spec split: option.splits dest: in_set_takeD in_set_dropD)

lemma Copy_wf: "value_wf v \<Longrightarrow> CopyWithoutEmptyChildren v = Some c \<Longrightarrow> value_wf c"
proof (induction v arbitrary: c)
  case (List xs)
  then have "value_wf y" if "y \<in> set (prune_list xs)" for y
    using that by (auto simp: prune_list_def list_all_iff split: option.splits)
  with List.prems show ?case
    by (auto simp: CopyWithoutEmptyChildren_prune list_all_iff simp del: CopyWithoutEmptyChildren.simps
        split: if_splits)
next
  case (Dictionary d)
  then have "value_wf y" if "(k, y) \<in> set (prune_dict d)" for k y
    using set_prune_dict [OF that] by (auto simp: list_all_snd)
  with Dictionary.prems show ?case
    by (auto simp: CopyWithoutEmptyChildren_prune list_all_snd map_ok_prune simp del: CopyWithoutEmptyChildren.simps
        split: if_splits)
qed auto

lemma DeepCopyWithoutEmptyChildren_wf: "dict_wf d \<Longrightarrow> dict_wf (DeepCopyWithoutEmptyChildren d)"
  using Copy_wf [of "Dictionary d"] dict_wf_Nil
  by (cases "CopyWithoutEmptyChildren (Dictionary d)")
    (auto simp add: DeepCopyWithoutEmptyChildren_def simp del: value_wf.simps(1) CopyWithoutEmptyChildren.simps
      split: Value.split)

lemma list_ops_wf:
  assumes "value_wf (List xs)" and "value_wf v"
  shows "value_wf (List (snd (List_Insert xs i (Some v))))"
    and "value_wf (List (snd (AppendIfNotPresent xs (Some v))))"
    and "value_wf (List (snd (List_RemoveValue xs v)))"
  using assms set_List_RemoveValue [of xs v]
  by (auto simp: List_Insert_def AppendIfNotPresent_def list_all_iff dest: in_set_takeD in_set_dropD)

lemma Dict_Remove_wf:
  assumes "dict_wf d" and "Dict_Remove d p = Some (w, d')"
  shows "value_wf w" and "dict_wf d'"
proof -
  obtain ks k c where "lookup (Dictionary d) ks = Some (Dictionary c)" "map_find k c = Some w"
    and "d' = removed d ks k c" using Dict_Remove_Some [OF assms(2)] .
  then show "value_wf w" and "dict_wf d'"
    using dict_wf_find lookup_wf [OF assms(1)] removed_wf [OF assms(1)] by blast+
qed

text \<open>
  (C4) \<open>Set\<close> stores at the path: \<open>Get\<close> of the same path returns the value, whatever the
  dictionary held before (intermediate values that are not dictionaries are replaced), a
  longer path reads inside the value, and every path that diverges from it reads what it
  read before.
\<close>

theorem dict_get_set:
  "Dict_Get (Dict_Set d p (Some v)) p = Some v \<and>
   Dict_Get (Dict_Set d p (Some v)) (p @ wc CHR ''.'' # q) = lookup v (path_keys q) \<and>
   (path_keys p \<parallel> path_keys r \<longrightarrow> Dict_Get (Dict_Set d p (Some v)) r = Dict_Get d r)"
  by (simp add: Dict_Set_def Dict_Get_lookup Dict_Set_loop_update lookup_update_same
      lookup_update_parallel path_keys_append lookup_append del: value_wf.simps)

theorem dict_get_set_witness:
  "Dict_Get (Dict_Set [(wstr ''a'', Integer 1)] (wstr ''a.b'') (Some (Boolean True))) (wstr ''a.b'')
     = Some (Boolean True) \<and>
   Dict_Get (Dict_Set [(wstr ''a'', Integer 1), (wstr ''c'', Integer 2)] (wstr ''a.b'') (Some (Boolean True)))
     (wstr ''c'') = Dict_Get [(wstr ''a'', Integer 1), (wstr ''c'', Integer 2)] (wstr ''c'')"
  using dict_get_set [of "[(wstr ''a'', Integer 1)]" "wstr ''a.b''" "Boolean True" "[]" "[]"]
    dict_get_set [of "[(wstr ''a'', Integer 1), (wstr ''c'', Integer 2)]" "wstr ''a.b''" "Boolean True" "[]" "wstr ''c''"]
  by (auto simp: parallel_def)

text \<open>
  (C20) \<open>Remove\<close> returns what \<open>Get\<close> finds, fails exactly when \<open>Get\<close> does, and then the path
  is gone while every diverging path reads what it read before.
\<close>

theorem dict_remove:
  assumes "value_wf (Dictionary d)"
  shows "case Dict_Remove d p of
      None \<Rightarrow> Dict_Get d p = None
    | Some (v, d') \<Rightarrow>
        Dict_Get d p = Some v \<and> Dict_Get d' p = None \<and>
        (path_keys p \<parallel> path_keys r \<longrightarrow> Dict_Get d' r = Dict_Get d r)"
proof (cases "Dict_Remove d p")
  case None
  then show ?thesis using Dict_Remove_result [of d p] by simp
next
  case (Some vd)
  obtain v d' where vd: "vd = (v, d')" by (cases vd)
  with Some have "Dict_Remove d p = Some (v, d')" by simp
  then obtain ks k c where "path_keys p = ks @ [k]" "lookup (Dictionary d) ks = Some (Dictionary c)"
    and "d' = removed d ks k c" by (rule Dict_Remove_Some)
  with assms have "Dict_Get d' p = None \<and> (path_keys p \<parallel> path_keys r \<longrightarrow> Dict_Get d' r = Dict_Get d r)"
    by (simp add: Dict_Get_lookup lookup_removed_same lookup_removed_other del: value_wf.simps)
  then show ?thesis
    using Some vd Dict_Remove_result [of d p] by simp
qed

theorem dict_remove_witness:
  "Dict_Get [] (wstr ''a'') = None \<and>
   Dict_Get [(wstr ''a'', Null)] (wstr ''a'') = Some Null"
  using dict_remove [of "[(wstr ''a'', Null)]" "wstr ''a''" "[]"] dict_remove [of "[]" "wstr ''a''" "[]"]
  by (simp add: Dict_Remove_def RemoveWithoutPathExpansion_def)



text \<open>
  (C22) \<open>MergeDictionary\<close> key by key: keys that the argument lacks are kept; two dictionaries
  under the same key are merged; any other value of the argument replaces the old one by
  its \<open>DeepCopy\<close>, so a dictionary merged over a value that is not one becomes empty.
\<close>

theorem merge_dictionary:
  assumes "value_wf (Dictionary m)"
  shows "map_find k (MergeDictionary d m) =
    (case map_find k m of
       None \<Rightarrow> map_find k d
     | Some (Dictionary sub) \<Rightarrow>
         Some (case map_find k d of
                 Some (Dictionary s) \<Rightarrow> Dictionary (MergeDictionary s sub)
               | _ \<Rightarrow> Dictionary [])
     | Some mv \<Rightarrow> Some (DeepCopy mv))"
  using assms
  by (simp add: MergeDictionary_find merge_entry_def AsDictionary_def split: option.split Value.split)

theorem merge_dictionary_witness:
  "map_find (wstr ''k'') (MergeDictionary [] [(wstr ''k'', Dictionary [(wstr ''x'', Null)])])
     = Some (Dictionary [])"
  using merge_dictionary [of "[(wstr ''k'', Dictionary [(wstr ''x'', Null)])]" "wstr ''k''" "[]"] by simp



text \<open>
  (C38) \<open>DeepCopy\<close> copies a value exactly when no dictionary with entries can be reached
  through its lists: the copy of a dictionary is empty.
\<close>

theorem deep_copy_exact: "DeepCopy v = v \<longleftrightarrow> copyable v"
  by (rule DeepCopy_id)

text \<open>
  (C39) \<open>Equals\<close> is symmetric, reflexive on values without NaN, and decides equality on values
  without doubles and dictionaries; any two dictionaries are equal to it.
\<close>

theorem equals_spec:
  "(Equals a b \<longleftrightarrow> Equals b a) \<and> (Equals a a \<longleftrightarrow> nan_free a) \<and>
   (plain a \<longrightarrow> (Equals a b \<longleftrightarrow> a = b)) \<and> Equals (Dictionary d) (Dictionary e)"
  using Equals_sym Equals_refl Equals_plain by auto

theorem equals_spec_witness:
  "Equals (List [Integer 1]) (List [Integer 1]) \<and> \<not> Equals (List [Integer 1]) (List [Integer 2])"
  using equals_spec [of "List [Integer 1]" "List [Integer 1]"] equals_spec [of "List [Integer 1]" "List [Integer 2]"]
  by simp

text \<open>
  (C37) \<open>CopyWithoutEmptyChildren\<close> of a well-formed tree gives NULL exactly for the trees made of
  empty containers only; the copy has no empty container, is the tree itself when that had
  none, and has every surviving node of the tree at its path.
\<close>

theorem copy_without_empty_children:
  assumes "value_wf v"
  shows "(CopyWithoutEmptyChildren v = None \<longleftrightarrow> hollow v) \<and>
    (no_empty v \<longrightarrow> CopyWithoutEmptyChildren v = Some v) \<and>
    (\<forall>c. CopyWithoutEmptyChildren v = Some c \<longrightarrow>
       no_empty c \<and>
       (\<forall>ks w. lookup v ks = Some w \<and> \<not> hollow w \<longrightarrow> lookup c ks = CopyWithoutEmptyChildren w))"
proof (intro conjI allI impI)
  fix c ks w
  assume c: "CopyWithoutEmptyChildren v = Some c" and w: "lookup v ks = Some w \<and> \<not> hollow w"
  then obtain w' where "CopyWithoutEmptyChildren w = Some w'"
    using Copy_None [OF lookup_wf [OF assms]] by fastforce
  with Copy_lookup [OF assms c] w show "lookup c ks = CopyWithoutEmptyChildren w" by simp
qed (use assms Copy_None Copy_id Copy_no_empty in blast)+

theorem copy_without_empty_children_witness:
  "CopyWithoutEmptyChildren (List [List [], Null]) = Some (List [Null]) \<and> no_empty (List [Null])"
  using copy_without_empty_children [of "List [List [], Null]"] by (simp add: List_Append_def)

text \<open>
  \<open>ListValue::Set\<close> writes the index and pads a short list with nulls up to it; all other
  elements stay, and there is nothing beyond.
\<close>

theorem list_get_set:
  "List_Get (snd (List_Set xs i (Some v))) j =
     (if j = i then Some v else if j < length xs then Some (xs ! j)
      else if j < i then Some Null else None)"
  by (rule List_Get_Set)

text \<open>
  (C40) \<open>Insert\<close> then \<open>Remove\<close> at the same index gives the list and the value back;
  \<open>Remove(value)\<close> deletes the first element equal to the value, and \<open>AppendIfNotPresent\<close> makes
  sure that such an element exists, adding one only when there was none.
\<close>

theorem list_insert_remove:
  assumes "i \<le> length xs" and "nan_free v"
  shows "List_Insert xs i (Some v) = (True, take i xs @ v # drop i xs) \<and>
    List_Remove (take i xs @ v # drop i xs) i = Some (v, xs) \<and>
    (case AppendIfNotPresent xs (Some v) of (added, ys) \<Rightarrow>
       (\<exists>x\<in>set ys. Equals x v) \<and> (added \<longleftrightarrow> (\<forall>x\<in>set xs. \<not> Equals x v)) \<and>
       ys = (if added then xs @ [v] else xs)) \<and>
    (case List_RemoveValue xs v of (r, ys) \<Rightarrow>
       if \<forall>x\<in>set xs. \<not> Equals x v then r = - 1 \<and> ys = xs
       else (\<exists>n. r = int n \<and> n < length xs \<and> Equals (xs ! n) v \<and> (\<forall>m<n. \<not> Equals (xs ! m) v) \<and>
             ys = take n xs @ drop (Suc n) xs))"
  using assms List_RemoveValue_result [of xs v] Equals_refl [of v]
  by (auto simp: List_Insert_def List_Remove_def AppendIfNotPresent_def list_ex_iff nth_append)

theorem list_insert_remove_witness:
  "List_Remove [Null, Boolean True, Null] 1 = Some (Boolean True, [Null, Null])"
  using list_insert_remove [of 1 "[Null, Null]" "Boolean True"] by simp

end
