(* ===== verification/Value_Serializer.thy ===== *)
theory Value_Serializer
  imports Values
begin

text \<open>
  \<^verbatim>\<open>base/logic/value_serializer.h\<close>: the error codes and the tokens that the readers share,
  and the contract of a serializer: what it writes, it reads back.
\<close>

datatype ParseError =
    NO_ERROR | BAD_ROOT_ELEENT_TYPE | INVALID_ESCAPE | SYNTAX_ERROR | TRAILING_COMMA
  | TOO_MUCH_NESTING | UNEXPECTED_DATA_AFTER_ROOT | UNSUPPORTED_ENCODING
  | UNQUOTED_DICTIONARY_KEY

datatype Token_Type =
    STRING | NUMBER | BOOL_TRUE | BOOL_FALSE | NULL_TOKEN | LIST_SEPARATOR
  | OBJECT_PAIR_SEPARATOR | OBJECT_BEGIN | OBJECT_END | ARRAY_BEGIN | ARRAY_END
  | END_OF_INPUT | INVALID_TOKEN

record Token =
  ttype :: Token_Type
  tbegin :: wstring
  tlength :: nat

definition mk_Token :: "Token_Type \<Rightarrow> wstring \<Rightarrow> nat \<Rightarrow> Token" where
  "mk_Token t b len = \<lparr>ttype = t, tbegin = b, tlength = len\<rparr>"

definition NextChar :: "Token \<Rightarrow> wchar" where
  "NextChar token = peek (drop (tlength token) (tbegin token))"

definition kInvalidToken :: Token where
  "kInvalidToken = mk_Token INVALID_TOKEN [] 0"

lemma mk_Token_sel [simp]:
  "ttype (mk_Token t b n) = t" "tbegin (mk_Token t b n) = b" "tlength (mk_Token t b n) = n"
  by (simp_all add: mk_Token_def)

lemma NextChar_bound: "NextChar t \<noteq> 0 \<Longrightarrow> tlength t < length (tbegin t)"
  by (simp add: NextChar_def drop_peek_nonzero)

text \<open>
  The interface of a serializer, as its users see it: \<open>ser\<close> writes a value, \<open>deser\<close> reads a
  text, and \<open>norm\<close> is what becomes of a value on the way (integer widths are forgotten).
\<close>

locale serializer =
  fixes ser :: "Value \<Rightarrow> cstring" and deser :: "cstring \<Rightarrow> Value option"
    and norm :: "Value \<Rightarrow> Value" and ok :: "Value \<Rightarrow> bool"
  assumes deser_ser: "ok v \<Longrightarrow> deser (ser v) = Some (norm v)"
    and norm_norm: "norm (norm v) = norm v"
    and ok_norm: "ok v \<Longrightarrow> ok (norm v)"
begin

lemma stable: "ok v \<Longrightarrow> deser (ser v) = Some w \<Longrightarrow> deser (ser w) = Some w"
  using deser_ser [of v] deser_ser [OF ok_norm, of v] norm_norm [of v] by simp

lemma ser_inj: "ok v \<Longrightarrow> ok w \<Longrightarrow> ser v = ser w \<Longrightarrow> norm v = norm w"
  using deser_ser by (metis option.inject)

end

end
