(* ===== verification/StringEscape.thy ===== *)
theory StringEscape
  imports Unicode
begin

text \<open>
  \<^verbatim>\<open>base/logic/string_escape.cc\<close>: the escaping of strings for the JSON, HTTP and XML
  serializers. The templates are used at \<open>std::string\<close>, with \<open>c\<close> the unsigned character;
  the destination string is passed and returned.
\<close>

section \<open>Operations\<close>

text \<open>The case of the quote appends the quote itself, without a backslash.\<close>

definition SingleEscapeChar :: "byte \<Rightarrow> cstring \<Rightarrow> bool \<times> cstring" where
  "SingleEscapeChar c dst =
     (if c = 8 then (True, dst @ str [CHR 92, CHR ''b''])
      else if c = 12 then (True, dst @ str [CHR 92, CHR ''f''])
      else if c = 10 then (True, dst @ str [CHR 92, CHR ''n''])
      else if c = 13 then (True, dst @ str [CHR 92, CHR ''r''])
      else if c = 9 then (True, dst @ str [CHR 92, CHR ''t''])
      else if c = 92 then (True, dst @ str [CHR 92, CHR 92])
      else if c = 34 then (True, dst @ str [CHR 34])
      else (False, dst))"

definition escape_char :: "cstring \<Rightarrow> byte \<Rightarrow> cstring" where
  "escape_char dst c =
     (case SingleEscapeChar c dst of
        (True, dst') \<Rightarrow> dst'
      | (False, dst') \<Rightarrow>
          (if c < 32 \<or> c > 126 \<or> c = bc CHR ''<'' \<or> c = bc CHR ''>''
           then (let as_uint = c in dst' @ [as_uint])
           else (let ascii = c in dst' @ [ascii])))"

definition HttpDoubleQuoteT :: "cstring \<Rightarrow> bool \<Rightarrow> cstring \<Rightarrow> cstring" where
  "HttpDoubleQuoteT s put_in_quotes dst = foldl escape_char dst s"

definition JsonDoubleQuoteT :: "cstring \<Rightarrow> bool \<Rightarrow> cstring \<Rightarrow> cstring" where
  "JsonDoubleQuoteT s put_in_quotes dst =
     (let dst1 = (if put_in_quotes then dst @ [34] else dst);
          dst2 = foldl escape_char dst1 s
      in if put_in_quotes then dst2 @ [34] else dst2)"

definition XMLDoubleQuoteT :: "cstring \<Rightarrow> bool \<Rightarrow> cstring \<Rightarrow> cstring" where
  "XMLDoubleQuoteT s put_in_quotes dst = foldl escape_char dst s"

definition JsonDoubleQuote :: "cstring \<Rightarrow> bool \<Rightarrow> cstring \<Rightarrow> cstring" where
  "JsonDoubleQuote s put_in_quotes dst = JsonDoubleQuoteT s put_in_quotes dst"

definition GetDoubleQuoteJson :: "cstring \<Rightarrow> cstring" where
  "GetDoubleQuoteJson s = JsonDoubleQuote s True []"

definition HttpDoubleQuote :: "cstring \<Rightarrow> bool \<Rightarrow> cstring \<Rightarrow> cstring" where
  "HttpDoubleQuote s put_in_quotes dst = HttpDoubleQuoteT s put_in_quotes dst"

definition GetDoubleQuoteHttp :: "cstring \<Rightarrow> cstring" where
  "GetDoubleQuoteHttp s = HttpDoubleQuote s True []"

definition XMLDoubleQuote :: "cstring \<Rightarrow> bool \<Rightarrow> cstring \<Rightarrow> cstring" where
  "XMLDoubleQuote s put_in_quotes dst = XMLDoubleQuoteT s put_in_quotes dst"

text \<open>\<open>GetDoubleQuoteXML\<close> never calls the conversion.\<close>

definition GetDoubleQuoteXML :: "cstring \<Rightarrow> cstring" where
  "GetDoubleQuoteXML s = []"

section \<open>What is appended\<close>

text \<open>The escaped form of one character, for bytes and for wide characters.\<close>

definition esc :: "'a::len word \<Rightarrow> 'a word list" where
  "esc c =
     (if c = 8 then [92, 98]
      else if c = 12 then [92, 102]
      else if c = 10 then [92, 110]
      else if c = 13 then [92, 114]
      else if c = 9 then [92, 116]
      else if c = 92 then [92, 92]
      else [c])"

abbreviation esc_text :: "'a::len word list \<Rightarrow> 'a word list" where
  "esc_text s \<equiv> concat (map esc s)"

lemma escape_char_esc: "escape_char dst c = dst @ esc c"
  by (simp add: escape_char_def SingleEscapeChar_def esc_def)

lemma foldl_escape: "foldl escape_char dst s = dst @ esc_text s"
  by (induction s arbitrary: dst) (simp_all add: escape_char_esc)

lemma JsonDoubleQuote_eq: "JsonDoubleQuote s True dst = dst @ [34] @ esc_text s @ [34]"
  by (simp add: JsonDoubleQuote_def JsonDoubleQuoteT_def foldl_escape)

text \<open>Escaping bytes of UTF-8 text is escaping the characters: the escaped ones are ASCII.\<close>

lemma esc_high_byte: "128 \<le> unat c \<Longrightarrow> esc (c :: byte) = [c]"
  by (auto simp: esc_def)

lemma esc_high_wide: "128 \<le> unat c \<Longrightarrow> esc (c :: wchar) = [c]"
  by (auto simp: esc_def)

lemma esc_ascii:
  fixes b :: byte
  assumes "unat b < 128"
  shows "list_all (\<lambda>x. unat x < 128) (esc b)" and "map ucast (esc b) = esc (ucast b :: wchar)"
proof -
  have "unat b < 128 \<longrightarrow> list_all (\<lambda>x. unat x < 128) (esc b) \<and> map ucast (esc b) = esc (ucast b :: wchar)"
    by (rule byte_cases_all) code_simp
  with assms show "list_all (\<lambda>x. unat x < 128) (esc b)" "map ucast (esc b) = esc (ucast b :: wchar)"
    by auto
qed

lemma esc_text_high_byte: "list_all (\<lambda>c. 128 \<le> unat c) s \<Longrightarrow> esc_text (s :: cstring) = s"
  by (induction s) (simp_all add: esc_high_byte)

lemma esc_text_high_wide: "list_all (\<lambda>c. 128 \<le> unat c) s \<Longrightarrow> esc_text (s :: wstring) = s"
  by (induction s) (simp_all add: esc_high_wide)

lemma utf8_enc_high:
  assumes "IsValidCodepoint c" and "128 \<le> unat c"
  shows "list_all (\<lambda>b. 128 \<le> unat b) (utf8_enc c)"
proof -
  have "list_all (\<lambda>n. 128 \<le> n) (map unat (utf8_enc c))"
  proof (cases "unat c < 2048")
    case True
    with utf8_enc_2 [of c] assms show ?thesis by (simp only: list.pred_inject) simp
  next
    case False
    with utf8_enc_3 [of c] utf8_enc_4 [of c] assms show ?thesis
      by (cases "unat c < 65536") (simp_all only: IsValidCodepoint_nat list.pred_inject, simp_all)
  qed
  then show ?thesis by (simp add: list_all_iff)
qed

lemma wide_enc_high:
  assumes "IsValidCodepoint c" and "128 \<le> unat c"
  shows "list_all (\<lambda>u. 128 \<le> unat u) (wide_enc c)"
proof (cases "unat c < 65536")
  case True
  then show ?thesis using assms by (simp add: wide_enc_1)
next
  case False
  then obtain l t where "wide_enc c = [l, t]" "unat l = unat c div 1024 + 55232" "unat t = unat c mod 1024 + 56320"
    using wide_enc_2 [of c] assms(1) by (auto simp: IsValidCodepoint_nat)
  then show ?thesis by simp
qed

lemma esc_UTF8ToWide:
  assumes "utf8_ok s"
  shows "utf8_ok (esc_text s) \<and> UTF8ToWide (esc_text s) = esc_text (UTF8ToWide s)"
proof -
  from assms obtain cs where s: "s = utf8_text cs" and "list_all IsValidCodepoint cs"
    by (auto simp: utf8_ok_text)
  from this(2) have "utf8_ok (esc_text (utf8_text cs)) \<and>
    UTF8ToWide (esc_text (utf8_text cs)) = esc_text (wide_text cs)"
  proof (induction cs)
    case Nil
    show ?case by (simp add: utf8_ok.simps UTF8ToWide_def ConverUnicode_utf8.simps)
  next
    case (Cons c cs)
    have "utf8_ok (esc_text (utf8_enc c)) \<and> UTF8ToWide (esc_text (utf8_enc c)) = esc_text (wide_enc c)"
    proof (cases "unat c < 128")
      case True
      then obtain b where b: "utf8_enc c = [b]" "unat b = unat c"
        using utf8_enc_1 [of c] by auto
      then have "ucast b = c" using unat_u32_bound [of c] by (intro unat_inject) (simp add: word_nat)
      then show ?thesis
        using True b esc_ascii [of b] by (simp add: wide_enc_1 utf8_ok_ascii UTF8ToWide_ascii)
    next
      case False
      then have c: "IsValidCodepoint c" "128 \<le> unat c" using Cons.prems by auto
      then show ?thesis
        using UTF8ToWide_text [of "[c]"] utf8_ok_text [of "utf8_enc c"]
        by (simp add: esc_text_high_byte utf8_enc_high esc_text_high_wide wide_enc_high)
          (metis concat.simps list.map append_Nil2 list.pred_inject)
    qed
    with Cons show ?case by (simp add: utf8_ok_append UTF8ToWide_append)
  qed
  with s \<open>list_all IsValidCodepoint cs\<close> show ?thesis by (simp add: UTF8ToWide_text)
qed

end
