(* ===== verification/Json.thy ===== *)
theory Json
  imports Value_Serializer StringEscape
begin

text \<open>
  \<^verbatim>\<open>base/logic/json_serializer.cc\<close>: the JSON writer and the recursive-descent reader, one
  definition per method of \<open>JsonValueSerializer\<close>. The object is the record below; positions
  are suffixes of the wide text. \<open>BuildValue\<close> and the two loops in it take fuel, whose
  exhaustion is the result \<open>None\<close>; \<open>BuildValue_fuel\<close> shows that twice the length of the
  input and one more is enough, so the methods defined on top of it are total.
\<close>

section \<open>The object\<close>

record JsonValueSerializer =
  json_string :: "cstring option"
  pretty_print :: bool
  start_pos :: wstring
  json_pos :: wstring
  stack_depth :: nat
  allow_trailing_comma :: bool
  error_code :: ParseError
  error_line :: nat
  error_col :: nat

definition kStackLimit :: nat where
  "kStackLimit = 100"

section \<open>The writer\<close>

text \<open>The text of a double: \<open>.0\<close> is added to integers and a zero before a leading point.\<close>

definition json_real :: "real64 \<Rightarrow> cstring" where
  "json_real r =
     (let real = DoubleToString r;
          real = (if bc CHR ''.'' \<notin> set real \<and> bc CHR ''e'' \<notin> set real \<and> bc CHR ''E'' \<notin> set real
                  then real @ str ''.0'' else real)
      in if peek real = bc CHR ''.'' then bc CHR ''0'' # real
         else if length real > 1 \<and> peek real = bc CHR ''-'' \<and> peek (tl real) = bc CHR ''.''
         then peek real # bc CHR ''0'' # tl real
         else real)"

definition IndentLine :: "nat \<Rightarrow> cstring \<Rightarrow> cstring" where
  "IndentLine depth dst = dst @ replicate (depth * 3) (bc CHR '' '')"

definition AppendQuoteString :: "cstring \<Rightarrow> cstring \<Rightarrow> cstring" where
  "AppendQuoteString s dst = JsonDoubleQuote s True dst"

abbreviation pretty_append :: "bool \<Rightarrow> cstring \<Rightarrow> cstring \<Rightarrow> cstring" where
  "pretty_append pretty s dst \<equiv> (if pretty then dst @ s else dst)"

text \<open>
  \<open>json_list\<close> and \<open>json_dict\<close> are the loops over the children; \<open>first\<close> tells whether the
  child is the first. A binary value has no case in the switch and writes nothing.
\<close>

fun BuildJSONString :: "bool \<Rightarrow> bool \<Rightarrow> nat \<Rightarrow> Value \<Rightarrow> cstring \<Rightarrow> cstring"
  and json_list :: "bool \<Rightarrow> bool \<Rightarrow> nat \<Rightarrow> bool \<Rightarrow> Value list \<Rightarrow> cstring \<Rightarrow> cstring"
  and json_dict :: "bool \<Rightarrow> bool \<Rightarrow> nat \<Rightarrow> bool \<Rightarrow> dict \<Rightarrow> cstring \<Rightarrow> cstring"
where
  "BuildJSONString pretty escape depth Null dst = dst @ str ''null''"
| "BuildJSONString pretty escape depth (Boolean v) dst =
     dst @ (if v then str ''true'' else str ''false'')"
| "BuildJSONString pretty escape depth (CharInteger v) dst =
     StringAppendF dst (fmt_pad 1 (fmt_d (sint v)))"
| "BuildJSONString pretty escape depth (ShortInteger v) dst =
     StringAppendF dst (fmt_pad 2 (fmt_d (sint v)))"
| "BuildJSONString pretty escape depth (Integer v) dst = StringAppendF dst (fmt_d (sint v))"
| "BuildJSONString pretty escape depth (BigInteger v) dst = StringAppendF dst (fmt_d (sint v))"
| "BuildJSONString pretty escape depth (Real v) dst = dst @ json_real v"
| "BuildJSONString pretty escape depth (String v) dst =
     (if escape then dst else JsonDoubleQuote v True dst)"
| "BuildJSONString pretty escape depth (Binary v) dst = dst"
| "BuildJSONString pretty escape depth (List xs) dst =
     (let dst = dst @ str ''['';
          dst = pretty_append pretty (str '' '') dst;
          dst = json_list pretty escape depth True xs dst;
          dst = pretty_append pretty (str '' '') dst
      in dst @ str '']'')"
| "BuildJSONString pretty escape depth (Dictionary d) dst =
     (let dst = dst @ str ''{'';
          dst = pretty_append pretty [10] dst;
          dst = json_dict pretty escape depth True d dst
      in if pretty then IndentLine depth (dst @ [10]) @ str ''}'' else dst @ str ''}'')"
| "json_list pretty escape depth first [] dst = dst"
| "json_list pretty escape depth first (v # xs) dst =
     (let dst = (if \<not> first then pretty_append pretty (str '' '') (dst @ str '','') else dst);
          dst = BuildJSONString pretty escape depth v dst
      in json_list pretty escape depth False xs dst)"
| "json_dict pretty escape depth first [] dst = dst"
| "json_dict pretty escape depth first ((key, v) # d) dst =
     (let dst = (if \<not> first then pretty_append pretty [10] (dst @ str '','') else dst);
          dst = (if pretty then IndentLine (depth + 1) dst else dst);
          dst = AppendQuoteString (WideToASCII key) dst;
          dst = (if pretty then dst @ str '': '' else dst @ str '':'');
          dst = BuildJSONString pretty escape (depth + 1) v dst
      in json_dict pretty escape depth False d dst)"

text \<open>
  \<open>Serialize(root)\<close> writes to the string of the object, which must not be NULL (\<open>None\<close>);
  \<open>Serialize(root, str)\<close> sets it first. Both append to what the string holds.
\<close>

definition Json_Serialize :: "JsonValueSerializer \<Rightarrow> Value \<Rightarrow> (bool \<times> JsonValueSerializer) option" where
  "Json_Serialize j root =
     (case json_string j of
        None \<Rightarrow> None
      | Some s \<Rightarrow>
          Some (True, j\<lparr>json_string := Some (BuildJSONString (pretty_print j) False 0 root s)\<rparr>))"

definition Json_Serialize_to ::
  "JsonValueSerializer \<Rightarrow> Value \<Rightarrow> cstring \<Rightarrow> (bool \<times> JsonValueSerializer) option" where
  "Json_Serialize_to j root s = Json_Serialize (j\<lparr>json_string := Some s\<rparr>) root"

section \<open>Errors\<close>

text \<open>
  The walk of \<open>SetErrorCode\<close> from the start of the text to \<open>error_pos\<close>: \<open>None\<close> when a NUL
  comes first, and then nothing is recorded.
\<close>

fun error_walk :: "wstring \<Rightarrow> wstring \<Rightarrow> nat \<Rightarrow> nat \<Rightarrow> (nat \<times> nat) option" where
  "error_walk error_pos pos line_number colum_number =
     (if length pos = length error_pos then Some (line_number, colum_number)
      else (case pos of
              [] \<Rightarrow> None
            | c # p \<Rightarrow>
                if c = 0 then None
                else if c = 10 then error_walk error_pos p (line_number + 1) 1
                else error_walk error_pos p line_number (colum_number + 1)))"

declare error_walk.simps [simp del]

definition SetErrorCode :: "JsonValueSerializer \<Rightarrow> ParseError \<Rightarrow> wstring \<Rightarrow> JsonValueSerializer" where
  "SetErrorCode j err error_pos =
     (case error_walk error_pos (start_pos j) 1 1 of
        None \<Rightarrow> j
      | Some (line_number, colum_number) \<Rightarrow>
          j\<lparr>error_line := line_number, error_col := colum_number, error_code := err\<rparr>)"

section \<open>White space and comments\<close>

fun eat_line_comment :: "wstring \<Rightarrow> wstring" where
  "eat_line_comment [] = []"
| "eat_line_comment (c # p) =
     (if c = 0 then c # p else if c = 10 \<or> c = 13 then p else eat_line_comment p)"

fun eat_block_comment :: "wstring \<Rightarrow> wstring" where
  "eat_block_comment [] = []"
| "eat_block_comment (c # p) =
     (if c = 0 then c # p
      else if c = wc CHR ''*'' \<and> peek p = wc CHR ''/'' then drop 1 p
      else eat_block_comment p)"

definition EatComment :: "wstring \<Rightarrow> bool \<times> wstring" where
  "EatComment pos =
     (if peek pos \<noteq> wc CHR ''/'' then (False, pos)
      else
        let next_char = peek (drop 1 pos) in
        if next_char = wc CHR ''/'' then (True, eat_line_comment (drop 2 pos))
        else if next_char = wc CHR ''*'' then (True, eat_block_comment (drop 2 pos))
        else (False, pos))"

lemma length_eat_line_comment: "length (eat_line_comment p) \<le> length p"
  by (induction p) auto

lemma length_eat_block_comment: "length (eat_block_comment p) \<le> length p"
  by (induction p) auto

lemma EatComment_length: "EatComment pos = (True, pos') \<Longrightarrow> length pos' < length pos"
  using length_eat_line_comment [of "drop 2 pos"] length_eat_block_comment [of "drop 2 pos"]
  by (cases pos) (auto simp: EatComment_def Let_def split: if_splits)

definition json_space :: "wchar \<Rightarrow> bool" where
  "json_space c \<longleftrightarrow> c = wc CHR '' '' \<or> c = 10 \<or> c = 13 \<or> c = 9"

function EatWhitesspaceAndComments :: "wstring \<Rightarrow> wstring" where
  "EatWhitesspaceAndComments pos =
     (if peek pos = 0 then pos
      else if json_space (peek pos) then EatWhitesspaceAndComments (drop 1 pos)
      else if peek pos = wc CHR ''/'' then
        (case EatComment pos of
           (True, pos') \<Rightarrow> EatWhitesspaceAndComments pos'
         | (False, _) \<Rightarrow> pos)
      else pos)"
  by pat_completeness auto
termination
  by (relation "measure length") (auto dest: sym peek_nonzero intro: EatComment_length)

declare EatWhitesspaceAndComments.simps [simp del]

section \<open>Tokens\<close>

definition NextStringMatch :: "wstring \<Rightarrow> wstring \<Rightarrow> bool" where
  "NextStringMatch pos s \<longleftrightarrow>
     (\<forall>i\<in>set [0..<length s]. peek pos \<noteq> 0 \<and> peek (drop i pos) = s ! i)"

definition wdigit :: "wchar \<Rightarrow> bool" where
  "wdigit c \<longleftrightarrow> wc CHR ''0'' \<le> c \<and> c \<le> wc CHR ''9''"

definition whexdigit :: "wchar \<Rightarrow> bool" where
  "whexdigit c \<longleftrightarrow> wdigit c \<or> (wc CHR ''a'' \<le> c \<and> c \<le> wc CHR ''f'') \<or> (wc CHR ''A'' \<le> c \<and> c \<le> wc CHR ''F'')"

text \<open>The digit loop of \<open>ReadInt\<close>: the number of digits read, which \<open>token.length\<close> grows by.\<close>

function ReadInt_loop :: "Token \<Rightarrow> nat \<Rightarrow> nat \<times> Token" where
  "ReadInt_loop token len =
     (let c = NextChar token in
      if c \<noteq> 0 \<and> wdigit c then ReadInt_loop (token\<lparr>tlength := tlength token + 1\<rparr>) (len + 1)
      else (len, token))"
  by pat_completeness auto
termination
  by (relation "measure (\<lambda>(t, _). length (tbegin t) - tlength t)")
    (auto dest!: NextChar_bound)

declare ReadInt_loop.simps [simp del]

definition ReadInt :: "Token \<Rightarrow> bool \<Rightarrow> bool \<times> Token" where
  "ReadInt token can_have_leading_zeros =
     (let first = NextChar token in
      case ReadInt_loop token 0 of (len, token') \<Rightarrow>
        if len = 0 then (False, token')
        else if \<not> can_have_leading_zeros \<and> len > 1 \<and> first = wc CHR ''0'' then (False, token')
        else (True, token'))"

definition ReadHexDigits :: "Token \<Rightarrow> nat \<Rightarrow> bool \<times> Token" where
  "ReadHexDigits token digits =
     (if list_all (\<lambda>i. let c = peek (drop (tlength token + i) (tbegin token)) in c \<noteq> 0 \<and> whexdigit c)
           [1..<digits + 1]
      then (True, token\<lparr>tlength := tlength token + digits\<rparr>)
      else (False, token))"

definition bump :: "Token \<Rightarrow> Token" where
  "bump token = token\<lparr>tlength := tlength token + 1\<rparr>"

text \<open>The sign, the integer, the fraction and the exponent of a number.\<close>

definition number_frac :: "Token \<Rightarrow> Token option" where
  "number_frac token =
     (if NextChar token = wc CHR ''.'' then
        (case ReadInt (bump token) True of (ok, token') \<Rightarrow> if ok then Some token' else None)
      else Some token)"

definition number_exp :: "Token \<Rightarrow> Token option" where
  "number_exp token =
     (if NextChar token = wc CHR ''e'' \<or> NextChar token = wc CHR ''E'' then
        (let token = bump token;
             token = (if NextChar token = wc CHR ''-'' \<or> NextChar token = wc CHR ''+''
                      then bump token else token)
         in case ReadInt token True of (ok, token') \<Rightarrow> if ok then Some token' else None)
      else Some token)"

definition ParseNumberToken :: "wstring \<Rightarrow> Token" where
  "ParseNumberToken pos =
     (let token = mk_Token NUMBER pos 0;
          token = (if peek pos = wc CHR ''-'' then bump token else token)
      in case ReadInt token False of (ok, token) \<Rightarrow>
           if \<not> ok then kInvalidToken
           else (case Option.bind (number_frac token) number_exp of
                   None \<Rightarrow> kInvalidToken
                 | Some token \<Rightarrow> token))"

text \<open>
  The characters of a string token; on a bad escape the error is recorded at the position
  the token has reached.
\<close>

function ParseStringToken_loop :: "JsonValueSerializer \<Rightarrow> Token \<Rightarrow> Token \<times> JsonValueSerializer" where
  "ParseStringToken_loop j token =
     (let c = NextChar token in
      if c = 0 then (kInvalidToken, j)
      else if c = 92 then
        (let token = bump token;
             c = NextChar token;
             bad = (\<lambda>t. (kInvalidToken, SetErrorCode j INVALID_ESCAPE (drop (tlength t) (json_pos j))))
         in if c = wc CHR ''x'' then
              (case ReadHexDigits token 2 of
                 (True, token') \<Rightarrow> ParseStringToken_loop j (bump token')
               | (False, token') \<Rightarrow> bad token')
            else if c = wc CHR ''u'' then
              (case ReadHexDigits token 4 of
                 (True, token') \<Rightarrow> ParseStringToken_loop j (bump token')
               | (False, token') \<Rightarrow> bad token')
            else if c \<in> {92, wc CHR ''/'', wc CHR ''b'', wc CHR ''f'', wc CHR ''n'', wc CHR ''r'',
                         wc CHR ''t'', wc CHR ''v'', 34}
            then ParseStringToken_loop j (bump token)
            else bad token)
      else if c = 34 then (bump token, j)
      else ParseStringToken_loop j (bump token))"
  by pat_completeness auto
termination
  by (relation "measure (\<lambda>(_, t). length (tbegin t) - tlength t)")
    (use NextChar_bound in \<open>fastforce simp: bump_def ReadHexDigits_def split: if_splits\<close>)+

declare ParseStringToken_loop.simps [simp del]

definition ParseStringToken :: "JsonValueSerializer \<Rightarrow> Token \<times> JsonValueSerializer" where
  "ParseStringToken j = ParseStringToken_loop j (mk_Token STRING (json_pos j) 1)"

definition ParseToken :: "JsonValueSerializer \<Rightarrow> Token \<times> JsonValueSerializer" where
  "ParseToken j0 =
     (let j = j0\<lparr>json_pos := EatWhitesspaceAndComments (json_pos j0)\<rparr>;
          pos = json_pos j;
          c = peek pos
      in if c = 0 then (mk_Token END_OF_INPUT [] 0, j)
         else if c = wc CHR ''n'' then
           (if NextStringMatch pos (wstr ''null'') then mk_Token NULL_TOKEN pos 4 else kInvalidToken, j)
         else if c = wc CHR ''t'' then
           (if NextStringMatch pos (wstr ''true'') then mk_Token BOOL_TRUE pos 4 else kInvalidToken, j)
         else if c = wc CHR ''f'' then
           (if NextStringMatch pos (wstr ''false'') then mk_Token BOOL_FALSE pos 5 else kInvalidToken, j)
         else if c = wc CHR ''['' then (mk_Token ARRAY_BEGIN pos 1, j)
         else if c = wc CHR '']'' then (mk_Token ARRAY_END pos 1, j)
         else if c = wc CHR '','' then (mk_Token LIST_SEPARATOR pos 1, j)
         else if c = wc CHR ''{'' then (mk_Token OBJECT_BEGIN pos 1, j)
         else if c = wc CHR ''}'' then (mk_Token OBJECT_END pos 1, j)
         else if c = wc CHR '':'' then (mk_Token OBJECT_PAIR_SEPARATOR pos 1, j)
         else if wdigit c \<or> c = wc CHR ''-'' then (ParseNumberToken pos, j)
         else if c = 34 then ParseStringToken j
         else (kInvalidToken, j))"

section \<open>Values of tokens\<close>

definition HexToInt :: "wchar \<Rightarrow> wchar" where
  "HexToInt c =
     (if wdigit c then c - wc CHR ''0''
      else if wc CHR ''A'' \<le> c \<and> c \<le> wc CHR ''F'' then c - wc CHR ''A'' + 10
      else if wc CHR ''a'' \<le> c \<and> c \<le> wc CHR ''f'' then c - wc CHR ''a'' + 10
      else 0)"

definition DecodeNumber :: "Token \<Rightarrow> Value option" where
  "DecodeNumber token =
     (let num_wstring = take (tlength token) (tbegin token);
          num_string = WideToASCII num_wstring
      in case StringToInt64 num_string of
           (True, num_int64) \<Rightarrow> Some (BigInteger num_int64)
         | (False, _) \<Rightarrow>
             (case StringToDouble num_string of (ok, num_double) \<Rightarrow>
                if ok \<and> finite_dbl num_double then Some (Real num_double) else None))"

function DecodeString_loop :: "Token \<Rightarrow> nat \<Rightarrow> wstring \<Rightarrow> wstring option" where
  "DecodeString_loop token i decoded_str =
     (let at = (\<lambda>n. peek (drop n (tbegin token))) in
      if i < tlength token - 1 then
        (let c = at i in
         if c = 92 then
           (let i = i + 1; c = at i in
            if c = 34 \<or> c = wc CHR ''/'' \<or> c = 92 then DecodeString_loop token (i + 1) (decoded_str @ [c])
            else if c = wc CHR ''b'' then DecodeString_loop token (i + 1) (decoded_str @ [8])
            else if c = wc CHR ''f'' then DecodeString_loop token (i + 1) (decoded_str @ [12])
            else if c = wc CHR ''n'' then DecodeString_loop token (i + 1) (decoded_str @ [10])
            else if c = wc CHR ''r'' then DecodeString_loop token (i + 1) (decoded_str @ [13])
            else if c = wc CHR ''t'' then DecodeString_loop token (i + 1) (decoded_str @ [9])
            else if c = wc CHR ''v'' then DecodeString_loop token (i + 1) (decoded_str @ [11])
            else if c = wc CHR ''x'' then
              DecodeString_loop token (i + 3)
                (decoded_str @ [push_bit 4 (HexToInt (at (i + 1))) + HexToInt (at (i + 2))])
            else if c = wc CHR ''u'' then
              DecodeString_loop token (i + 5)
                (decoded_str @ [push_bit 12 (HexToInt (at (i + 1))) + push_bit 8 (HexToInt (at (i + 2))) +
                                push_bit 4 (HexToInt (at (i + 3))) + HexToInt (at (i + 4))])
            else None)
         else DecodeString_loop token (i + 1) (decoded_str @ [c]))
      else Some decoded_str)"
  by pat_completeness auto
termination
  by (relation "measure (\<lambda>(t, i, _). tlength t - i)") auto

declare DecodeString_loop.simps [simp del]

definition DecodeString :: "Token \<Rightarrow> Value option" where
  "DecodeString token = map_option CreateStringValueW (DecodeString_loop token 1 [])"

section \<open>The reader\<close>

definition advance :: "nat \<Rightarrow> JsonValueSerializer \<Rightarrow> JsonValueSerializer" where
  "advance n j = j\<lparr>json_pos := drop n (json_pos j)\<rparr>"

text \<open>The end of a successful \<open>BuildValue\<close>: the last token is consumed and the depth restored.\<close>

definition leave :: "Value \<Rightarrow> Token \<Rightarrow> JsonValueSerializer \<Rightarrow> Value option \<times> JsonValueSerializer" where
  "leave node token j = (let j = advance (tlength token) j in (Some node, j\<lparr>stack_depth := stack_depth j - 1\<rparr>))"

text \<open>
  Results are \<open>None\<close> without fuel, else the node (\<open>None\<close> for NULL) and the object. The
  loops get the token read last and the node built so far, and return the closing token
  with the node.
\<close>

fun BuildValue :: "nat \<Rightarrow> bool \<Rightarrow> JsonValueSerializer \<Rightarrow> (Value option \<times> JsonValueSerializer) option"
  and BuildArray :: "nat \<Rightarrow> Token \<Rightarrow> Value list \<Rightarrow> JsonValueSerializer \<Rightarrow>
    ((Value list \<times> Token) option \<times> JsonValueSerializer) option"
  and BuildObject :: "nat \<Rightarrow> Token \<Rightarrow> dict \<Rightarrow> JsonValueSerializer \<Rightarrow>
    ((dict \<times> Token) option \<times> JsonValueSerializer) option"
where
  "BuildValue 0 is_root j0 = None"
| "BuildValue (Suc n) is_root j0 =
     (let j1 = j0\<lparr>stack_depth := stack_depth j0 + 1\<rparr> in
      if stack_depth j1 > kStackLimit then Some (None, j1)
      else case ParseToken j1 of (token, j) \<Rightarrow>
        if is_root \<and> ttype token \<noteq> OBJECT_BEGIN \<and> ttype token \<noteq> ARRAY_BEGIN
        then Some (None, SetErrorCode j BAD_ROOT_ELEENT_TYPE (json_pos j))
        else case ttype token of
          NULL_TOKEN \<Rightarrow> Some (leave Null token j)
        | BOOL_TRUE \<Rightarrow> Some (leave (Boolean True) token j)
        | BOOL_FALSE \<Rightarrow> Some (leave (Boolean False) token j)
        | NUMBER \<Rightarrow>
            (case DecodeNumber token of None \<Rightarrow> Some (None, j) | Some v \<Rightarrow> Some (leave v token j))
        | STRING \<Rightarrow>
            (case DecodeString token of None \<Rightarrow> Some (None, j) | Some v \<Rightarrow> Some (leave v token j))
        | ARRAY_BEGIN \<Rightarrow>
            (case ParseToken (advance (tlength token) j) of (token, j) \<Rightarrow>
               case BuildArray n token [] j of
                 None \<Rightarrow> None
               | Some (None, j) \<Rightarrow> Some (None, j)
               | Some (Some (xs, token), j) \<Rightarrow> Some (leave (List xs) token j))
        | OBJECT_BEGIN \<Rightarrow>
            (case ParseToken (advance (tlength token) j) of (token, j) \<Rightarrow>
               case BuildObject n token [] j of
                 None \<Rightarrow> None
               | Some (None, j) \<Rightarrow> Some (None, j)
               | Some (Some (d, token), j) \<Rightarrow> Some (leave (Dictionary d) token j))
        | _ \<Rightarrow> Some (None, j))"
| "BuildArray 0 token xs j = None"
| "BuildArray (Suc n) token xs j =
     (if ttype token = ARRAY_END then Some (Some (xs, token), j)
      else case BuildValue n False j of
        None \<Rightarrow> None
      | Some (None, j) \<Rightarrow> Some (None, j)
      | Some (Some array_node, j) \<Rightarrow>
          (let xs = List_Append xs (Some array_node) in
           case ParseToken j of (token, j) \<Rightarrow>
             if ttype token = LIST_SEPARATOR then
               (case ParseToken (advance (tlength token) j) of (token, j) \<Rightarrow>
                  if ttype token = ARRAY_END then
                    (if \<not> allow_trailing_comma j
                     then Some (None, SetErrorCode j TRAILING_COMMA (json_pos j))
                     else Some (Some (xs, token), j))
                  else BuildArray n token xs j)
             else if ttype token \<noteq> ARRAY_END then Some (None, j)
             else BuildArray n token xs j))"
| "BuildObject 0 token d j = None"
| "BuildObject (Suc n) token d j =
     (if ttype token = OBJECT_END then Some (Some (d, token), j)
      else if ttype token \<noteq> STRING then
        Some (None, SetErrorCode j UNQUOTED_DICTIONARY_KEY (json_pos j))
      else case Option.bind (DecodeString token) GetAsStringW of
        None \<Rightarrow> Some (None, j)
      | Some dict_key \<Rightarrow>
          (case ParseToken (advance (tlength token) j) of (token, j) \<Rightarrow>
             if ttype token \<noteq> OBJECT_PAIR_SEPARATOR then Some (None, j)
             else case ParseToken (advance (tlength token) j) of (token, j) \<Rightarrow>
               case BuildValue n False j of
                 None \<Rightarrow> None
               | Some (None, j) \<Rightarrow> Some (None, j)
               | Some (Some dict_value, j) \<Rightarrow>
                   (let d = SetWithoutPathExpansion d dict_key (Some dict_value) in
                    case ParseToken j of (token, j) \<Rightarrow>
                      if ttype token = LIST_SEPARATOR then
                        (case ParseToken (advance (tlength token) j) of (token, j) \<Rightarrow>
                           if ttype token = OBJECT_END then
                             (if \<not> allow_trailing_comma j
                              then Some (None, SetErrorCode j TRAILING_COMMA (json_pos j))
                              else Some (Some (d, token), j))
                           else BuildObject n token d j)
                      else if ttype token \<noteq> OBJECT_END then Some (None, j)
                      else BuildObject n token d j)))"

definition json_fuel :: "JsonValueSerializer \<Rightarrow> nat" where
  "json_fuel j = 2 * length (json_pos j) + 1"

text \<open>
  \<open>Deserialize(str, ...)\<close>: the root, what is stored in \<open>*error_code\<close> (nothing when the
  whole input was read), and the object. Data after the root is an error, but the root is
  returned all the same.
\<close>

definition Json_Deserialize ::
  "JsonValueSerializer \<Rightarrow> cstring \<Rightarrow> Value option \<times> ParseError option \<times> JsonValueSerializer" where
  "Json_Deserialize j0 s =
     (let json_wide = UTF8ToWide s;
          start = (if json_wide \<noteq> [] \<and> peek json_wide = 0xFEFF then drop 1 json_wide else json_wide);
          j = j0\<lparr>start_pos := start, json_pos := start, allow_trailing_comma := True,
                stack_depth := 0, error_code := NO_ERROR\<rparr>
      in case the (BuildValue (json_fuel j) True j) of
           (None, j) \<Rightarrow> (None, Some (error_code j), j)
         | (Some root, j) \<Rightarrow>
             (case ParseToken j of (token, j) \<Rightarrow>
                if ttype token = END_OF_INPUT then (Some root, None, j)
                else (let j = SetErrorCode j UNEXPECTED_DATA_AFTER_ROOT (json_pos j)
                      in (Some root, Some (error_code j), j))))"

text \<open>\<open>Deserialize(...)\<close> of the object's own string, which must not be NULL.\<close>

definition Json_Deserialize_own ::
  "JsonValueSerializer \<Rightarrow> (Value option \<times> ParseError option \<times> JsonValueSerializer) option" where
  "Json_Deserialize_own j = map_option (Json_Deserialize j) (json_string j)"

end
