(* ===== verification/Json_Reader.thy ===== *)
theory Json_Reader
  imports Json
begin

text \<open>
  The JSON reader on arbitrary input: every token moves forward, so the fuel of
  \<open>BuildValue\<close> is always enough and does not influence the result; what it builds is a
  well-formed tree, nested no deeper than the limit, with a container at the root.
\<close>

section \<open>Tokens move forward\<close>

lemma SetErrorCode_sel [simp]:
  "json_pos (SetErrorCode j e p) = json_pos j" "stack_depth (SetErrorCode j e p) = stack_depth j"
  "allow_trailing_comma (SetErrorCode j e p) = allow_trailing_comma j"
  "start_pos (SetErrorCode j e p) = start_pos j"
  by (simp_all add: SetErrorCode_def split: option.split prod.split)

lemma advance_sel [simp]:
  "json_pos (advance n j) = drop n (json_pos j)" "stack_depth (advance n j) = stack_depth j"
  "allow_trailing_comma (advance n j) = allow_trailing_comma j" "start_pos (advance n j) = start_pos j"
  by (simp_all add: advance_def)

lemma EatWhitesspaceAndComments_length: "length (EatWhitesspaceAndComments p) \<le> length p"
proof (induction "length p" arbitrary: p rule: less_induct)
  case less
  obtain ok p' where c: "EatComment p = (ok, p')" by (cases "EatComment p")
  show ?case
  proof (cases "peek p \<noteq> 0 \<and> (json_space (peek p) \<or> peek p = wc CHR ''/'' \<and> ok)")
    case False
    then show ?thesis
      by (subst EatWhitesspaceAndComments.simps) (auto simp: c split: bool.split)
  next
    case True
    then have "0 < length p" using peek_nonzero by blast
    then have "length (EatWhitesspaceAndComments (drop 1 p)) \<le> length p"
      using less [of "drop 1 p"] by simp
    moreover have "length (EatWhitesspaceAndComments p') \<le> length p" if ok
      using less [of p'] EatComment_length [of p p'] c that by simp
    ultimately show ?thesis
      using True by (subst EatWhitesspaceAndComments.simps) (auto simp: c split: bool.split)
  qed
qed

lemma ReadInt_loop_token:
  "ReadInt_loop t n = (m, t') \<Longrightarrow>
     tlength t' = tlength t + (m - n) \<and> n \<le> m \<and> tbegin t' = tbegin t \<and> ttype t' = ttype t"
proof (induction t n rule: ReadInt_loop.induct)
  case (1 t n)
  then show ?case
    by (subst (asm) (2) ReadInt_loop.simps) (auto simp: Let_def split: if_splits)
qed

lemma ReadInt_token:
  "ReadInt t z = (ok, t') \<Longrightarrow>
     tlength t + (if ok then 1 else 0) \<le> tlength t' \<and> tbegin t' = tbegin t \<and> ttype t' = ttype t"
  by (auto simp: ReadInt_def Let_def split: prod.splits if_splits dest!: ReadInt_loop_token)

lemma bump_sel [simp]:
  "tlength (bump t) = tlength t + 1" "tbegin (bump t) = tbegin t" "ttype (bump t) = ttype t"
  by (simp_all add: bump_def)

lemma number_frac_token:
  "number_frac t = Some t' \<Longrightarrow> tlength t \<le> tlength t' \<and> tbegin t' = tbegin t \<and> ttype t' = ttype t"
  by (auto simp: number_frac_def split: prod.splits if_splits dest!: ReadInt_token)

lemma number_exp_token:
  "number_exp t = Some t' \<Longrightarrow> tlength t \<le> tlength t' \<and> tbegin t' = tbegin t \<and> ttype t' = ttype t"
  by (auto simp: number_exp_def Let_def split: prod.splits if_splits dest!: ReadInt_token)

lemma ParseNumberToken_token:
  "ParseNumberToken pos = kInvalidToken \<or>
   (ttype (ParseNumberToken pos) = NUMBER \<and> 1 \<le> tlength (ParseNumberToken pos))"
proof -
  obtain ok t where r: "ReadInt (if peek pos = wc CHR ''-'' then bump (mk_Token NUMBER pos 0) else mk_Token NUMBER pos 0)
      False = (ok, t)" (is "?r = _") by (cases ?r)
  show ?thesis
  proof (cases "ok \<and> Option.bind (number_frac t) number_exp \<noteq> None")
    case False
    then show ?thesis using r by (auto simp: ParseNumberToken_def Let_def)
  next
    case True
    then obtain t1 t2 where "number_frac t = Some t1" "number_exp t1 = Some t2"
      by (auto simp: bind_eq_None_conv)
    with True r show ?thesis
      using ReadInt_token [OF r] number_frac_token [of t t1] number_exp_token [of t1 t2]
      by (auto simp: ParseNumberToken_def Let_def split: if_splits)
  qed
qed

lemma ReadHexDigits_token:
  "ReadHexDigits t n = (ok, t') \<Longrightarrow> tlength t \<le> tlength t' \<and> tbegin t' = tbegin t \<and> ttype t' = ttype t"
  by (auto simp: ReadHexDigits_def split: if_splits)

lemma ParseStringToken_loop_token:
  "ParseStringToken_loop j t = (t', j') \<Longrightarrow>
     (t' = kInvalidToken \<or> (tlength t < tlength t' \<and> ttype t' = ttype t)) \<and>
     json_pos j' = json_pos j \<and> stack_depth j' = stack_depth j \<and>
     allow_trailing_comma j' = allow_trailing_comma j"
proof (induction j t rule: ParseStringToken_loop.induct)
  case (1 j t)
  note unf = ParseStringToken_loop.simps [of j t, unfolded Let_def]
  obtain ok2 t2 where h2: "ReadHexDigits (bump t) 2 = (ok2, t2)" by (cases "ReadHexDigits (bump t) 2")
  obtain ok4 t4 where h4: "ReadHexDigits (bump t) 4 = (ok4, t4)" by (cases "ReadHexDigits (bump t) 4")
  have b2: "tlength t < tlength t2" "ttype t2 = ttype t" and b4: "tlength t < tlength t4" "ttype t4 = ttype t"
    using ReadHexDigits_token [OF h2] ReadHexDigits_token [OF h4] by auto
  consider (stop) "NextChar t = 0 \<or> NextChar t = 34"
    | (plain) "NextChar t \<noteq> 0" "NextChar t \<noteq> 92" "NextChar t \<noteq> 34"
    | (x) "NextChar t = 92" "NextChar (bump t) = wc CHR ''x''"
    | (u) "NextChar t = 92" "NextChar (bump t) = wc CHR ''u''"
    | (esc) "NextChar t = 92" "NextChar (bump t) \<noteq> wc CHR ''x''" "NextChar (bump t) \<noteq> wc CHR ''u''"
    by auto
  then show ?case
  proof cases
    case stop
    then show ?thesis using "1.prems" unf by auto
  next
    case plain
    with unf have "ParseStringToken_loop j t = ParseStringToken_loop j (bump t)" by simp
    with "1.IH"(4) [OF refl] plain "1.prems" show ?thesis by fastforce
  next
    case x
    with unf h2 have "ParseStringToken_loop j t = (if ok2 then ParseStringToken_loop j (bump t2)
        else (kInvalidToken, SetErrorCode j INVALID_ESCAPE (drop (tlength t2) (json_pos j))))"
      by (simp split: bool.split)
    with "1.IH"(1) [OF refl _ x(1) refl refl refl x(2) h2 [symmetric]] x "1.prems" b2 show ?thesis
      by (cases ok2) (fastforce, auto)
  next
    case u
    with unf h4 have "ParseStringToken_loop j t = (if ok4 then ParseStringToken_loop j (bump t4)
        else (kInvalidToken, SetErrorCode j INVALID_ESCAPE (drop (tlength t4) (json_pos j))))"
      by (simp split: bool.split)
    with "1.IH"(2) [OF refl _ u(1) refl refl refl _ u(2) h4 [symmetric]] u "1.prems" b4 show ?thesis
      by (cases ok4) (fastforce, auto)
  next
    case esc
    with unf have "ParseStringToken_loop j t =
      (if NextChar (bump t) \<in> {92, wc CHR ''/'', wc CHR ''b'', wc CHR ''f'', wc CHR ''n'', wc CHR ''r'',
                         wc CHR ''t'', wc CHR ''v'', 34}
       then ParseStringToken_loop j (bump (bump t))
       else (kInvalidToken, SetErrorCode j INVALID_ESCAPE (drop (tlength (bump t)) (json_pos j))))"
      by simp
    with "1.IH"(3) [OF refl _ esc(1) refl refl refl esc(2,3)] esc "1.prems" show ?thesis
      by (auto split: if_splits)
  qed
qed

lemma kInvalidToken_sel [simp]: "ttype kInvalidToken = INVALID_TOKEN" "tlength kInvalidToken = 0"
  by (simp_all add: kInvalidToken_def)

lemma ParseToken_cases:
  assumes "ParseToken j = (t, j')"
  defines "k \<equiv> j\<lparr>json_pos := EatWhitesspaceAndComments (json_pos j)\<rparr>"
  shows "(j' = k \<and> (ttype t \<in> {END_OF_INPUT, INVALID_TOKEN} \<or> 1 \<le> tlength t \<and> peek (json_pos k) \<noteq> 0)) \<or>
    (peek (json_pos k) = 34 \<and> ParseStringToken k = (t, j'))"
proof (cases "peek (json_pos k) = 34")
  case True
  then show ?thesis using assms(1) by (simp add: ParseToken_def Let_def k_def [symmetric] wdigit_def)
next
  case False
  with assms(1) ParseNumberToken_token [of "json_pos k"] show ?thesis
    unfolding ParseToken_def Let_def k_def [symmetric] by (auto split: if_splits)
qed

lemma ParseToken_forward:
  assumes "ParseToken j = (t, j')"
  shows "length (json_pos j') \<le> length (json_pos j)"
    and "stack_depth j' = stack_depth j"
    and "allow_trailing_comma j' = allow_trailing_comma j"
    and "ttype t \<notin> {END_OF_INPUT, INVALID_TOKEN} \<Longrightarrow> 1 \<le> tlength t \<and> json_pos j' \<noteq> []"
proof -
  define k where "k = j\<lparr>json_pos := EatWhitesspaceAndComments (json_pos j)\<rparr>"
  have k: "length (json_pos k) \<le> length (json_pos j)" "stack_depth k = stack_depth j"
    "allow_trailing_comma k = allow_trailing_comma j"
    by (simp_all add: k_def EatWhitesspaceAndComments_length)
  consider "j' = k" "ttype t \<in> {END_OF_INPUT, INVALID_TOKEN} \<or> 1 \<le> tlength t \<and> peek (json_pos k) \<noteq> 0"
    | "peek (json_pos k) = 34" "ParseStringToken k = (t, j')"
    using ParseToken_cases [OF assms] unfolding k_def by blast
  then have "json_pos j' = json_pos k \<and> stack_depth j' = stack_depth k \<and>
    allow_trailing_comma j' = allow_trailing_comma k \<and>
    (ttype t \<notin> {END_OF_INPUT, INVALID_TOKEN} \<longrightarrow> 1 \<le> tlength t \<and> json_pos j' \<noteq> [])"
  proof cases
    case 1
    then show ?thesis by (auto dest: peek_nonzero)
  next
    case 2
    then show ?thesis
      using ParseStringToken_loop_token [of k "mk_Token STRING (json_pos k) 1" t j']
      by (auto simp: ParseStringToken_def)
  qed
  with k show "length (json_pos j') \<le> length (json_pos j)" "stack_depth j' = stack_depth j"
    "allow_trailing_comma j' = allow_trailing_comma j"
    "ttype t \<notin> {END_OF_INPUT, INVALID_TOKEN} \<Longrightarrow> 1 \<le> tlength t \<and> json_pos j' \<noteq> []"
    by auto
qed

lemma advance_less:
  assumes "ParseToken j = (t, j')" and "ttype t \<notin> {END_OF_INPUT, INVALID_TOKEN}"
  shows "length (json_pos (advance (tlength t) j')) < length (json_pos j)"
  using ParseToken_forward(1) [OF assms(1)] ParseToken_forward(4) [OF assms]
  by (cases "json_pos j'") auto

section \<open>What the reader builds\<close>

text \<open>The value nests at most \<open>n\<close> levels deep; a leaf is one level.\<close>

fun nest_ok :: "nat \<Rightarrow> Value \<Rightarrow> bool" where
  "nest_ok 0 v \<longleftrightarrow> False"
| "nest_ok (Suc n) (List xs) \<longleftrightarrow> list_all (nest_ok n) xs"
| "nest_ok (Suc n) (Dictionary d) \<longleftrightarrow> list_all (\<lambda>e. nest_ok n (snd e)) d"
| "nest_ok (Suc n) _ \<longleftrightarrow> True"

definition is_container :: "Value \<Rightarrow> bool" where
  "is_container v \<longleftrightarrow> (case v of List _ \<Rightarrow> True | Dictionary _ \<Rightarrow> True | _ \<Rightarrow> False)"

text \<open>The text of tokens is either a string or a number: their values are leaves.\<close>

lemma DecodeString_leaf: "DecodeString t = Some v \<Longrightarrow> \<exists>s. v = String s"
  by (auto simp: DecodeString_def CreateStringValueW_def)

lemma DecodeNumber_leaf: "DecodeNumber t = Some v \<Longrightarrow> (\<exists>i. v = BigInteger i) \<or> (\<exists>r. v = Real r)"
  by (auto simp: DecodeNumber_def Let_def split: prod.splits bool.splits if_splits)

definition good_result :: "bool \<Rightarrow> JsonValueSerializer \<Rightarrow> Value \<Rightarrow> JsonValueSerializer \<Rightarrow> bool" where
  "good_result is_root j v j' \<longleftrightarrow>
     length (json_pos j') < length (json_pos j) \<and> stack_depth j' = stack_depth j \<and>
     value_wf v \<and> nest_ok (kStackLimit - stack_depth j) v \<and> (is_root \<longrightarrow> is_container v)"

lemma leave_sel:
  "leave v t j = (r, j') \<Longrightarrow>
   r = Some v \<and> json_pos j' = drop (tlength t) (json_pos j) \<and> stack_depth j' = stack_depth j - 1"
  by (auto simp: leave_def Let_def)

lemma good_leaf:
  assumes "ParseToken (j\<lparr>stack_depth := stack_depth j + 1\<rparr>) = (t, k)" and "leave v t k = (Some v, j')"
    and "ttype t \<notin> {END_OF_INPUT, INVALID_TOKEN}" and "stack_depth j < kStackLimit"
    and "\<not> is_container v" and "\<not> is_root"
  shows "good_result is_root j v j'"
proof -
  have "length (json_pos j') < length (json_pos j)" "stack_depth j' = stack_depth j"
    using advance_less [OF assms(1,3)] leave_sel [OF assms(2)] ParseToken_forward(2) [OF assms(1)] by simp_all
  moreover have "value_wf v" "nest_ok (kStackLimit - stack_depth j) v"
    using assms(4,5) by (cases v; cases "kStackLimit - stack_depth j"; auto simp: is_container_def)+
  ultimately show ?thesis using assms(6) by (simp add: good_result_def)
qed

text \<open>The switch of \<open>BuildValue\<close>, for a token already read.\<close>

definition build_node :: "nat \<Rightarrow> Token \<Rightarrow> JsonValueSerializer \<Rightarrow> (Value option \<times> JsonValueSerializer) option" where
  "build_node n token j =
     (case ttype token of
          NULL_TOKEN \<Rightarrow> Some (leave Null token j)
        | BOOL_TRUE \<Rightarrow> Some (leave (Boolean True) token j)
        | BOOL_FALSE \<Rightarrow> Some (leave (Boolean False) token j)
        | NUMBER \<Rightarrow>
            (case DecodeNumber token of None \<Rightarrow> Some (None, j) | Some v \<Rightarrow> Some (leave v token j))
        | STRING \<Rightarrow>
            (case DecodeString token of None \<Rightarrow> Some (None, j) | Some v \<Rightarrow> Some (leave v token j))
        | ARRAY_BEGIN \<Rightarrow>
            (case ParseToken (advance (tlength token) j) of (token, j) \<Rightarrow>
               case BuildArray n token [] j of
                 None \<Rightarrow> None
               | Some (None, j) \<Rightarrow> Some (None, j)
               | Some (Some (xs, token), j) \<Rightarrow> Some (leave (List xs) token j))
        | OBJECT_BEGIN \<Rightarrow>
            (case ParseToken (advance (tlength token) j) of (token, j) \<Rightarrow>
               case BuildObject n token [] j of
                 None \<Rightarrow> None
               | Some (None, j) \<Rightarrow> Some (None, j)
               | Some (Some (d, token), j) \<Rightarrow> Some (leave (Dictionary d) token j))
        | _ \<Rightarrow> Some (None, j))"

definition enter :: "JsonValueSerializer \<Rightarrow> JsonValueSerializer" where
  "enter j = j\<lparr>stack_depth := stack_depth j + 1\<rparr>"

lemma enter_sel [simp]: "stack_depth (enter j) = stack_depth j + 1" "json_pos (enter j) = json_pos j"
  "allow_trailing_comma (enter j) = allow_trailing_comma j"
  by (simp_all add: enter_def)

lemma BuildValue_step:
  assumes "ParseToken (enter j) = (t, k)"
  shows "BuildValue (Suc n) r j =
     (if stack_depth j \<ge> kStackLimit then Some (None, enter j)
      else if r \<and> ttype t \<noteq> OBJECT_BEGIN \<and> ttype t \<noteq> ARRAY_BEGIN
      then Some (None, SetErrorCode k BAD_ROOT_ELEENT_TYPE (json_pos k))
      else build_node n t k)"
  unfolding BuildValue.simps Let_def enter_def [symmetric] assms prod.case build_node_def enter_sel
  by (simp add: Suc_le_eq not_less less_Suc_eq_le)

lemma build_node_Some:
  assumes "build_node n t k = Some (Some v, j')"
  obtains (leaf) "ttype t \<notin> {END_OF_INPUT, INVALID_TOKEN, ARRAY_BEGIN, OBJECT_BEGIN}" "\<not> is_container v"
      "leave v t k = (Some v, j')"
  | (array) t2 k2 xs t3 k3 where "ttype t = ARRAY_BEGIN" "ParseToken (advance (tlength t) k) = (t2, k2)"
      "BuildArray n t2 [] k2 = Some (Some (xs, t3), k3)" "v = List xs" "leave v t3 k3 = (Some v, j')"
  | (object) t2 k2 d t3 k3 where "ttype t = OBJECT_BEGIN" "ParseToken (advance (tlength t) k) = (t2, k2)"
      "BuildObject n t2 [] k2 = Some (Some (d, t3), k3)" "v = Dictionary d" "leave v t3 k3 = (Some v, j')"
proof (cases "ttype t")
  case ARRAY_BEGIN
  with assms show ?thesis
    by (auto simp: build_node_def leave_def Let_def split: prod.splits option.splits intro: array)
next
  case OBJECT_BEGIN
  with assms show ?thesis
    by (auto simp: build_node_def leave_def Let_def split: prod.splits option.splits intro: object)
qed (use assms in \<open>auto simp: build_node_def leave_def Let_def is_container_def split: option.splits
  dest!: DecodeString_leaf DecodeNumber_leaf intro!: leaf\<close>)

lemma BuildArray_Some:
  assumes "BuildArray (Suc n) t xs j = Some (Some (ys, t'), j')"
  obtains (stop) "ttype t = ARRAY_END" "ys = xs" "t' = t" "j' = j"
  | (more) v k t2 k2 where "ttype t \<noteq> ARRAY_END" "BuildValue n False j = Some (Some v, k)"
      "length (json_pos k2) \<le> length (json_pos k)" "stack_depth k2 = stack_depth k"
      "ys = xs @ [v] \<and> t' = t2 \<and> j' = k2 \<or> BuildArray n t2 (xs @ [v]) k2 = Some (Some (ys, t'), j')"
proof (cases "ttype t = ARRAY_END")
  case False
  with assms obtain v k where v: "BuildValue n False j = Some (Some v, k)"
    by (auto split: option.splits prod.splits)
  obtain t1 k1 where t1: "ParseToken k = (t1, k1)" by (cases "ParseToken k")
  obtain t2 k2 where t2: "ParseToken (advance (tlength t1) k1) = (t2, k2)"
    by (cases "ParseToken (advance (tlength t1) k1)")
  have l: "length (json_pos k1) \<le> length (json_pos k)" "stack_depth k1 = stack_depth k"
    "length (json_pos k2) \<le> length (json_pos k)" "stack_depth k2 = stack_depth k"
    using ParseToken_forward(1,2) [OF t1] ParseToken_forward(1,2) [OF t2] by auto
  show ?thesis
    using assms False v t1 t2 l
    by (auto simp: List_Append_def Let_def split: if_splits intro: more [OF False v])
next
  case True
  with assms show ?thesis by (intro stop) auto
qed

lemma BuildObject_Some:
  assumes "BuildObject (Suc n) t d j = Some (Some (e, t'), j')"
  obtains (stop) "ttype t = OBJECT_END" "e = d" "t' = t" "j' = j"
  | (more) key v k0 k t2 k2 where "ttype t \<noteq> OBJECT_END" "BuildValue n False k0 = Some (Some v, k)"
      "length (json_pos k0) \<le> length (json_pos j)" "stack_depth k0 = stack_depth j"
      "length (json_pos k2) \<le> length (json_pos k)" "stack_depth k2 = stack_depth k"
      "e = assign key v d \<and> t' = t2 \<and> j' = k2 \<or> BuildObject n t2 (assign key v d) k2 = Some (Some (e, t'), j')"
proof (cases "ttype t = OBJECT_END")
  case False
  obtain ta ka where ta: "ParseToken (advance (tlength t) j) = (ta, ka)"
    by (cases "ParseToken (advance (tlength t) j)")
  obtain tb kb where tb: "ParseToken (advance (tlength ta) ka) = (tb, kb)"
    by (cases "ParseToken (advance (tlength ta) ka)")
  from assms False ta tb obtain key v k where v: "BuildValue n False kb = Some (Some v, k)"
    and key: "Option.bind (DecodeString t) GetAsStringW = Some key"
    by (auto split: option.splits prod.splits if_splits)
  obtain t1 k1 where t1: "ParseToken k = (t1, k1)" by (cases "ParseToken k")
  obtain t2 k2 where t2: "ParseToken (advance (tlength t1) k1) = (t2, k2)"
    by (cases "ParseToken (advance (tlength t1) k1)")
  have l: "length (json_pos k1) \<le> length (json_pos k)" "stack_depth k1 = stack_depth k"
    "length (json_pos k2) \<le> length (json_pos k)" "stack_depth k2 = stack_depth k"
    "length (json_pos kb) \<le> length (json_pos j)" "stack_depth kb = stack_depth j"
    using ParseToken_forward(1,2) [OF t1] ParseToken_forward(1,2) [OF t2]
      ParseToken_forward(1,2) [OF ta] ParseToken_forward(1,2) [OF tb] by auto
  show ?thesis
    using assms False v t1 t2 ta tb key l
    by (auto simp: SetWithoutPathExpansion_def Let_def split: if_splits intro: more [OF False v l(5,6)])
next
  case True
  with assms show ?thesis by (intro stop) auto
qed

lemma good_container:
  assumes "ParseToken (enter j) = (t, k)" and "ttype t \<notin> {END_OF_INPUT, INVALID_TOKEN}"
    and "ParseToken (advance (tlength t) k) = (t2, k2)"
    and "length (json_pos k3) \<le> length (json_pos k2)" and "stack_depth k3 = stack_depth k2"
    and "leave v t3 k3 = (Some v, j')"
  shows "length (json_pos j') < length (json_pos j)" and "stack_depth j' = stack_depth j"
    and "stack_depth k2 = stack_depth j + 1"
  using advance_less [OF assms(1,2)] leave_sel [OF assms(6)] ParseToken_forward(1,2) [OF assms(1)]
    ParseToken_forward(1,2) [OF assms(3)] assms(4,5) by simp_all

lemma build_sound:
  "(\<forall>r j v j'. BuildValue n r j = Some (Some v, j') \<longrightarrow> good_result r j v j') \<and>
   (\<forall>t xs j ys t' j'. BuildArray n t xs j = Some (Some (ys, t'), j') \<longrightarrow>
      length (json_pos j') \<le> length (json_pos j) \<and> stack_depth j' = stack_depth j \<and>
      (\<forall>y\<in>set ys. y \<in> set xs \<or> value_wf y \<and> nest_ok (kStackLimit - stack_depth j) y)) \<and>
   (\<forall>t d j e t' j'. BuildObject n t d j = Some (Some (e, t'), j') \<longrightarrow>
      length (json_pos j') \<le> length (json_pos j) \<and> stack_depth j' = stack_depth j \<and>
      (map_ok wstring_less d \<longrightarrow> map_ok wstring_less e) \<and>
      (\<forall>y\<in>snd ` set e. y \<in> snd ` set d \<or> value_wf y \<and> nest_ok (kStackLimit - stack_depth j) y))"
proof (induction n)
  case 0
  show ?case by simp
next
  case (Suc n)
  have V: "good_result r j v j'" if b: "BuildValue (Suc n) r j = Some (Some v, j')" for r j v j'
  proof -
    obtain t k where t: "ParseToken (enter j) = (t, k)" by (cases "ParseToken (enter j)")
    have d: "stack_depth j < kStackLimit" and r: "r \<longrightarrow> ttype t = OBJECT_BEGIN \<or> ttype t = ARRAY_BEGIN"
      and b': "build_node n t k = Some (Some v, j')"
      using b unfolding BuildValue_step [OF t] by (auto split: if_splits)
    obtain m where m: "kStackLimit - stack_depth j = Suc m" "m = kStackLimit - (stack_depth j + 1)"
      using d by (metis Suc_diff_Suc Suc_eq_plus1)
    from b' show ?thesis
    proof (cases rule: build_node_Some)
      case leaf
      with good_leaf [of j t k v j' r] t d r show ?thesis by (auto simp: enter_def)
    next
      case (array t2 k2 xs t3 k3)
      with Suc have "length (json_pos k3) \<le> length (json_pos k2)" "stack_depth k3 = stack_depth k2"
        "\<forall>y\<in>set xs. value_wf y \<and> nest_ok (kStackLimit - stack_depth k2) y" by fastforce+
      with good_container [OF t _ array(2) this(1,2) array(5)] array m show ?thesis
        by (auto simp: good_result_def is_container_def list_all_iff)
    next
      case (object t2 k2 e t3 k3)
      with Suc have "length (json_pos k3) \<le> length (json_pos k2)" "stack_depth k3 = stack_depth k2"
        "map_ok wstring_less e" "\<forall>y\<in>snd ` set e. value_wf y \<and> nest_ok (kStackLimit - stack_depth k2) y"
        by fastforce+
      with good_container [OF t _ object(2) this(1,2) object(5)] object m show ?thesis
        by (auto simp: good_result_def is_container_def list_all_iff)
    qed
  qed
  have A: "length (json_pos j') \<le> length (json_pos j) \<and> stack_depth j' = stack_depth j \<and>
      (\<forall>y\<in>set ys. y \<in> set xs \<or> value_wf y \<and> nest_ok (kStackLimit - stack_depth j) y)"
    if "BuildArray (Suc n) t xs j = Some (Some (ys, t'), j')" for t xs j ys t' j'
    using that
  proof (cases rule: BuildArray_Some)
    case (more v k t2 k2)
    then have g: "good_result False j v k" using Suc by blast
    from more(5) Suc have "length (json_pos j') \<le> length (json_pos k2) \<and> stack_depth j' = stack_depth k2 \<and>
      (\<forall>y\<in>set ys. y \<in> set (xs @ [v]) \<or> value_wf y \<and> nest_ok (kStackLimit - stack_depth k2) y)"
      by fastforce
    with g more(3,4) show ?thesis by (auto simp: good_result_def)
  qed simp
  have B: "length (json_pos j') \<le> length (json_pos j) \<and> stack_depth j' = stack_depth j \<and>
      (map_ok wstring_less d \<longrightarrow> map_ok wstring_less e) \<and>
      (\<forall>y\<in>snd ` set e. y \<in> snd ` set d \<or> value_wf y \<and> nest_ok (kStackLimit - stack_depth j) y)"
    if "BuildObject (Suc n) t d j = Some (Some (e, t'), j')" for t d j e t' j'
    using that
  proof (cases rule: BuildObject_Some)
    case (more key v k0 k t2 k2)
    then have g: "good_result False k0 v k" using Suc by blast
    let ?good = "\<lambda>y. value_wf y \<and> nest_ok (kStackLimit - stack_depth j) y"
    have v: "?good v" and k2: "stack_depth k2 = stack_depth j" "length (json_pos k2) \<le> length (json_pos j)"
      using g more(3-6) by (auto simp: good_result_def)
    have e: "length (json_pos j') \<le> length (json_pos k2)" "stack_depth j' = stack_depth k2"
      "map_ok wstring_less (assign key v d) \<Longrightarrow> map_ok wstring_less e"
      "y \<in> snd ` set e \<Longrightarrow> y \<in> snd ` set (assign key v d) \<or> ?good y" for y
      using more(7) Suc [THEN conjunct2, THEN conjunct2] unfolding k2(1) [symmetric] by blast+
    have "y = v \<or> y \<in> snd ` set d" if "y \<in> snd ` set (assign key v d)" for y
      using set_map_assign [of wstring_less key v d] that by force
    with e v have "\<forall>y\<in>snd ` set e. y \<in> snd ` set d \<or> ?good y" by blast
    with e k2 wkey.map_ok_assign [of d key v] show ?thesis by simp
  qed simp
  show ?case using V A B by blast
qed

text \<open>Fuel: twice the length of the text is enough, whatever the text.\<close>

lemma build_fuel:
  "(\<forall>r j. 2 * length (json_pos j) + 1 \<le> n \<longrightarrow> BuildValue n r j \<noteq> None) \<and>
   (\<forall>t xs j. 2 * length (json_pos j) + 2 \<le> n \<longrightarrow> BuildArray n t xs j \<noteq> None) \<and>
   (\<forall>t d j. 2 * length (json_pos j) + 2 \<le> n \<longrightarrow> BuildObject n t d j \<noteq> None)"
proof (induction n)
  case (Suc n)
  have V: "BuildValue (Suc n) r j \<noteq> None" if l: "2 * length (json_pos j) + 1 \<le> Suc n" for r j
  proof -
    obtain t k where t: "ParseToken (enter j) = (t, k)" by (cases "ParseToken (enter j)")
    obtain t2 k2 where t2: "ParseToken (advance (tlength t) k) = (t2, k2)"
      by (cases "ParseToken (advance (tlength t) k)")
    have "BuildArray n t2 [] k2 \<noteq> None \<and> BuildObject n t2 [] k2 \<noteq> None"
      if "ttype t = ARRAY_BEGIN \<or> ttype t = OBJECT_BEGIN"
    proof -
      have "length (json_pos k2) < length (json_pos j)"
        using advance_less [OF t] ParseToken_forward(1) [OF t2] that by fastforce
      with l Suc show ?thesis by simp
    qed
    then have "build_node n t k \<noteq> None"
      by (cases "ttype t") (auto simp: build_node_def t2 split: option.split prod.split)
    then show ?thesis unfolding BuildValue_step [OF t] by simp
  qed
  have A: "BuildArray (Suc n) t xs j \<noteq> None" if l: "2 * length (json_pos j) + 2 \<le> Suc n" for t xs j
  proof (cases "BuildValue n False j")
    case None
    moreover have "BuildValue n False j \<noteq> None" using Suc [THEN conjunct1] l by simp
    ultimately show ?thesis by simp
  next
    case (Some r)
    obtain v k where r: "r = (v, k)" by (cases r)
    obtain t1 k1 where t1: "ParseToken k = (t1, k1)" by (cases "ParseToken k")
    obtain t2 k2 where t2: "ParseToken (advance (tlength t1) k1) = (t2, k2)"
      by (cases "ParseToken (advance (tlength t1) k1)")
    have "length (json_pos k) < length (json_pos j)" if "v \<noteq> None"
      using build_sound [of n] Some r that by (fastforce simp: good_result_def)
    then have "v = None \<or> (\<forall>ys t. BuildArray n t ys k1 \<noteq> None \<and> BuildArray n t ys k2 \<noteq> None)"
      using ParseToken_forward(1) [OF t1] ParseToken_forward(1) [OF t2] l Suc by fastforce
    then show ?thesis
      using Some r t1 t2 by (cases v) (auto simp: Let_def)
  qed
  have B: "BuildObject (Suc n) t d j \<noteq> None" if l: "2 * length (json_pos j) + 2 \<le> Suc n" for t d j
  proof -
    obtain ta ka where ta: "ParseToken (advance (tlength t) j) = (ta, ka)"
      by (cases "ParseToken (advance (tlength t) j)")
    obtain tb kb where tb: "ParseToken (advance (tlength ta) ka) = (tb, kb)"
      by (cases "ParseToken (advance (tlength ta) ka)")
    have kb: "length (json_pos kb) \<le> length (json_pos j)"
      using ParseToken_forward(1) [OF ta] ParseToken_forward(1) [OF tb] by simp
    then obtain v k where v: "BuildValue n False kb = Some (v, k)" using Suc l by fastforce
    obtain t1 k1 where t1: "ParseToken k = (t1, k1)" by (cases "ParseToken k")
    obtain t2 k2 where t2: "ParseToken (advance (tlength t1) k1) = (t2, k2)"
      by (cases "ParseToken (advance (tlength t1) k1)")
    have "length (json_pos k) < length (json_pos kb)" if "v \<noteq> None"
      using build_sound [of n] v that by (fastforce simp: good_result_def)
    then have "v = None \<or> (\<forall>e t. BuildObject n t e k1 \<noteq> None \<and> BuildObject n t e k2 \<noteq> None)"
      using ParseToken_forward(1) [OF t1] ParseToken_forward(1) [OF t2] l kb Suc by fastforce
    then show ?thesis
      using v ta tb t1 t2 by (cases v) (auto simp: Let_def split: option.split)
  qed
  show ?case using V A B by blast
qed simp

lemma BuildValue_fuel: "\<exists>v j'. BuildValue (json_fuel j) r j = Some (v, j')"
  using build_fuel [of "json_fuel j"] by (fastforce simp: json_fuel_def)

section \<open>Fuel does not change results\<close>

lemma build_mono:
  "(\<forall>r j x. BuildValue n r j = Some x \<longrightarrow> (\<forall>m\<ge>n. BuildValue m r j = Some x)) \<and>
   (\<forall>t xs j x. BuildArray n t xs j = Some x \<longrightarrow> (\<forall>m\<ge>n. BuildArray m t xs j = Some x)) \<and>
   (\<forall>t d j x. BuildObject n t d j = Some x \<longrightarrow> (\<forall>m\<ge>n. BuildObject m t d j = Some x))"
proof (induction n)
  case (Suc n)
  have IV: "BuildValue n r j = Some x \<Longrightarrow> n \<le> m \<Longrightarrow> BuildValue m r j = Some x"
    and IA: "BuildArray n t xs j = Some y \<Longrightarrow> n \<le> m \<Longrightarrow> BuildArray m t xs j = Some y"
    and IO: "BuildObject n t d j = Some z \<Longrightarrow> n \<le> m \<Longrightarrow> BuildObject m t d j = Some z"
    for m r j x t xs d y z using Suc by blast+
  have V: "BuildValue (Suc m) r j = Some x" if "BuildValue (Suc n) r j = Some x" "n \<le> m" for r j x m
  proof -
    obtain t k where t: "ParseToken (enter j) = (t, k)" by (cases "ParseToken (enter j)")
    have "build_node m t k = Some y" if "build_node n t k = Some y" for y
      using that IA [OF _ \<open>n \<le> m\<close>] IO [OF _ \<open>n \<le> m\<close>]
      by (cases "ttype t") (fastforce simp: build_node_def split: option.splits prod.splits)+
    with that show ?thesis unfolding BuildValue_step [OF t] by (auto split: if_splits)
  qed
  have A: "BuildArray (Suc m) t xs j = Some x" if b: "BuildArray (Suc n) t xs j = Some x" "n \<le> m" for t xs j x m
  proof (cases "ttype t = ARRAY_END")
    case False
    with b obtain v k where v: "BuildValue n False j = Some (v, k)" by (auto split: option.splits)
    obtain t1 k1 where t1: "ParseToken k = (t1, k1)" by (cases "ParseToken k")
    obtain t2 k2 where t2: "ParseToken (advance (tlength t1) k1) = (t2, k2)"
      by (cases "ParseToken (advance (tlength t1) k1)")
    show ?thesis
      using b False v IV [OF v b(2)] t1 t2 IA [OF _ b(2)]
      by (cases v) (auto simp: Let_def split: if_splits)
  qed (use b in auto)
  have B: "BuildObject (Suc m) t d j = Some x" if b: "BuildObject (Suc n) t d j = Some x" "n \<le> m" for t d j x m
  proof (cases "ttype t = STRING \<and> Option.bind (DecodeString t) GetAsStringW \<noteq> None")
    case True
    then obtain key where key: "ttype t = STRING" "Option.bind (DecodeString t) GetAsStringW = Some key" by auto
    obtain ta ka where ta: "ParseToken (advance (tlength t) j) = (ta, ka)"
      by (cases "ParseToken (advance (tlength t) j)")
    obtain tb kb where tb: "ParseToken (advance (tlength ta) ka) = (tb, kb)"
      by (cases "ParseToken (advance (tlength ta) ka)")
    show ?thesis
    proof (cases "ttype ta = OBJECT_PAIR_SEPARATOR")
      case pair: True
      with b key ta tb obtain v k where v: "BuildValue n False kb = Some (v, k)" by (auto split: option.splits)
      obtain t1 k1 where t1: "ParseToken k = (t1, k1)" by (cases "ParseToken k")
      obtain t2 k2 where t2: "ParseToken (advance (tlength t1) k1) = (t2, k2)"
        by (cases "ParseToken (advance (tlength t1) k1)")
      show ?thesis
        using b key ta tb pair v IV [OF v b(2)] t1 t2 IO [OF _ b(2)]
        by (cases v) (auto simp: Let_def split: if_splits)
    qed (use b key ta in auto)
  qed (use b in \<open>auto split: if_splits option.splits\<close>)
  have lift: "\<forall>m\<ge>Suc n. Q m" if "\<And>m. n \<le> m \<Longrightarrow> Q (Suc m)" for Q
    using that by (metis Suc_le_D Suc_le_mono)
  show ?case
    by (intro conjI allI impI lift) (erule (1) V A B)+
qed simp

lemma BuildValue_mono: "BuildValue n r j = Some x \<Longrightarrow> n \<le> m \<Longrightarrow> BuildValue m r j = Some x"
  using build_mono [of n, THEN conjunct1] by blast

lemma BuildArray_mono: "BuildArray n t xs j = Some x \<Longrightarrow> n \<le> m \<Longrightarrow> BuildArray m t xs j = Some x"
  using build_mono [of n, THEN conjunct2, THEN conjunct1] by blast

lemma BuildObject_mono: "BuildObject n t d j = Some x \<Longrightarrow> n \<le> m \<Longrightarrow> BuildObject m t d j = Some x"
  using build_mono [of n, THEN conjunct2, THEN conjunct2] by blast

lemma BuildValue_total:
  assumes "BuildValue n r j = Some x"
  shows "BuildValue (json_fuel j) r j = Some x"
proof -
  obtain v j' where y: "BuildValue (json_fuel j) r j = Some (v, j')" using BuildValue_fuel by blast
  have "BuildValue (max n (json_fuel j)) r j = Some x"
    using assms by (rule BuildValue_mono) simp
  moreover have "BuildValue (max n (json_fuel j)) r j = Some (v, j')"
    using y by (rule BuildValue_mono) simp
  ultimately show ?thesis using y by simp
qed

end
