(* ===== verification/Json_Roundtrip.thy ===== *)
theory Json_Roundtrip
  imports Json_Reader
begin

text \<open>
  The JSON writer and reader together: how the tokens of written text are read, the text
  that is written, and that reading it gives the value back.
\<close>

section \<open>Reading tokens of known text\<close>

abbreviation at :: "JsonValueSerializer \<Rightarrow> wstring \<Rightarrow> JsonValueSerializer" where
  "at j p \<equiv> j\<lparr>json_pos := p\<rparr>"

lemma Eat_space: "json_space c \<Longrightarrow> EatWhitesspaceAndComments (c # p) = EatWhitesspaceAndComments p"
  by (subst EatWhitesspaceAndComments.simps) (auto simp: json_space_def)

lemma Eat_spaces:
  "list_all json_space ws \<Longrightarrow> EatWhitesspaceAndComments (ws @ p) = EatWhitesspaceAndComments p"
  by (induction ws) (simp_all add: Eat_space)

definition solid :: "wstring \<Rightarrow> bool" where
  "solid p \<longleftrightarrow> \<not> json_space (peek p) \<and> peek p \<noteq> wc CHR ''/''"

lemma Eat_solid: "solid p \<Longrightarrow> EatWhitesspaceAndComments p = p"
  by (subst EatWhitesspaceAndComments.simps) (simp add: solid_def)

lemma ParseToken_at:
  "list_all json_space ws \<Longrightarrow> solid p \<Longrightarrow> ParseToken (at j (ws @ p)) = ParseToken (at j p)"
  by (simp add: ParseToken_def Eat_spaces Eat_solid)

lemma solid_char:
  "c \<notin> {32, 10, 13, 9, 47} \<Longrightarrow> solid (c # p)"
  by (simp add: solid_def json_space_def)

lemma ParseToken_END: "ParseToken (at j []) = (mk_Token END_OF_INPUT [] 0, at j [])"
  by (simp add: ParseToken_def Eat_solid solid_def json_space_def)

lemma ParseToken_punct:
  "ParseToken (at j (91 # p)) = (mk_Token ARRAY_BEGIN (91 # p) 1, at j (91 # p))"
  "ParseToken (at j (93 # p)) = (mk_Token ARRAY_END (93 # p) 1, at j (93 # p))"
  "ParseToken (at j (44 # p)) = (mk_Token LIST_SEPARATOR (44 # p) 1, at j (44 # p))"
  "ParseToken (at j (123 # p)) = (mk_Token OBJECT_BEGIN (123 # p) 1, at j (123 # p))"
  "ParseToken (at j (125 # p)) = (mk_Token OBJECT_END (125 # p) 1, at j (125 # p))"
  "ParseToken (at j (58 # p)) = (mk_Token OBJECT_PAIR_SEPARATOR (58 # p) 1, at j (58 # p))"
  by (simp_all add: ParseToken_def Let_def Eat_solid solid_def json_space_def)

lemma ParseToken_words:
  "ParseToken (at j (wstr ''null'' @ p)) = (mk_Token NULL_TOKEN (wstr ''null'' @ p) 4, at j (wstr ''null'' @ p))"
  "ParseToken (at j (wstr ''true'' @ p)) = (mk_Token BOOL_TRUE (wstr ''true'' @ p) 4, at j (wstr ''true'' @ p))"
  "ParseToken (at j (wstr ''false'' @ p)) = (mk_Token BOOL_FALSE (wstr ''false'' @ p) 5, at j (wstr ''false'' @ p))"
  by (simp_all add: ParseToken_def Let_def Eat_solid solid_def json_space_def NextStringMatch_def)

subsection \<open>Strings\<close>

lemma bump_mk [simp]: "bump (mk_Token t b n) = mk_Token t b (Suc n)"
  by (simp add: bump_def mk_Token_def)

lemma mk_Token_update [simp]: "(mk_Token t b n)\<lparr>tlength := m\<rparr> = mk_Token t b m"
  by (simp add: mk_Token_def)

lemma NextChar_mk: "NextChar (mk_Token t (a @ c # p) (length a)) = c"
  by (simp add: NextChar_def)

lemma NextChar_at: "b = a @ c # p \<Longrightarrow> n = length a \<Longrightarrow> NextChar (mk_Token t b n) = c"
  by (simp add: NextChar_def)

text \<open>The characters that survive: neither NUL nor the quote, which is not escaped.\<close>

definition quotable :: "wstring \<Rightarrow> bool" where
  "quotable w \<longleftrightarrow> list_all (\<lambda>c. c \<noteq> 0 \<and> c \<noteq> 34) w"

lemma ParseStringToken_loop_esc:
  "quotable w \<Longrightarrow> b = a @ esc_text w @ 34 # p \<Longrightarrow>
   ParseStringToken_loop j (mk_Token STRING b (length a)) =
     (mk_Token STRING b (length a + length (esc_text w) + 1), j)"
proof (induction w arbitrary: a)
  case Nil
  then have "NextChar (mk_Token STRING b (length a)) = 34" by (simp add: NextChar_at)
  then show ?case by (subst ParseStringToken_loop.simps) simp
next
  case (Cons c w)
  from Cons.prems have c: "c \<noteq> 0" "c \<noteq> 34" and w: "quotable w" by (auto simp: quotable_def)
  have IH: "ParseStringToken_loop j (mk_Token STRING b (length a + length (esc c))) =
      (mk_Token STRING b (length a + length (esc c) + length (esc_text w) + 1), j)"
    using Cons.IH [OF w, of "a @ esc c"] Cons.prems(2) by simp
  have "ParseStringToken_loop j (mk_Token STRING b (length a)) =
    ParseStringToken_loop j (mk_Token STRING b (length a + length (esc c)))"
  proof (cases "esc c = [c]")
    case True
    then have "c \<noteq> 92" by (auto simp: esc_def)
    moreover have "NextChar (mk_Token STRING b (length a)) = c"
      using Cons.prems(2) True by (simp add: NextChar_at)
    ultimately show ?thesis
      using c True by (subst ParseStringToken_loop.simps) simp
  next
    case False
    then obtain e where e: "esc c = [92, e]" "e \<in> {92, wc CHR ''b'', wc CHR ''f'', wc CHR ''n'', wc CHR ''r'', wc CHR ''t''}"
      by (auto simp: esc_def split: if_splits)
    have "NextChar (mk_Token STRING b (length a)) = 92"
      using Cons.prems(2) e by (simp add: NextChar_at)
    moreover have "NextChar (mk_Token STRING b (Suc (length a))) = e"
      using Cons.prems(2) e by (intro NextChar_at [of _ "a @ [92]" e]) simp_all
    ultimately show ?thesis
      using e by (subst ParseStringToken_loop.simps) (auto simp: Let_def)
  qed
  with IH show ?case by simp
qed

lemma DecodeString_loop_esc:
  "b = a @ esc_text w @ 34 # p \<Longrightarrow> quotable w \<Longrightarrow>
   DecodeString_loop (mk_Token STRING b (length a + length (esc_text w) + 1)) (length a) acc = Some (acc @ w)"
proof (induction w arbitrary: a acc)
  case Nil
  then show ?case by (subst DecodeString_loop.simps) simp
next
  case (Cons c w)
  let ?t = "mk_Token STRING b (length a + length (esc_text (c # w)) + 1)"
  from Cons.prems have c: "c \<noteq> 34" and w: "quotable w" by (auto simp: quotable_def)
  have IH: "DecodeString_loop ?t (length a + length (esc c)) (acc @ [c]) = Some (acc @ c # w)"
    using Cons.IH [of "a @ esc c" "acc @ [c]"] Cons.prems(1) w by (simp add: add.assoc)
  have "DecodeString_loop ?t (length a) acc = DecodeString_loop ?t (length a + length (esc c)) (acc @ [c])"
  proof (cases "esc c = [c]")
    case True
    then have "c \<noteq> 92" by (auto simp: esc_def)
    moreover have "peek (drop (length a) b) = c" using Cons.prems(1) True by simp
    ultimately show ?thesis
      using True by (subst DecodeString_loop.simps) simp
  next
    case False
    have p: "peek (drop (length a) b) = hd (esc c)" "length (esc c) = 2"
      "peek (drop (Suc (length a)) b) = esc c ! 1"
      using False Cons.prems(1) by (auto simp: esc_def split: if_splits)
    show ?thesis
      by (subst DecodeString_loop.simps) (use False p in \<open>auto simp: esc_def Let_def split: if_splits\<close>)
  qed
  with IH show ?case by simp
qed

lemma ParseToken_string:
  fixes p :: wstring
  assumes "quotable w"
  defines "pos \<equiv> 34 # esc_text w @ 34 # p"
  defines "t \<equiv> mk_Token STRING pos (length (esc_text w) + 2)"
  shows "ParseToken (at j pos) = (t, at j pos)"
    and "DecodeString t = Some (String (WideToUTF8 w))"
    and "drop (tlength t) pos = p"
proof -
  show "ParseToken (at j pos) = (t, at j pos)"
    using ParseStringToken_loop_esc [OF assms(1), of pos "[34]" p "at j pos"]
    by (simp add: ParseToken_def Let_def Eat_solid solid_def json_space_def pos_def t_def ParseStringToken_def wdigit_def)
  show "DecodeString t = Some (String (WideToUTF8 w))"
    using DecodeString_loop_esc [of pos "[34]" w p "[]"] assms(1)
    by (simp add: DecodeString_def pos_def t_def CreateStringValueW_def)
qed (simp add: pos_def t_def)

subsection \<open>Numbers\<close>

lemma ReadInt_loop_digits:
  "list_all wdigit ds \<Longrightarrow> \<not> wdigit (peek p) \<Longrightarrow> b = a @ ds @ p \<Longrightarrow>
   ReadInt_loop (mk_Token t b (length a)) n = (n + length ds, mk_Token t b (length a + length ds))"
proof (induction ds arbitrary: a n)
  case Nil
  then have "NextChar (mk_Token t b (length a)) = peek p" by (simp add: NextChar_def)
  with Nil show ?case by (subst ReadInt_loop.simps) (simp add: Let_def)
next
  case (Cons d ds)
  then have "NextChar (mk_Token t b (length a)) = d" "wdigit d" "d \<noteq> 0"
    by (auto simp: NextChar_at wdigit_def)
  then show ?case
    using Cons.IH [of "a @ [d]" "n + 1"] Cons.prems
    by (subst ReadInt_loop.simps) (simp add: Let_def)
qed

lemma ReadInt_digits:
  assumes "list_all wdigit ds" "ds \<noteq> []" "\<not> wdigit (peek p)" "b = a @ ds @ p"
    and "z \<or> length ds = 1 \<or> hd ds \<noteq> 48"
  shows "ReadInt (mk_Token t b (length a)) z = (True, mk_Token t b (length a + length ds))"
proof -
  have "NextChar (mk_Token t b (length a)) = hd ds"
    using assms(2,4) by (cases ds) (simp_all add: NextChar_at)
  then show ?thesis
    using ReadInt_loop_digits [OF assms(1,3,4), of t 0] assms(2,5)
    by (cases ds) (auto simp: ReadInt_def Let_def)
qed

text \<open>A number of the JSON grammar: sign, integer, fraction, exponent.\<close>

definition frac_text :: "wstring \<Rightarrow> bool" where
  "frac_text f \<longleftrightarrow> f = [] \<or> (\<exists>ds. f = 46 # ds \<and> ds \<noteq> [] \<and> list_all wdigit ds)"

definition exp_text :: "wstring \<Rightarrow> bool" where
  "exp_text e \<longleftrightarrow> e = [] \<or> (\<exists>c sg ds. e = c # sg @ ds \<and> c \<in> {101, 69} \<and> sg \<in> {[], [45], [43]} \<and>
     ds \<noteq> [] \<and> list_all wdigit ds)"

definition number_parts :: "wstring \<Rightarrow> wstring \<Rightarrow> wstring \<Rightarrow> wstring \<Rightarrow> bool" where
  "number_parts sg i f e \<longleftrightarrow> sg \<in> {[], [45]} \<and> i \<noteq> [] \<and> list_all wdigit i \<and> (length i = 1 \<or> hd i \<noteq> 48) \<and>
     frac_text f \<and> exp_text e"

definition ends_number :: "wstring \<Rightarrow> bool" where
  "ends_number p \<longleftrightarrow> \<not> wdigit (peek p) \<and> peek p \<notin> {46, 101, 69}"

lemma number_exp_text:
  assumes "exp_text e" "ends_number p" "b = a @ e @ p"
  shows "number_exp (mk_Token t b (length a)) = Some (mk_Token t b (length a + length e))"
proof (cases "e = []")
  case True
  then have "NextChar (mk_Token t b (length a)) = peek p" using assms(3) by (simp add: NextChar_def)
  with True assms(2) show ?thesis by (auto simp: number_exp_def ends_number_def)
next
  case False
  with assms(1) obtain c sg ds where e: "e = c # sg @ ds" "c \<in> {101, 69}" "sg \<in> {[], [45], [43]}" "ds \<noteq> []"
    "list_all wdigit ds" by (auto simp: exp_text_def)
  have n: "NextChar (mk_Token t b (length a)) = c"
    using assms(3) e by (simp add: NextChar_at)
  have d: "\<not> wdigit (peek p)" using assms(2) by (simp add: ends_number_def)
  have r: "ReadInt (mk_Token t b (length (a @ c # sg))) True =
      (True, mk_Token t b (length a + length e))"
    using ReadInt_digits [OF e(5,4) d, of b "a @ c # sg" True t] assms(3) e(1) by simp
  have "NextChar (mk_Token t b (Suc (length a))) = hd (sg @ ds)"
    using assms(3) e(1,4) by (intro NextChar_at [of _ "a @ [c]" _ "tl (sg @ ds) @ p"]) (cases sg; cases ds; simp)+
  moreover have "hd ds \<notin> {45, 43}" using e(4,5) by (cases ds) (auto simp: wdigit_def)
  ultimately show ?thesis
    using n e r by (auto simp: number_exp_def Let_def)
qed

lemma peek_exp_text: "exp_text e \<Longrightarrow> ends_number p \<Longrightarrow> \<not> wdigit (peek (e @ p)) \<and> peek (e @ p) \<noteq> 46"
  by (auto simp: exp_text_def ends_number_def wdigit_def)

lemma number_frac_text:
  assumes "frac_text f" "exp_text e" "ends_number p" "b = a @ f @ e @ p"
  shows "number_frac (mk_Token t b (length a)) = Some (mk_Token t b (length a + length f))"
proof (cases "f = []")
  case True
  then have "NextChar (mk_Token t b (length a)) = peek (e @ p)" using assms(4) by (simp add: NextChar_def)
  with True peek_exp_text [OF assms(2,3)] show ?thesis by (auto simp: number_frac_def)
next
  case False
  with assms(1) obtain ds where f: "f = 46 # ds" "ds \<noteq> []" "list_all wdigit ds" by (auto simp: frac_text_def)
  have n: "NextChar (mk_Token t b (length a)) = 46"
    using assms(4) f by (simp add: NextChar_at)
  have "ReadInt (mk_Token t b (length (a @ [46]))) True = (True, mk_Token t b (length a + length f))"
    using ReadInt_digits [OF f(3,2) conjunct1 [OF peek_exp_text [OF assms(2,3)]], of b "a @ [46]" True t] assms(4) f(1)
    by simp
  with n show ?thesis by (simp add: number_frac_def)
qed

lemma peek_frac_text:
  "frac_text f \<Longrightarrow> exp_text e \<Longrightarrow> ends_number p \<Longrightarrow> \<not> wdigit (peek (f @ e @ p))"
  using peek_exp_text [of e p] by (auto simp: frac_text_def wdigit_def)

lemma ParseNumberToken_text:
  assumes "number_parts sg i f e" "ends_number p"
  shows "ParseNumberToken (sg @ i @ f @ e @ p) =
    mk_Token NUMBER (sg @ i @ f @ e @ p) (length (sg @ i @ f @ e))"
proof -
  let ?b = "sg @ i @ f @ e @ p"
  have s: "(if peek ?b = 45 then mk_Token NUMBER ?b (Suc 0) else mk_Token NUMBER ?b 0) =
      mk_Token NUMBER ?b (length sg)"
    using assms(1) by (cases i) (auto simp: number_parts_def wdigit_def)
  have i: "ReadInt (mk_Token NUMBER ?b (length sg)) False = (True, mk_Token NUMBER ?b (length (sg @ i)))"
    using ReadInt_digits [of i "f @ e @ p" ?b sg False NUMBER] peek_frac_text [of f e p] assms
    by (auto simp: number_parts_def)
  have f: "number_frac (mk_Token NUMBER ?b (length (sg @ i))) = Some (mk_Token NUMBER ?b (length (sg @ i @ f)))"
    using number_frac_text [of f e p ?b "sg @ i" NUMBER] assms by (auto simp: number_parts_def)
  have e: "number_exp (mk_Token NUMBER ?b (length (sg @ i @ f))) = Some (mk_Token NUMBER ?b (length (sg @ i @ f @ e)))"
    using number_exp_text [of e p ?b "sg @ i @ f" NUMBER] assms by (auto simp: number_parts_def)
  show ?thesis
    using i f e unfolding ParseNumberToken_def Let_def bump_mk by (simp add: s)
qed

lemma ParseToken_number:
  assumes "number_parts sg i f e" "ends_number p"
  defines "s \<equiv> sg @ i @ f @ e"
  shows "ParseToken (at j (s @ p)) = (mk_Token NUMBER (s @ p) (length s), at j (s @ p))"
    and "solid (s @ p)"
proof -
  obtain c q where s: "s @ p = c # q" "wdigit c \<or> c = 45"
    using assms(1) by (cases i) (auto simp: s_def number_parts_def)
  then show "solid (s @ p)" by (auto simp: solid_def json_space_def wdigit_def)
  moreover have "c \<notin> {0, 110, 116, 102, 91, 93, 44, 123, 125, 58}"
    using s(2) by (auto simp: wdigit_def)
  ultimately show "ParseToken (at j (s @ p)) = (mk_Token NUMBER (s @ p) (length s), at j (s @ p))"
    using ParseNumberToken_text [OF assms(1,2)] s by (simp add: ParseToken_def Let_def Eat_solid s_def)
qed

section \<open>The text that is written\<close>

text \<open>The output of the writer without the accumulated destination.\<close>

abbreviation sp :: "bool \<Rightarrow> cstring" where
  "sp pretty \<equiv> (if pretty then [32] else [])"

abbreviation nl :: "bool \<Rightarrow> cstring" where
  "nl pretty \<equiv> (if pretty then [10] else [])"

abbreviation ind :: "bool \<Rightarrow> nat \<Rightarrow> cstring" where
  "ind pretty depth \<equiv> (if pretty then replicate (depth * 3) 32 else [])"

definition leaf_text :: "Value \<Rightarrow> cstring" where
  "leaf_text v = (case v of
     Null \<Rightarrow> str ''null''
   | Boolean b \<Rightarrow> if b then str ''true'' else str ''false''
   | CharInteger i \<Rightarrow> fmt_pad 1 (fmt_d (sint i))
   | ShortInteger i \<Rightarrow> fmt_pad 2 (fmt_d (sint i))
   | Integer i \<Rightarrow> fmt_d (sint i)
   | BigInteger i \<Rightarrow> fmt_d (sint i)
   | Real r \<Rightarrow> json_real r
   | String s \<Rightarrow> [34] @ esc_text s @ [34]
   | _ \<Rightarrow> [])"

fun json_text :: "bool \<Rightarrow> nat \<Rightarrow> Value \<Rightarrow> cstring"
  and list_text :: "bool \<Rightarrow> nat \<Rightarrow> Value list \<Rightarrow> cstring"
  and dict_text :: "bool \<Rightarrow> nat \<Rightarrow> dict \<Rightarrow> cstring"
  and entry_text :: "bool \<Rightarrow> nat \<Rightarrow> wstring \<times> Value \<Rightarrow> cstring"
where
  "json_text pretty depth (List xs) =
     [91] @ sp pretty @
     (case xs of [] \<Rightarrow> [] | v # vs \<Rightarrow> json_text pretty depth v @ list_text pretty depth vs) @
     sp pretty @ [93]"
| "json_text pretty depth (Dictionary d) =
     [123] @ nl pretty @
     (case d of [] \<Rightarrow> [] | e # es \<Rightarrow> entry_text pretty depth e @ dict_text pretty depth es) @
     nl pretty @ ind pretty depth @ [125]"
| "json_text pretty depth v = leaf_text v"
| "list_text pretty depth [] = []"
| "list_text pretty depth (v # vs) =
     [44] @ sp pretty @ json_text pretty depth v @ list_text pretty depth vs"
| "dict_text pretty depth [] = []"
| "dict_text pretty depth (e # es) =
     [44] @ nl pretty @ entry_text pretty depth e @ dict_text pretty depth es"
| "entry_text pretty depth (key, v) =
     ind pretty (depth + 1) @ [34] @ esc_text (WideToASCII key) @ [34, 58] @ sp pretty @
     json_text pretty (depth + 1) v"

lemma length_fmt_pad: "length (fmt_pad n s) = max n (length s)"
  by (simp add: fmt_pad_def)

lemma sint_8_range: "- (2 ^ 63) \<le> sint (i :: 8 word)" "sint i < 2 ^ 63"
  using sint_ge [of i] sint_lt [of i] by simp_all

lemma sint_16_range: "- (2 ^ 63) \<le> sint (i :: 16 word)" "sint i < 2 ^ 63"
  using sint_ge [of i] sint_lt [of i] by simp_all

lemma sint_32_range: "- (2 ^ 63) \<le> sint (i :: 32 word)" "sint i < 2 ^ 63"
  using sint_ge [of i] sint_lt [of i] by simp_all

lemmas length_fmt_ints =
  length_fmt_d [OF sint_8_range] length_fmt_d [OF sint_16_range] length_fmt_d [OF sint_32_range]
  length_fmt_d [OF sint_range_64]

lemma StringAppendF_short: "length s \<le> 1000 \<Longrightarrow> StringAppendF dst s = dst @ s"
  by (simp add: StringAppendF_append)

lemma BuildJSONString_text:
  "BuildJSONString pretty False depth v dst = dst @ json_text pretty depth v"
  "json_list pretty False depth first xs dst = dst @
     (case xs of [] \<Rightarrow> [] | v # vs \<Rightarrow>
        if first then json_text pretty depth v @ list_text pretty depth vs else list_text pretty depth xs)"
  "json_dict pretty False depth first d dst = dst @
     (case d of [] \<Rightarrow> [] | e # es \<Rightarrow>
        if first then entry_text pretty depth e @ dict_text pretty depth es else dict_text pretty depth d)"
proof (induction pretty "False" depth v dst and pretty "False" depth first xs dst and pretty "False" depth first d dst
    rule: BuildJSONString_json_list_json_dict.induct)
  case (3 pretty depth v dst)
  then show ?case using length_fmt_ints(1) [of v]
    by (simp add: leaf_text_def StringAppendF_short length_fmt_pad)
next
  case (4 pretty depth v dst)
  then show ?case using length_fmt_ints(2) [of v]
    by (simp add: leaf_text_def StringAppendF_short length_fmt_pad)
next
  case (5 pretty depth v dst)
  then show ?case using length_fmt_ints(3) [of v] by (simp add: leaf_text_def StringAppendF_short)
next
  case (6 pretty depth v dst)
  then show ?case using length_fmt_ints(4) [of v] by (simp add: leaf_text_def StringAppendF_short)
next
  case (8 pretty depth v dst)
  show ?case by (simp add: leaf_text_def JsonDoubleQuote_eq)
next
  case (13 pretty depth first v xs dst)
  then show ?case by (cases xs) (auto simp: Let_def)
next
  case (15 pretty depth first key v d dst)
  then show ?case by (cases d) (auto simp: Let_def AppendQuoteString_def JsonDoubleQuote_eq IndentLine_def)
qed (auto simp: leaf_text_def Let_def IndentLine_def split: list.split)

end
