(* ===== verification/Json_Codec.thy ===== *)
theory Json_Codec
  imports Json_Roundtrip
begin

text \<open>
  The JSON writer and reader together: which values survive (\<open>json_accepts\<close>), what the
  reader makes of them (\<open>json_norm\<close>), and that the reader builds exactly that from the
  written text, by induction on the value. \<open>reads w v\<close> is the invariant of that induction: it
  speaks of every state and every continuation of the text, so that it composes along lists
  and dictionaries. The serializer is an instance of the contract \<open>serializer\<close>, in both
  layouts.
\<close>

section \<open>Values that survive\<close>

text \<open>
  A JSON number in bytes, by recognition: what \<open>ParseNumberToken\<close> accepts to the end.
\<close>

definition number_text :: "cstring \<Rightarrow> bool" where
  "number_text s \<longleftrightarrow>
     (let s1 = (if peek s = 45 then tl s else s);
          i = takeWhile isdigit s1; s2 = dropWhile isdigit s1;
          f = (if peek s2 = 46 then takeWhile isdigit (tl s2) else []);
          s3 = (if peek s2 = 46 then dropWhile isdigit (tl s2) else s2);
          s4 = (if s3 = [] then [] else if peek (tl s3) = 45 \<or> peek (tl s3) = 43 then tl (tl s3) else tl s3)
      in i \<noteq> [] \<and> (length i = 1 \<or> peek i \<noteq> 48) \<and> (peek s2 = 46 \<longrightarrow> f \<noteq> []) \<and>
         (s3 \<noteq> [] \<longrightarrow> peek s3 \<in> {101, 69} \<and> s4 \<noteq> [] \<and> list_all isdigit s4))"

text \<open>A double whose text, of six digits, is a number that is read back as the double.\<close>

definition real_ok :: "real64 \<Rightarrow> bool" where
  "real_ok r \<longleftrightarrow> number_text (json_real r) \<and> \<not> fst (StringToInt64 (json_real r)) \<and>
     finite_dbl r \<and> atof (json_real r) = r"

fun json_ok :: "Value \<Rightarrow> bool" where
  "json_ok (Real r) \<longleftrightarrow> real_ok r"
| "json_ok (String s) \<longleftrightarrow> utf8_ok s \<and> quotable (UTF8ToWide s)"
| "json_ok (Binary _) \<longleftrightarrow> False"
| "json_ok (List xs) \<longleftrightarrow> list_all json_ok xs"
| "json_ok (Dictionary d) \<longleftrightarrow>
     list_all (\<lambda>e. quotable (fst e) \<and> list_all (\<lambda>c. unat c < 128) (fst e) \<and> json_ok (snd e)) d"
| "json_ok _ \<longleftrightarrow> True"

text \<open>All integers are read as 64-bit integers.\<close>

fun json_norm :: "Value \<Rightarrow> Value" where
  "json_norm (CharInteger i) = BigInteger (scast i)"
| "json_norm (ShortInteger i) = BigInteger (scast i)"
| "json_norm (Integer i) = BigInteger (scast i)"
| "json_norm (List xs) = List (map json_norm xs)"
| "json_norm (Dictionary d) = Dictionary (map (\<lambda>e. (fst e, json_norm (snd e))) d)"
| "json_norm v = v"

section \<open>Leaves\<close>

definition delim :: "wstring \<Rightarrow> bool" where
  "delim p \<longleftrightarrow> peek p \<in> {44, 93, 125, 32, 10}"

lemma delim_ends_number: "delim p \<Longrightarrow> ends_number p"
  by (auto simp: delim_def ends_number_def wdigit_def)

lemma isdigit_ascii: "isdigit b \<Longrightarrow> unat b < 128"
  by (simp add: isdigit_nat)

lemma wdigit_ucast: "isdigit b \<Longrightarrow> wdigit (ucast b)"
  by (simp add: isdigit_nat wdigit_def word_le_nat_alt word_nat)

lemma list_all_wdigit: "list_all isdigit s \<Longrightarrow> list_all wdigit (map ucast s)"
  by (induction s) (simp_all add: wdigit_ucast)

lemma ucast_ucast_byte: "ucast (ucast (b :: byte) :: wchar) = b"
  by (rule byte_cases_all) code_simp

lemma ucast_48: "(ucast (b :: byte) :: wchar) = 48 \<longleftrightarrow> b = 48"
  by (rule byte_cases_all) code_simp

lemma WideToASCII_ucast: "WideToASCII (map ucast (s :: cstring)) = s"
  by (simp add: WideToASCII_def comp_def ucast_ucast_byte)

lemma fmt_d_parts:
  obtains sg ds where "fmt_d i = sg @ ds" "sg \<in> {[], [45]}" "list_all isdigit ds" "ds \<noteq> []"
    "length ds = 1 \<or> hd ds \<noteq> 48"
proof -
  define ds where "ds = dec_digits (nat \<bar>i\<bar>)"
  have "list_all isdigit ds" "ds \<noteq> []" by (simp_all add: ds_def dec_digits_isdigit)
  moreover have "length ds = 1 \<or> hd ds \<noteq> 48"
    using dec_digits_first [of "nat \<bar>i\<bar>"] by (auto simp: ds_def)
  moreover have "fmt_d i = (if i < 0 then [45] else []) @ ds"
    by (simp add: fmt_d_def ds_def)
  ultimately show ?thesis
    by (intro that [of "if i < 0 then [45] else []" ds]) auto
qed

text \<open>
  The reader at a token for a leaf: nothing else is needed of the state, and the rest of
  the text is where it continues.
\<close>

definition reads_leaf :: "wstring \<Rightarrow> Value \<Rightarrow> bool" where
  "reads_leaf w v \<longleftrightarrow>
     (\<exists>ws p. w = ws @ p \<and> list_all json_space ws \<and>
       (\<forall>rest j n. delim rest \<longrightarrow>
          solid (p @ rest) \<and>
          (\<exists>t. ParseToken (at j (p @ rest)) = (t, at j (p @ rest)) \<and>
             ttype t \<in> {NULL_TOKEN, BOOL_TRUE, BOOL_FALSE, NUMBER, STRING} \<and>
             tlength t = length p \<and> build_node n t (at j (p @ rest)) = Some (leave v t (at j (p @ rest))))))"

lemma reads_leafI:
  assumes "w = ws @ p" and "list_all json_space ws"
    and "\<And>rest j. delim rest \<Longrightarrow> solid (p @ rest)"
    and "\<And>rest j n. delim rest \<Longrightarrow>
      \<exists>t. ParseToken (at j (p @ rest)) = (t, at j (p @ rest)) \<and>
        ttype t \<in> {NULL_TOKEN, BOOL_TRUE, BOOL_FALSE, NUMBER, STRING} \<and>
        tlength t = length p \<and> build_node n t (at j (p @ rest)) = Some (leave v t (at j (p @ rest)))"
  shows "reads_leaf w v"
  unfolding reads_leaf_def using assms by blast

lemma reads_number:
  assumes "number_parts (map ucast sg) (map ucast i) (map ucast f) (map ucast e)"
    and "DecodeNumber (mk_Token NUMBER (map ucast (sg @ i @ f @ e)) (length (sg @ i @ f @ e))) = Some v"
  shows "reads_leaf (map ucast (replicate k 32 @ sg @ i @ f @ e :: cstring)) v"
proof -
  let ?s = "map ucast (sg @ i @ f @ e) :: wstring"
  show ?thesis
  proof (rule reads_leafI [of _ "map ucast (replicate k 32 :: cstring)" ?s])
    show "list_all json_space (map ucast (replicate k 32 :: cstring))"
      by (simp add: json_space_def list_all_iff)
    fix rest j n
    assume "delim rest"
    note e = delim_ends_number [OF this]
    show "solid (?s @ rest)"
      using ParseToken_number(2) [OF assms(1) e] by simp
    have "DecodeNumber (mk_Token NUMBER (?s @ rest) (length ?s)) = Some v"
      using assms(2) by (simp add: DecodeNumber_def)
    with ParseToken_number(1) [OF assms(1) e, of j]
    show "\<exists>t. ParseToken (at j (?s @ rest)) = (t, at j (?s @ rest)) \<and>
        ttype t \<in> {NULL_TOKEN, BOOL_TRUE, BOOL_FALSE, NUMBER, STRING} \<and>
        tlength t = length ?s \<and> build_node n t (at j (?s @ rest)) = Some (leave v t (at j (?s @ rest)))"
      by (simp add: build_node_def)
  qed simp
qed

lemma reads_fmt_d:
  assumes "- (2 ^ 63) \<le> i" "i < 2 ^ 63"
  shows "reads_leaf (map ucast (fmt_pad w (fmt_d i))) (BigInteger (word_of_int i))"
proof -
  obtain sg ds where d: "fmt_d i = sg @ ds" "sg \<in> {[], [45]}" "list_all isdigit ds" "ds \<noteq> []"
    "length ds = 1 \<or> hd ds \<noteq> 48" by (rule fmt_d_parts)
  have "number_parts (map ucast sg) (map ucast ds) (map ucast []) (map ucast [])"
    using d by (auto simp: number_parts_def list_all_wdigit frac_text_def exp_text_def hd_map ucast_48)
  moreover have "DecodeNumber (mk_Token NUMBER (map ucast (sg @ ds)) (length (sg @ ds))) = Some (BigInteger (word_of_int i))"
    by (simp add: DecodeNumber_def Let_def StringToInt64_def WideToASCII_ucast
        StringToNumber_fmt_d [OF assms, unfolded d(1)] flip: map_append)
  ultimately show ?thesis
    using reads_number [of sg ds "[]" "[]" _ "w - length (fmt_d i)"] d(1) by (simp add: fmt_pad_def)
qed

lemma number_text_parts:
  assumes "number_text s"
  obtains sg i f e where "s = sg @ i @ f @ e"
    "number_parts (map ucast sg) (map ucast i) (map ucast f) (map ucast e)"
    "list_all (\<lambda>b. unat b < 128) s"
proof -
  define sg where "sg = (if peek s = 45 then [45] else [] :: cstring)"
  define s1 where "s1 = (if peek s = 45 then tl s else s)"
  define i where "i = takeWhile isdigit s1"
  define s2 where "s2 = dropWhile isdigit s1"
  define fd where "fd = (if peek s2 = 46 then takeWhile isdigit (tl s2) else [])"
  define f where "f = (if peek s2 = 46 then 46 # fd else [])"
  define s3 where "s3 = (if peek s2 = 46 then dropWhile isdigit (tl s2) else s2)"
  define s4 where "s4 = (if s3 = [] then [] else if peek (tl s3) = 45 \<or> peek (tl s3) = 43 then tl (tl s3) else tl s3)"
  note n = assms [unfolded number_text_def Let_def, folded s1_def, folded i_def s2_def, folded fd_def s3_def, folded s4_def]
  have s: "s = sg @ s1" by (cases s) (auto simp: sg_def s1_def)
  have s1: "s1 = i @ s2" by (simp add: i_def s2_def)
  have s2: "s2 = f @ s3" by (cases s2) (auto simp: f_def fd_def s3_def)
  have d: "list_all isdigit i" "list_all isdigit fd"
    by (auto simp: i_def fd_def list_all_iff dest: set_takeWhileD)
  have e: "s3 = [] \<or> (\<exists>c g. s3 = c # g @ s4 \<and> c \<in> {101, 69} \<and> g \<in> {[], [45], [43]} \<and> s4 \<noteq> [] \<and> list_all isdigit s4)"
  proof (cases s3)
    case (Cons c r)
    with n have "c \<in> {101, 69}" "s4 \<noteq> []" "list_all isdigit s4" by auto
    moreover have "\<exists>g. r = g @ s4 \<and> g \<in> {[], [45], [43]}"
      using Cons by (cases r) (auto simp: s4_def)
    ultimately show ?thesis using Cons by auto
  qed simp
  have "number_parts (map ucast sg) (map ucast i) (map ucast f) (map ucast s3)"
    unfolding number_parts_def
  proof (intro conjI)
    show "map ucast sg \<in> {[], [45 :: wchar]}" by (simp add: sg_def)
    show "map ucast i \<noteq> ([] :: wstring)" using n by simp
    show "list_all wdigit (map ucast i)" using d by (simp add: list_all_wdigit)
    show "length (map ucast i :: wstring) = 1 \<or> hd (map ucast i) \<noteq> (48 :: wchar)"
      using n by (cases i) (auto simp: ucast_48)
    show "frac_text (map ucast f)"
      using n d by (auto simp: frac_text_def f_def list_all_wdigit)
    show "exp_text (map ucast s3)"
    proof (cases "s3 = []")
      case False
      with e obtain c g where "s3 = c # g @ s4" "c \<in> {101, 69}" "g \<in> {[], [45], [43]}" "s4 \<noteq> []" "list_all isdigit s4"
        by blast
      then show ?thesis
        unfolding exp_text_def
        by (intro disjI2 exI [of _ "ucast c"] exI [of _ "map ucast g"] exI [of _ "map ucast s4"])
          (auto simp: list_all_wdigit)
    qed (simp add: exp_text_def)
  qed
  moreover have "list_all (\<lambda>b. unat b < 128) s"
  proof -
    have "list_all (\<lambda>b. unat b < 128) i" "list_all (\<lambda>b. unat b < 128) fd"
      using d by (auto simp: list_all_iff isdigit_ascii)
    moreover have "list_all (\<lambda>b. unat b < 128) s3"
      using e by (auto simp: list_all_iff isdigit_ascii)
    moreover have "list_all (\<lambda>b. unat b < 128) sg" by (simp add: sg_def)
    ultimately have "list_all (\<lambda>b. unat b < 128) (sg @ i @ f @ s3)" by (simp add: f_def)
    then show ?thesis using s s1 s2 by simp
  qed
  ultimately show ?thesis using that [of sg i f s3] s s1 s2 by simp
qed

lemma reads_real:
  assumes "real_ok r"
  shows "reads_leaf (map ucast (json_real r)) (Real r)" and "list_all (\<lambda>b. unat b < 128) (json_real r)"
proof -
  obtain sg i f e where p: "json_real r = sg @ i @ f @ e"
    "number_parts (map ucast sg) (map ucast i) (map ucast f) (map ucast e)"
    and a: "list_all (\<lambda>b. unat b < 128) (json_real r)"
    using number_text_parts [of "json_real r"] assms unfolding real_ok_def by blast
  show "list_all (\<lambda>b. unat b < 128) (json_real r)" by (rule a)
  have "json_real r \<noteq> []" using p by (auto simp: number_parts_def)
  moreover obtain x where "StringToInt64 (json_real r) = (False, x)"
    using assms by (cases "StringToInt64 (json_real r)") (auto simp: real_ok_def)
  ultimately have "DecodeNumber (mk_Token NUMBER (map ucast (json_real r)) (length (json_real r))) = Some (Real r)"
    using assms by (simp add: DecodeNumber_def Let_def WideToASCII_ucast StringToDouble_def real_ok_def)
  with reads_number [OF p(2), of "Real r" 0] p(1) show "reads_leaf (map ucast (json_real r)) (Real r)"
    by simp
qed

lemma reads_string:
  assumes "utf8_ok s" "quotable (UTF8ToWide s)"
  shows "reads_leaf (34 # esc_text (UTF8ToWide s) @ [34]) (String s)"
proof (rule reads_leafI [of _ "[]" "34 # esc_text (UTF8ToWide s) @ [34]"])
  fix rest j n
  show "solid ((34 # esc_text (UTF8ToWide s) @ [34]) @ rest)" by (simp add: solid_def json_space_def)
  show "\<exists>t. ParseToken (at j ((34 # esc_text (UTF8ToWide s) @ [34]) @ rest)) =
         (t, at j ((34 # esc_text (UTF8ToWide s) @ [34]) @ rest)) \<and>
       ttype t \<in> {NULL_TOKEN, BOOL_TRUE, BOOL_FALSE, NUMBER, STRING} \<and>
       tlength t = length (34 # esc_text (UTF8ToWide s) @ [34]) \<and>
       build_node n t (at j ((34 # esc_text (UTF8ToWide s) @ [34]) @ rest)) =
         Some (leave (String s) t (at j ((34 # esc_text (UTF8ToWide s) @ [34]) @ rest)))"
    using ParseToken_string(1) [OF assms(2), of rest j] ParseToken_string(2) [OF assms(2), of rest]
    by (simp add: build_node_def WideToUTF8_UTF8ToWide [OF assms(1)])
qed simp_all

lemma reads_word:
  "reads_leaf (wstr ''null'') Null" "reads_leaf (wstr ''true'') (Boolean True)"
  "reads_leaf (wstr ''false'') (Boolean False)"
proof -
  show "reads_leaf (wstr ''null'') Null"
    by (rule reads_leafI [of _ "[]" "wstr ''null''"], simp_all only: ParseToken_words)
      (simp_all add: solid_def json_space_def build_node_def)
  show "reads_leaf (wstr ''true'') (Boolean True)"
    by (rule reads_leafI [of _ "[]" "wstr ''true''"], simp_all only: ParseToken_words)
      (simp_all add: solid_def json_space_def build_node_def)
  show "reads_leaf (wstr ''false'') (Boolean False)"
    by (rule reads_leafI [of _ "[]" "wstr ''false''"], simp_all only: ParseToken_words)
      (simp_all add: solid_def json_space_def build_node_def)
qed

section \<open>Wide text\<close>

lemma U_ascii: "list_all (\<lambda>b. unat b < 128) a \<Longrightarrow> UTF8ToWide (a @ b) = map ucast a @ UTF8ToWide b"
  by (simp add: UTF8ToWide_append utf8_ok_ascii UTF8ToWide_ascii)

lemma U_Cons: "unat b < 128 \<Longrightarrow> UTF8ToWide (b # s) = ucast b # UTF8ToWide s"
  using U_ascii [of "[b]" s] by simp

lemma U_Nil: "UTF8ToWide [] = []"
  by (simp add: UTF8ToWide_ascii)

lemma ascii_key:
  assumes "list_all (\<lambda>c. unat c < 128) key"
  shows "utf8_ok (esc_text (WideToASCII key))" and "UTF8ToWide (esc_text (WideToASCII key)) = esc_text key"
    and "UTF8ToWide (WideToUTF8 key) = key"
proof -
  have k: "list_all (\<lambda>b. unat b < 128) (WideToASCII key)" "map ucast (WideToASCII key) = key"
    using assms by (induction key) (auto simp: WideToASCII_def word_nat intro: unat_inject)
  note u = utf8_ok_ascii [OF k(1)] UTF8ToWide_ascii [OF k(1)]
  show "utf8_ok (esc_text (WideToASCII key))" "UTF8ToWide (esc_text (WideToASCII key)) = esc_text key"
    using esc_UTF8ToWide [OF u(1)] u(2) k(2) by simp_all
  show "UTF8ToWide (WideToUTF8 key) = key"
    using wide_ok_UTF8ToWide [of "WideToASCII key"] u(2) k(2) by (simp add: UTF8ToWide_WideToUTF8)
qed

lemma fmt_pad_ascii: "list_all (\<lambda>b. unat b < 128) (fmt_pad w (fmt_d i))"
proof -
  obtain sg ds where "fmt_d i = sg @ ds" "sg \<in> {[], [45]}" "list_all isdigit ds" by (rule fmt_d_parts)
  then show ?thesis by (auto simp: fmt_pad_def list_all_iff isdigit_ascii)
qed

lemma fmt_pad_0: "fmt_pad 0 s = s"
  by (simp add: fmt_pad_def)

lemma json_norm_ints:
  "json_norm (CharInteger k) = BigInteger (word_of_int (sint k))"
  "json_norm (ShortInteger h) = BigInteger (word_of_int (sint h))"
  "json_norm (Integer m) = BigInteger (word_of_int (sint m))"
  "json_norm (BigInteger l) = BigInteger (word_of_int (sint l))"
  by (simp_all only: json_norm.simps scast_eq word_of_int_sint)

lemma leaf_reads:
  assumes "json_ok v" "\<not> is_container v"
  shows "utf8_ok (leaf_text v)" and "reads_leaf (UTF8ToWide (leaf_text v)) (json_norm v)"
proof -
  have i: "utf8_ok (fmt_pad w (fmt_d k))" "UTF8ToWide (fmt_pad w (fmt_d k)) = map ucast (fmt_pad w (fmt_d k))" for w k
    using fmt_pad_ascii [of w k] by (simp_all add: utf8_ok_ascii UTF8ToWide_ascii)
  have "utf8_ok (leaf_text v) \<and> reads_leaf (UTF8ToWide (leaf_text v)) (json_norm v)"
  proof (cases v)
    case Null
    then show ?thesis using reads_word(1) by (simp add: leaf_text_def utf8_ok_ascii UTF8ToWide_ascii)
  next
    case (Boolean b)
    then show ?thesis using reads_word(2,3)
      by (cases b) (simp_all add: leaf_text_def utf8_ok_ascii UTF8ToWide_ascii)
  next
    case (CharInteger k)
    then show ?thesis
      unfolding leaf_text_def CharInteger Value.case json_norm_ints
      using i [of 1 "sint k"] reads_fmt_d [OF sint_8_range, of 1 k] by (simp only: simp_thms)
  next
    case (ShortInteger k)
    then show ?thesis
      unfolding leaf_text_def ShortInteger Value.case json_norm_ints
      using i [of 2 "sint k"] reads_fmt_d [OF sint_16_range, of 2 k] by (simp only: simp_thms)
  next
    case (Integer k)
    then show ?thesis
      unfolding leaf_text_def Integer Value.case json_norm_ints
      using i [of 0 "sint k", unfolded fmt_pad_0] reads_fmt_d [OF sint_32_range, of 0 k, unfolded fmt_pad_0] by (simp only: simp_thms)
  next
    case (BigInteger k)
    then show ?thesis
      unfolding leaf_text_def BigInteger Value.case json_norm_ints
      using i [of 0 "sint k", unfolded fmt_pad_0] reads_fmt_d [OF sint_range_64, of 0 k, unfolded fmt_pad_0] by (simp only: simp_thms)
  next
    case (Real r)
    then show ?thesis using assms reads_real [of r] by (simp add: leaf_text_def utf8_ok_ascii UTF8ToWide_ascii)
  next
    case (String s)
    with assms have s: "utf8_ok s" "quotable (UTF8ToWide s)" by simp_all
    have "UTF8ToWide ([34] @ esc_text s @ [34]) = 34 # esc_text (UTF8ToWide s) @ [34]"
      using esc_UTF8ToWide [OF s(1)] by (simp add: U_Cons U_Nil UTF8ToWide_append)
    moreover have "utf8_ok ([34] @ esc_text s @ [34])"
      using esc_UTF8ToWide [OF s(1)] by (intro utf8_ok_append) (simp_all add: utf8_ok_ascii)
    ultimately show ?thesis
      using String reads_string [OF s] by (simp add: leaf_text_def)
  qed (use assms in \<open>simp_all add: is_container_def\<close>)
  then show "utf8_ok (leaf_text v)" "reads_leaf (UTF8ToWide (leaf_text v)) (json_norm v)" by auto
qed

lemma sp_ascii [simp]:
  "list_all (\<lambda>b. unat b < 128) (sp p)" "list_all (\<lambda>b. unat b < 128) (nl p)" "list_all (\<lambda>b. unat b < 128) (ind p n)"
  by (simp_all add: list_all_iff)

lemma utf8_ok_spaces [simp]: "utf8_ok (replicate n 32)"
  by (rule utf8_ok_ascii) (simp add: list_all_iff)

lemma entry_utf8:
  "list_all (\<lambda>c. unat c < 128) key \<Longrightarrow> utf8_ok (json_text pretty (depth + 1) v) \<Longrightarrow>
   utf8_ok (entry_text pretty depth (key, v))"
  using ascii_key(1) [of key] by (auto simp del: append.simps intro!: utf8_ok_append intro: utf8_ok_ascii)

lemma json_text_utf8: "json_ok v \<Longrightarrow> utf8_ok (json_text pretty depth v)"
proof (induction v arbitrary: depth)
  case (List xs)
  have l: "utf8_ok (list_text pretty depth vs)" if "set vs \<subseteq> set xs" for vs
    using that
  proof (induction vs)
    case (Cons v vs)
    with List have "utf8_ok (json_text pretty depth v)" by (auto simp: list_all_iff)
    with Cons show ?case by (auto simp del: append.simps intro!: utf8_ok_append intro: utf8_ok_ascii)
  qed (simp add: utf8_ok.simps)
  have "utf8_ok (case xs of [] \<Rightarrow> [] | v # vs \<Rightarrow> json_text pretty depth v @ list_text pretty depth vs)"
    using List l [of "tl xs"] by (cases xs) (auto simp: utf8_ok.simps [of "[]"] intro!: utf8_ok_append)
  then show ?case
    by (auto simp del: append.simps intro!: utf8_ok_append intro: utf8_ok_ascii)
next
  case (Dictionary d)
  have e: "utf8_ok (entry_text pretty depth e)" if "e \<in> set d" for e
    using entry_utf8 [of "fst e" pretty depth "snd e"] Dictionary that by (cases e) (fastforce simp: list_all_iff)
  have l: "utf8_ok (dict_text pretty depth es)" if "set es \<subseteq> set d" for es
    using that
  proof (induction es)
    case (Cons v vs)
    with e have "utf8_ok (entry_text pretty depth v)" by auto
    with Cons show ?case by (auto simp del: append.simps intro!: utf8_ok_append intro: utf8_ok_ascii)
  qed (simp add: utf8_ok.simps)
  have "utf8_ok (case d of [] \<Rightarrow> [] | e # es \<Rightarrow> entry_text pretty depth e @ dict_text pretty depth es)"
    using e l [of "tl d"] by (cases d) (auto simp: utf8_ok.simps [of "[]"] intro!: utf8_ok_append)
  then show ?case
    by (auto simp del: append.simps intro!: utf8_ok_append intro: utf8_ok_ascii)
qed (simp_all add: leaf_reads is_container_def del: json_ok.simps)

section \<open>Reading back what was written\<close>

abbreviation wsp :: "bool \<Rightarrow> wstring" where
  "wsp pretty \<equiv> (if pretty then [32] else [])"

abbreviation wnl :: "bool \<Rightarrow> wstring" where
  "wnl pretty \<equiv> (if pretty then [10] else [])"

abbreviation wind :: "bool \<Rightarrow> nat \<Rightarrow> wstring" where
  "wind pretty n \<equiv> (if pretty then replicate (n * 3) 32 else [])"

lemma U_sp: "UTF8ToWide (sp p @ s) = wsp p @ UTF8ToWide s" "UTF8ToWide (nl p @ s) = wnl p @ UTF8ToWide s"
  "UTF8ToWide (ind p n @ s) = wind p n @ UTF8ToWide s"
  by (simp_all add: U_ascii list_all_iff)

lemma spaces_wsp [simp]:
  "list_all json_space (wsp p)" "list_all json_space (wnl p)" "list_all json_space (wind p n)"
  by (simp_all add: json_space_def list_all_iff)

text \<open>
  \<open>w\<close> is text of the value \<open>v\<close>: after leading space it is one value, which the reader
  builds from any state with enough levels left, stopping where the text ends.
\<close>

definition reads_at :: "wstring \<Rightarrow> Value \<Rightarrow> wstring \<Rightarrow> JsonValueSerializer \<Rightarrow> bool" where
  "reads_at p v rest j \<longleftrightarrow>
     solid (p @ rest) \<and>
     (\<exists>t. ParseToken (at j (p @ rest)) = (t, at j (p @ rest)) \<and> ttype t \<noteq> ARRAY_END) \<and>
     (nest_ok (kStackLimit - stack_depth j) v \<longrightarrow>
       (\<exists>n. \<forall>r. (r \<longrightarrow> is_container v) \<longrightarrow>
          BuildValue n r (at j (p @ rest)) = Some (Some (json_norm v), at j rest)))"

definition reads :: "wstring \<Rightarrow> Value \<Rightarrow> bool" where
  "reads w v \<longleftrightarrow>
     (\<exists>ws p. w = ws @ p \<and> list_all json_space ws \<and>
       (\<forall>rest j. delim rest \<or> is_container v \<longrightarrow> reads_at p v rest j))"

lemma all_ge_Suc: "(\<forall>m\<ge>Suc n. P m) \<longleftrightarrow> (\<forall>m\<ge>n. P (Suc m))"
  by (metis Suc_le_D Suc_le_mono)

lemma readsE:
  assumes "reads w v" and "delim rest \<or> is_container v" and "nest_ok (kStackLimit - stack_depth j) v"
  obtains ws p t n where "w = ws @ p" "list_all json_space ws" "solid (p @ rest)"
    "ParseToken (at j (p @ rest)) = (t, at j (p @ rest))" "ttype t \<noteq> ARRAY_END"
    "\<forall>r. (r \<longrightarrow> is_container v) \<longrightarrow> BuildValue n r (at j (p @ rest)) = Some (Some (json_norm v), at j rest)"
proof -
  from assms(1,2) obtain ws p where w: "w = ws @ p" "list_all json_space ws" and "reads_at p v rest j"
    unfolding reads_def by blast
  from this(3) assms(3) obtain t n where "solid (p @ rest)"
    "ParseToken (at j (p @ rest)) = (t, at j (p @ rest))" "ttype t \<noteq> ARRAY_END"
    "\<forall>r. (r \<longrightarrow> is_container v) \<longrightarrow> BuildValue n r (at j (p @ rest)) = Some (Some (json_norm v), at j rest)"
    unfolding reads_at_def by blast
  with w show ?thesis using that by blast
qed

lemma leave_at:
  "tlength t = length p \<Longrightarrow> leave v t (at (enter j) (p @ rest)) = (Some v, at j rest)"
  by (simp add: leave_def Let_def advance_def enter_def)

lemma enter_at: "enter (at j p) = at (enter j) p"
  by (simp add: enter_def)

lemma nest_ok_depth: "nest_ok (kStackLimit - stack_depth j) v \<Longrightarrow> stack_depth j < kStackLimit"
  by (cases "kStackLimit - stack_depth j") auto

lemma reads_of_leaf:
  assumes "reads_leaf w (json_norm v)" "\<not> is_container v"
  shows "reads w v"
proof -
  from assms(1) obtain ws p where w: "w = ws @ p" "list_all json_space ws"
    and p: "delim rest \<Longrightarrow> solid (p @ rest)"
    and t: "delim rest \<Longrightarrow>
      \<exists>t. ParseToken (at j (p @ rest)) = (t, at j (p @ rest)) \<and>
        ttype t \<in> {NULL_TOKEN, BOOL_TRUE, BOOL_FALSE, NUMBER, STRING} \<and> tlength t = length p \<and>
        build_node n t (at j (p @ rest)) = Some (leave (json_norm v) t (at j (p @ rest)))" for rest j n
    unfolding reads_leaf_def by blast
  have "\<exists>n. \<forall>r. (r \<longrightarrow> is_container v) \<longrightarrow>
      BuildValue n r (at j (p @ rest)) = Some (Some (json_norm v), at j rest)"
    if dl: "delim rest" and nst: "nest_ok (kStackLimit - stack_depth j) v" for rest j
  proof -
    obtain t where "ParseToken (at (enter j) (p @ rest)) = (t, at (enter j) (p @ rest))" "tlength t = length p"
      "build_node 0 t (at (enter j) (p @ rest)) = Some (leave (json_norm v) t (at (enter j) (p @ rest)))"
      using t [OF dl, of "enter j" 0] by blast
    with BuildValue_step [of "at j (p @ rest)" t "at (enter j) (p @ rest)" 0] assms(2) nest_ok_depth [OF nst]
    show ?thesis
      by (intro exI [of _ "Suc 0"]) (auto simp: enter_at leave_at simp del: BuildValue.simps)
  qed
  moreover have "\<exists>t. ParseToken (at j (p @ rest)) = (t, at j (p @ rest)) \<and> ttype t \<noteq> ARRAY_END"
    if "delim rest" for rest j
    using t [OF that, of j 0] by auto
  ultimately show ?thesis
    unfolding reads_def reads_at_def using w p assms(2) by blast
qed

subsection \<open>Lists\<close>

text \<open>What \<open>BuildArray\<close> does after an element.\<close>

definition after_element :: "nat \<Rightarrow> Value list \<Rightarrow> JsonValueSerializer \<Rightarrow>
    ((Value list \<times> Token) option \<times> JsonValueSerializer) option" where
  "after_element n xs j =
     (case ParseToken j of (token, j) \<Rightarrow>
             if ttype token = LIST_SEPARATOR then
               (case ParseToken (advance (tlength token) j) of (token, j) \<Rightarrow>
                  if ttype token = ARRAY_END then
                    (if \<not> allow_trailing_comma j
                     then Some (None, SetErrorCode j TRAILING_COMMA (json_pos j))
                     else Some (Some (xs, token), j))
                  else BuildArray n token xs j)
             else if ttype token \<noteq> ARRAY_END then Some (None, j)
             else BuildArray n token xs j)"

lemma BuildArray_element:
  "ttype t \<noteq> ARRAY_END \<Longrightarrow> BuildValue n False j = Some (Some v, k) \<Longrightarrow>
   BuildArray (Suc n) t xs j = after_element n (xs @ [v]) k"
  by (simp add: after_element_def List_Append_def Let_def)

lemma after_element_end:
  assumes "list_all json_space ws"
  shows "after_element (Suc n) xs (at j (ws @ 93 # rest)) =
    Some (Some (xs, mk_Token ARRAY_END (93 # rest) 1), at j (93 # rest))"
  using ParseToken_at [OF assms solid_char, of 93 rest j] by (simp add: after_element_def ParseToken_punct)

lemma advance_at: "advance (Suc 0) (at j (c # p)) = at j p"
  by (simp add: advance_def)

lemma after_element_comma:
  assumes "list_all json_space ws" "reads w v" "delim rest"
    and "nest_ok (kStackLimit - stack_depth j) v"
  obtains n where "\<And>m xs. n \<le> m \<Longrightarrow>
    after_element (Suc m) xs (at j (44 # ws @ w @ rest)) = after_element m (xs @ [json_norm v]) (at j rest)"
proof -
  obtain ws' p t n where w: "w = ws' @ p" "list_all json_space ws'" and s: "solid (p @ rest)"
    and t: "ParseToken (at j (p @ rest)) = (t, at j (p @ rest))" "ttype t \<noteq> ARRAY_END"
    and N: "\<forall>r. (r \<longrightarrow> is_container v) \<longrightarrow> BuildValue n r (at j (p @ rest)) = Some (Some (json_norm v), at j rest)"
    using readsE [OF assms(2) disjI1 [OF assms(3)] assms(4)] .
  have n: "BuildValue n False (at j (p @ rest)) = Some (Some (json_norm v), at j rest)" using N by simp
  have "ParseToken (at j (ws @ w @ rest)) = (t, at j (p @ rest))"
    using ParseToken_at [of "ws @ ws'" "p @ rest" j] assms(1) w s t by simp
  then have "after_element (Suc m) xs (at j (44 # ws @ w @ rest)) = after_element m (xs @ [json_norm v]) (at j rest)"
    if "n \<le> m" for m xs
    using BuildArray_element [OF t(2) BuildValue_mono [OF n that], of xs] t(2)
    by (simp add: after_element_def [of "Suc m"] ParseToken_punct advance_at)
  then show ?thesis by (rule that)
qed

lemma U_list_text:
  assumes "list_all json_ok vs"
  shows "UTF8ToWide (list_text pretty depth vs @ s) =
    concat (map (\<lambda>v. 44 # wsp pretty @ UTF8ToWide (json_text pretty depth v)) vs) @ UTF8ToWide s"
  using assms by (induction vs) (simp_all add: U_Cons U_sp UTF8ToWide_append json_text_utf8)

lemma read_elements:
  assumes "\<forall>v\<in>set vs. reads (W v) v \<and> nest_ok (kStackLimit - stack_depth j) v"
    and "list_all json_space ws" "list_all json_space ws'" "delim (ws' @ [93])"
  shows "\<exists>n. \<forall>m\<ge>n. \<forall>xs. after_element m xs (at j (concat (map (\<lambda>v. 44 # ws @ W v) vs) @ ws' @ 93 # rest)) =
    Some (Some (xs @ map json_norm vs, mk_Token ARRAY_END (93 # rest) 1), at j (93 # rest))"
  using assms(1)
proof (induction vs)
  case Nil
  show ?case
    using after_element_end [OF assms(3)] by (intro exI [of _ "Suc 0"]) (simp add: all_ge_Suc)
next
  case (Cons v vs)
  let ?rest = "concat (map (\<lambda>v. 44 # ws @ W v) vs) @ ws' @ 93 # rest"
  obtain n where n: "\<forall>m\<ge>n. \<forall>xs. after_element m xs (at j ?rest) =
      Some (Some (xs @ map json_norm vs, mk_Token ARRAY_END (93 # rest) 1), at j (93 # rest))"
    using Cons by auto
  have "delim ?rest" using assms(4) by (cases vs; cases ws') (auto simp: delim_def)
  then obtain n' where "\<And>m xs. n' \<le> m \<Longrightarrow>
    after_element (Suc m) xs (at j (44 # ws @ W v @ ?rest)) = after_element m (xs @ [json_norm v]) (at j ?rest)"
    using after_element_comma [OF assms(2), of "W v" v ?rest j] Cons.prems by auto
  with n have "\<forall>m\<ge>max n n'. \<forall>xs. after_element (Suc m) xs (at j (44 # ws @ W v @ ?rest)) =
      Some (Some (xs @ map json_norm (v # vs), mk_Token ARRAY_END (93 # rest) 1), at j (93 # rest))"
    by simp
  then show ?case
    by (intro exI [of _ "Suc (max n n')"]) (simp add: all_ge_Suc)
qed

lemma nest_ok_enter:
  "nest_ok (kStackLimit - stack_depth j) (List xs) \<Longrightarrow> \<forall>x\<in>set xs. nest_ok (kStackLimit - stack_depth (enter j)) x"
  "nest_ok (kStackLimit - stack_depth j) (Dictionary d) \<Longrightarrow>
   \<forall>e\<in>set d. nest_ok (kStackLimit - stack_depth (enter j)) (snd e)"
  by (cases "kStackLimit - stack_depth j"; auto simp: list_all_iff diff_Suc split: nat.splits)+

lemma BuildValue_array:
  assumes "ParseToken (at (enter j) p) = (t, k)" and "BuildArray n t [] k = Some (Some (xs, t'), at (enter j) (93 # rest))"
    and "tlength t' = 1" and "stack_depth j < kStackLimit"
  shows "BuildValue (Suc n) r (at j (91 # p)) = Some (Some (List xs), at j rest)"
proof -
  have "ParseToken (enter (at j (91 # p))) = (mk_Token ARRAY_BEGIN (91 # p) 1, at (enter j) (91 # p))"
    by (simp add: enter_at ParseToken_punct)
  then show ?thesis
    using assms leave_at [of t' "[93]" "List xs" rest j]
    by (simp add: BuildValue_step build_node_def advance_at del: BuildValue.simps)
qed

lemma reads_container:
  assumes "c = 91 \<or> c = 123" and "is_container v"
    and "\<And>j rest. nest_ok (kStackLimit - stack_depth j) v \<Longrightarrow>
      \<exists>n. \<forall>r. BuildValue n r (at j (c # q @ rest)) = Some (Some (json_norm v), at j rest)"
  shows "reads (c # q) v"
proof -
  have "reads_at (c # q) v rest j" for rest j
    unfolding reads_at_def
  proof (intro conjI impI)
    show "solid ((c # q) @ rest)" using assms(1) by (auto simp: solid_char)
    show "\<exists>t. ParseToken (at j ((c # q) @ rest)) = (t, at j ((c # q) @ rest)) \<and> ttype t \<noteq> ARRAY_END"
      using assms(1) by (auto simp: ParseToken_punct)
    assume "nest_ok (kStackLimit - stack_depth j) v"
    from assms(3) [OF this] show "\<exists>n. \<forall>r. (r \<longrightarrow> is_container v) \<longrightarrow>
        BuildValue n r (at j ((c # q) @ rest)) = Some (Some (json_norm v), at j rest)"
      unfolding append_Cons by blast
  qed
  then show ?thesis
    unfolding reads_def by - (rule exI [of _ "[]"], rule exI [of _ "c # q"], simp)
qed

lemma reads_list:
  assumes "\<forall>v\<in>set xs. reads (UTF8ToWide (json_text pretty depth v)) v" and "json_ok (List xs)"
  shows "reads (UTF8ToWide (json_text pretty depth (List xs))) (List xs)"
proof -
  let ?W = "\<lambda>v. UTF8ToWide (json_text pretty depth v)"
  define body where "body = (case xs of [] \<Rightarrow> [] | v # vs \<Rightarrow> ?W v @ concat (map (\<lambda>v. 44 # wsp pretty @ ?W v) vs))"
  have w: "?W (List xs) = 91 # wsp pretty @ body @ wsp pretty @ [93]"
    using assms(2) by (cases xs)
      (simp_all add: body_def U_Cons U_Nil U_sp UTF8ToWide_append json_text_utf8 U_list_text)
  have B: "\<exists>n. \<forall>r. BuildValue n r (at j (91 # wsp pretty @ body @ wsp pretty @ 93 # rest)) =
      Some (Some (List (map json_norm xs)), at j rest)"
    if nst: "nest_ok (kStackLimit - stack_depth j) (List xs)" for j rest
  proof (cases xs)
    case Nil
    have "ParseToken (at (enter j) (wsp pretty @ body @ wsp pretty @ 93 # rest)) =
        (mk_Token ARRAY_END (93 # rest) 1, at (enter j) (93 # rest))"
      using ParseToken_at [OF _ solid_char, of "wsp pretty @ wsp pretty" 93 rest "enter j"]
      by (simp add: body_def Nil ParseToken_punct)
    from BuildValue_array [OF this, of "Suc 0" "[]" _ rest] nest_ok_depth [OF nst] show ?thesis
      by (intro exI [of _ "Suc (Suc 0)"]) (simp add: Nil)
  next
    case (Cons v vs)
    define T where "T = concat (map (\<lambda>v. 44 # wsp pretty @ ?W v) vs) @ wsp pretty @ 93 # rest"
    have nst': "\<forall>x\<in>set (v # vs). nest_ok (kStackLimit - stack_depth (enter j)) x"
      and rd: "\<forall>x\<in>set (v # vs). reads (?W x) x"
      using nest_ok_enter(1) [OF nst] assms(1) Cons by auto
    have "delim T" by (cases vs; cases pretty) (auto simp: delim_def T_def)
    moreover have "reads (?W v) v" "nest_ok (kStackLimit - stack_depth (enter j)) v" using rd nst' by auto
    ultimately obtain ws p t n where v: "?W v = ws @ p" "list_all json_space ws" "solid (p @ T)"
      "ParseToken (at (enter j) (p @ T)) = (t, at (enter j) (p @ T))" "ttype t \<noteq> ARRAY_END"
      and n: "\<forall>r. (r \<longrightarrow> is_container v) \<longrightarrow>
        BuildValue n r (at (enter j) (p @ T)) = Some (Some (json_norm v), at (enter j) T)"
      using readsE [OF _ disjI1] by blast
    have dl: "delim (wsp pretty @ 93 # q)" for q by (cases pretty) (simp_all add: delim_def)
    obtain n' where n': "\<forall>m\<ge>n'. \<forall>xs. after_element m xs (at (enter j) T) =
        Some (Some (xs @ map json_norm vs, mk_Token ARRAY_END (93 # rest) 1), at (enter j) (93 # rest))"
      unfolding T_def
      using read_elements [of vs ?W "enter j" "wsp pretty" "wsp pretty" rest] rd nst' dl
      by auto
    have t: "ParseToken (at (enter j) (wsp pretty @ body @ wsp pretty @ 93 # rest)) = (t, at (enter j) (p @ T))"
      using ParseToken_at [of "wsp pretty @ ws" "p @ T" "enter j"] v by (simp add: body_def Cons T_def)
    have "BuildValue (max n n') False (at (enter j) (p @ T)) = Some (Some (json_norm v), at (enter j) T)"
      using n BuildValue_mono [of n False] by simp
    then have "BuildArray (Suc (max n n')) t [] (at (enter j) (p @ T)) =
        Some (Some (map json_norm xs, mk_Token ARRAY_END (93 # rest) 1), at (enter j) (93 # rest))"
      using BuildArray_element [OF v(5)] n' Cons by simp
    from BuildValue_array [OF t this] nest_ok_depth [OF nst] show ?thesis
      by (intro exI [of _ "Suc (Suc (max n n'))"]) simp
  qed
  show ?thesis
    unfolding w
  proof (rule reads_container)
    show "\<exists>n. \<forall>r. BuildValue n r (at j (91 # (wsp pretty @ body @ wsp pretty @ [93]) @ rest)) =
        Some (Some (json_norm (List xs)), at j rest)"
      if "nest_ok (kStackLimit - stack_depth j) (List xs)" for j rest
      using B [OF that, of rest] by simp
  qed (simp_all add: is_container_def)
qed

subsection \<open>Dictionaries\<close>

text \<open>What \<open>BuildObject\<close> does after a member.\<close>

definition after_member :: "nat \<Rightarrow> dict \<Rightarrow> JsonValueSerializer \<Rightarrow>
    ((dict \<times> Token) option \<times> JsonValueSerializer) option" where
  "after_member n d j =
     (case ParseToken j of (token, j) \<Rightarrow>
                      if ttype token = LIST_SEPARATOR then
                        (case ParseToken (advance (tlength token) j) of (token, j) \<Rightarrow>
                           if ttype token = OBJECT_END then
                             (if \<not> allow_trailing_comma j
                              then Some (None, SetErrorCode j TRAILING_COMMA (json_pos j))
                              else Some (Some (d, token), j))
                           else BuildObject n token d j)
                      else if ttype token \<noteq> OBJECT_END then Some (None, j)
                      else BuildObject n token d j)"

definition wide_entry :: "wstring \<Rightarrow> wstring \<Rightarrow> wstring \<Rightarrow> wstring" where
  "wide_entry key ws w = 34 # esc_text key @ 34 # 58 # ws @ w"

lemma advance_append: "advance n (at j (p @ q)) = at j q" if "n = length p"
  using that by (simp add: advance_def)

lemma BuildObject_member:
  assumes "quotable key" "list_all (\<lambda>c. unat c < 128) key" "list_all json_space ws" "reads w v" "delim rest"
    and "nest_ok (kStackLimit - stack_depth j) v"
  obtains t n where "ParseToken (at j (wide_entry key ws w @ rest)) = (t, at j (wide_entry key ws w @ rest))"
    "ttype t = STRING"
    "\<And>m d. n \<le> m \<Longrightarrow> BuildObject (Suc m) t d (at j (wide_entry key ws w @ rest)) =
      after_member m (SetWithoutPathExpansion d key (Some (json_norm v))) (at j rest)"
proof -
  define q where "q = 58 # ws @ w @ rest"
  define t where "t = mk_Token STRING (34 # esc_text key @ 34 # q) (length (esc_text key) + 2)"
  have p: "wide_entry key ws w @ rest = 34 # esc_text key @ 34 # q" by (simp add: wide_entry_def q_def)
  have t: "ParseToken (at j (34 # esc_text key @ 34 # q)) = (t, at j (34 # esc_text key @ 34 # q))"
    and dt: "DecodeString t = Some (String (WideToUTF8 key))"
    unfolding t_def by (rule ParseToken_string [OF assms(1)])+
  obtain ws' p' t' n where w: "w = ws' @ p'" "list_all json_space ws'" and s: "solid (p' @ rest)"
    and t': "ParseToken (at j (p' @ rest)) = (t', at j (p' @ rest))"
    and N: "\<forall>r. (r \<longrightarrow> is_container v) \<longrightarrow> BuildValue n r (at j (p' @ rest)) = Some (Some (json_norm v), at j rest)"
    by (rule readsE [OF assms(4) disjI1 [OF assms(5)] assms(6)])
  have n: "BuildValue n False (at j (p' @ rest)) = Some (Some (json_norm v), at j rest)" using N by simp
  have e: "Option.bind (DecodeString t) GetAsStringW = Some key"
    using dt ascii_key(3) [OF assms(2)] by (simp add: GetAsStringW_def)
  have a: "advance (tlength t) (at j (34 # esc_text key @ 34 # q)) = at j q"
    using advance_append [of _ "34 # esc_text key @ [34]" q j] by (simp add: t_def)
  have c: "ParseToken (at j (ws @ w @ rest)) = (t', at j (p' @ rest))"
    using ParseToken_at [of "ws @ ws'" "p' @ rest" j] assms(3) w s t' by simp
  have "BuildObject (Suc m) t d (at j (34 # esc_text key @ 34 # q)) =
      after_member m (SetWithoutPathExpansion d key (Some (json_norm v))) (at j rest)" if "n \<le> m" for m d
  proof -
    have "ttype t = STRING" by (simp add: t_def)
    then show ?thesis
      using BuildValue_mono [OF n that] e a c
      by (simp add: q_def ParseToken_punct advance_at after_member_def Let_def)
  qed
  then show ?thesis
    using that [of t n] t p by (simp add: t_def)
qed

lemma after_member_end:
  assumes "list_all json_space ws"
  shows "after_member (Suc n) d (at j (ws @ 125 # rest)) =
    Some (Some (d, mk_Token OBJECT_END (125 # rest) 1), at j (125 # rest))"
  using ParseToken_at [OF assms solid_char, of 125 rest j] by (simp add: after_member_def ParseToken_punct)

lemma solid_wide_entry: "solid (wide_entry key ws w @ rest)"
  by (simp add: wide_entry_def solid_char)

lemma after_member_comma:
  assumes "quotable key" "list_all (\<lambda>c. unat c < 128) key" "list_all json_space ws" "list_all json_space ws'"
    "reads w v" "delim rest" and "nest_ok (kStackLimit - stack_depth j) v"
  obtains n where "\<And>m d. n \<le> m \<Longrightarrow>
    after_member (Suc m) d (at j (44 # ws' @ wide_entry key ws w @ rest)) =
    after_member m (SetWithoutPathExpansion d key (Some (json_norm v))) (at j rest)"
proof -
  obtain t n where t: "ParseToken (at j (wide_entry key ws w @ rest)) = (t, at j (wide_entry key ws w @ rest))"
    "ttype t = STRING"
    and n: "\<And>m d. n \<le> m \<Longrightarrow> BuildObject (Suc m) t d (at j (wide_entry key ws w @ rest)) =
      after_member m (SetWithoutPathExpansion d key (Some (json_norm v))) (at j rest)"
    by (rule BuildObject_member [OF assms(1-3,5-7)]) auto
  have "ParseToken (at j (ws' @ wide_entry key ws w @ rest)) = (t, at j (wide_entry key ws w @ rest))"
    using ParseToken_at [OF assms(4) solid_wide_entry] t(1) by simp
  then have "after_member (Suc m) d (at j (44 # ws' @ wide_entry key ws w @ rest)) =
    after_member m (SetWithoutPathExpansion d key (Some (json_norm v))) (at j rest)" if "n \<le> m" for m d
    using n [OF that] t(2)
    by (simp add: after_member_def [of "Suc m"] ParseToken_punct advance_at del: BuildObject.simps)
  then show ?thesis by (rule that)
qed

abbreviation rebuild :: "dict \<Rightarrow> dict \<Rightarrow> dict" where
  "rebuild es d \<equiv> fold (\<lambda>e d. SetWithoutPathExpansion d (fst e) (Some (json_norm (snd e)))) es d"

lemma rebuild_sorted:
  "map_ok wstring_less (d @ es) \<Longrightarrow> rebuild es d = d @ map (\<lambda>e. (fst e, json_norm (snd e))) es"
proof (induction es arbitrary: d)
  case (Cons e es)
  obtain k v where e: "e = (k, v)" by (cases e)
  have "\<forall>x\<in>fst ` set d. wstring_less x k"
    using Cons.prems by (auto simp: map_ok_def sorted_wrt_append e)
  then have "SetWithoutPathExpansion d k (Some (json_norm v)) = d @ [(k, json_norm v)]"
    by (simp add: SetWithoutPathExpansion_def wkey.map_assign_last)
  moreover have "map_ok wstring_less ((d @ [(k, json_norm v)]) @ es)"
    using Cons.prems by (simp add: map_ok_def e)
  ultimately show ?case using Cons.IH e by simp
qed simp

definition member_ok :: "(wstring \<times> Value \<Rightarrow> wstring) \<Rightarrow> nat \<Rightarrow> wstring \<times> Value \<Rightarrow> bool" where
  "member_ok W k e \<longleftrightarrow> quotable (fst e) \<and> list_all (\<lambda>c. unat c < 128) (fst e) \<and>
     reads (W e) (snd e) \<and> nest_ok k (snd e)"

lemma read_members:
  assumes "\<forall>e\<in>set es. member_ok W (kStackLimit - stack_depth j) e"
    and "list_all json_space ws" "list_all json_space ws'" "list_all json_space ws2" "delim (ws2 @ [125])"
  shows "\<exists>n. \<forall>m\<ge>n. \<forall>d.
    after_member m d (at j (concat (map (\<lambda>e. 44 # ws' @ wide_entry (fst e) ws (W e)) es) @ ws2 @ 125 # rest)) =
    Some (Some (rebuild es d, mk_Token OBJECT_END (125 # rest) 1), at j (125 # rest))"
  using assms(1)
proof (induction es)
  case Nil
  show ?case
    using after_member_end [OF assms(4)] by (intro exI [of _ "Suc 0"]) (simp add: all_ge_Suc)
next
  case (Cons e es)
  define T where "T = concat (map (\<lambda>e. 44 # ws' @ wide_entry (fst e) ws (W e)) es) @ ws2 @ 125 # rest"
  obtain n where n: "\<forall>m\<ge>n. \<forall>d. after_member m d (at j T) =
      Some (Some (rebuild es d, mk_Token OBJECT_END (125 # rest) 1), at j (125 # rest))"
    using Cons unfolding T_def by auto
  have "delim T" using assms(5) by (cases es; cases ws2) (auto simp: delim_def T_def)
  then obtain n' where "\<And>m d. n' \<le> m \<Longrightarrow>
    after_member (Suc m) d (at j (44 # ws' @ wide_entry (fst e) ws (W e) @ T)) =
    after_member m (SetWithoutPathExpansion d (fst e) (Some (json_norm (snd e)))) (at j T)"
    using after_member_comma [OF _ _ assms(2,3), of "fst e" "W e" "snd e" T j] Cons.prems
    by (auto simp: member_ok_def)
  with n have "\<forall>m\<ge>max n n'. \<forall>d. after_member (Suc m) d (at j (44 # ws' @ wide_entry (fst e) ws (W e) @ T)) =
      Some (Some (rebuild (e # es) d, mk_Token OBJECT_END (125 # rest) 1), at j (125 # rest))"
    by simp
  then show ?case
    by (intro exI [of _ "Suc (max n n')"]) (simp add: all_ge_Suc T_def)
qed

lemma BuildValue_object:
  assumes "ParseToken (at (enter j) p) = (t, k)" and "BuildObject n t [] k = Some (Some (d, t'), at (enter j) (125 # rest))"
    and "tlength t' = 1" and "stack_depth j < kStackLimit"
  shows "BuildValue (Suc n) r (at j (123 # p)) = Some (Some (Dictionary d), at j rest)"
proof -
  have "ParseToken (enter (at j (123 # p))) = (mk_Token OBJECT_BEGIN (123 # p) 1, at (enter j) (123 # p))"
    by (simp add: enter_at ParseToken_punct)
  then show ?thesis
    using assms leave_at [of t' "[125]" "Dictionary d" rest j]
    by (simp add: BuildValue_step build_node_def advance_at del: BuildValue.simps)
qed

lemma U_entry:
  assumes "list_all (\<lambda>c. unat c < 128) (fst e)" "json_ok (snd e)"
  shows "UTF8ToWide (entry_text pretty depth e @ s) =
    wind pretty (depth + 1) @ wide_entry (fst e) (wsp pretty) (UTF8ToWide (json_text pretty (depth + 1) (snd e))) @ UTF8ToWide s"
  using ascii_key(1,2) [OF assms(1)] json_text_utf8 [OF assms(2)]
  by (cases e) (simp add: wide_entry_def U_Cons U_sp UTF8ToWide_append)

lemma U_dict_text:
  assumes "\<forall>e\<in>set es. list_all (\<lambda>c. unat c < 128) (fst e) \<and> json_ok (snd e)"
  shows "UTF8ToWide (dict_text pretty depth es @ s) =
    concat (map (\<lambda>e. 44 # (wnl pretty @ wind pretty (depth + 1)) @
      wide_entry (fst e) (wsp pretty) (UTF8ToWide (json_text pretty (depth + 1) (snd e)))) es) @ UTF8ToWide s"
  using assms
proof (induction es)
  case (Cons e es)
  then show ?case
    using U_entry [of e pretty depth "dict_text pretty depth es @ s"] by (simp add: U_Cons U_sp del: entry_text.simps)
qed simp

lemma reads_dict:
  assumes "\<forall>e\<in>set d. reads (UTF8ToWide (json_text pretty (depth + 1) (snd e))) (snd e)"
    and "json_ok (Dictionary d)" and "map_ok wstring_less d"
  shows "reads (UTF8ToWide (json_text pretty depth (Dictionary d))) (Dictionary d)"
proof -
  define W where "W e = UTF8ToWide (json_text pretty (depth + 1) (snd e))" for e :: "wstring \<times> Value"
  define lead where "lead = wnl pretty @ wind pretty (depth + 1)"
  define close where "close = wnl pretty @ wind pretty depth"
  define body where "body = (case d of [] \<Rightarrow> [] | e # es \<Rightarrow> wind pretty (depth + 1) @ wide_entry (fst e) (wsp pretty) (W e) @
      concat (map (\<lambda>e. 44 # lead @ wide_entry (fst e) (wsp pretty) (W e)) es))"
  have sp: "list_all json_space lead" "list_all json_space close" "list_all json_space (wsp pretty)"
    by (simp_all add: lead_def close_def)
  have cl: "delim (close @ 125 # q)" for q by (cases pretty) (simp_all add: delim_def close_def)
  have ok: "\<forall>e\<in>set d. quotable (fst e) \<and> list_all (\<lambda>c. unat c < 128) (fst e) \<and> json_ok (snd e)"
    using assms(2) by (simp add: list_all_iff)
  have w: "UTF8ToWide (json_text pretty depth (Dictionary d)) = 123 # (wnl pretty @ body @ close @ [125])"
  proof (cases d)
    case (Cons e es)
    then show ?thesis
      using ok U_entry [of e pretty depth] U_dict_text [of es pretty depth]
      by (simp add: body_def W_def lead_def close_def U_Cons U_Nil U_sp del: entry_text.simps)
  qed (simp add: body_def close_def U_Cons U_Nil U_sp)
  have "\<exists>n. \<forall>r. BuildValue n r (at j (123 # wnl pretty @ body @ close @ 125 # rest)) =
      Some (Some (json_norm (Dictionary d)), at j rest)"
    if nst: "nest_ok (kStackLimit - stack_depth j) (Dictionary d)" for j rest
  proof (cases d)
    case Nil
    have "ParseToken (at (enter j) (wnl pretty @ body @ close @ 125 # rest)) =
        (mk_Token OBJECT_END (125 # rest) 1, at (enter j) (125 # rest))"
      using ParseToken_at [OF _ solid_char, of "wnl pretty @ close" 125 rest "enter j"] sp
      by (simp add: body_def Nil ParseToken_punct)
    from BuildValue_object [OF this, of "Suc 0" "[]" _ rest] nest_ok_depth [OF nst] show ?thesis
      by (intro exI [of _ "Suc (Suc 0)"]) (simp add: Nil)
  next
    case (Cons e es)
    define T where "T = concat (map (\<lambda>e. 44 # lead @ wide_entry (fst e) (wsp pretty) (W e)) es) @ close @ 125 # rest"
    define E where "E = wide_entry (fst e) (wsp pretty) (W e) @ T"
    have m: "\<forall>e\<in>set d. member_ok W (kStackLimit - stack_depth (enter j)) e"
      using ok assms(1) nest_ok_enter(2) [OF nst] by (simp add: member_ok_def W_def)
    have dT: "delim T" using cl by (cases es) (auto simp: delim_def T_def)
    have me: "quotable (fst e)" "list_all (\<lambda>c. unat c < 128) (fst e)" "reads (W e) (snd e)"
        "nest_ok (kStackLimit - stack_depth (enter j)) (snd e)"
      using m Cons by (simp_all add: member_ok_def)
    obtain t n where t: "ParseToken (at (enter j) E) = (t, at (enter j) E)" "ttype t = STRING"
      and n: "\<And>m d. n \<le> m \<Longrightarrow> BuildObject (Suc m) t d (at (enter j) E) =
        after_member m (SetWithoutPathExpansion d (fst e) (Some (json_norm (snd e)))) (at (enter j) T)"
      by (rule BuildObject_member [OF me(1,2) sp(3) me(3) dT me(4), folded E_def]) (auto simp del: BuildObject.simps)
    obtain n' where n': "\<forall>m\<ge>n'. \<forall>d. after_member m d (at (enter j) T) =
        Some (Some (rebuild es d, mk_Token OBJECT_END (125 # rest) 1), at (enter j) (125 # rest))"
      unfolding T_def using read_members [OF _ sp(3,1,2) cl, of es W "enter j" rest] m Cons by auto
    have "rebuild es (SetWithoutPathExpansion [] (fst e) (Some (json_norm (snd e)))) =
        map (\<lambda>e. (fst e, json_norm (snd e))) d"
      using rebuild_sorted [of "[]" d] assms(3) Cons by simp
    then have "BuildObject (Suc (max n n')) t [] (at (enter j) E) =
        Some (Some (map (\<lambda>e. (fst e, json_norm (snd e))) d, mk_Token OBJECT_END (125 # rest) 1), at (enter j) (125 # rest))"
      using n n' by simp
    moreover have "ParseToken (at (enter j) (wnl pretty @ body @ close @ 125 # rest)) = (t, at (enter j) E)"
      using ParseToken_at [of lead E "enter j"] t(1) sp(1) solid_wide_entry
      by (simp add: body_def Cons T_def E_def lead_def)
    ultimately show ?thesis
      using BuildValue_object [of _ j t "at (enter j) E"] nest_ok_depth [OF nst]
      by (intro exI [of _ "Suc (Suc (max n n'))"]) simp
  qed
  then show ?thesis
    unfolding w by (intro reads_container) (simp_all add: is_container_def)
qed

lemma leaf_json_reads:
  "json_ok v \<Longrightarrow> \<not> is_container v \<Longrightarrow> reads (UTF8ToWide (leaf_text v)) v"
  by (intro reads_of_leaf leaf_reads)

lemma json_reads:
  "json_ok v \<Longrightarrow> value_wf v \<Longrightarrow> reads (UTF8ToWide (json_text pretty depth v)) v"
proof (induction v arbitrary: depth)
  case (List xs)
  then show ?case by (intro reads_list) (auto simp: list_all_iff)
next
  case (Dictionary d)
  then show ?case by (intro reads_dict) (auto simp: list_all_iff snds.simps)
qed (simp_all add: leaf_json_reads is_container_def del: json_ok.simps)

section \<open>The round trip\<close>

lemma Json_Deserialize_json_text:
  assumes "json_ok v" "value_wf v" "is_container v" "nest_ok kStackLimit v"
  shows "\<exists>j'. Json_Deserialize j (json_text pretty depth v) = (Some (json_norm v), None, j') \<and> json_pos j' = []"
proof -
  let ?w = "UTF8ToWide (json_text pretty depth v)"
  have p0: "peek ?w \<noteq> 0xFEFF"
    using assms(3) by (cases v) (simp_all add: is_container_def U_Cons)
  define j0 where "j0 = j\<lparr>start_pos := ?w, json_pos := ?w, allow_trailing_comma := True,
      stack_depth := 0, error_code := NO_ERROR\<rparr>"
  obtain ws p t n where w: "?w = ws @ p" "list_all json_space ws" and s: "solid (p @ [])"
    and t: "ParseToken (at j0 (p @ [])) = (t, at j0 (p @ []))" "ttype t \<noteq> ARRAY_END"
    and N: "\<forall>r. (r \<longrightarrow> is_container v) \<longrightarrow> BuildValue n r (at j0 (p @ [])) = Some (Some (json_norm v), at j0 [])"
    by (rule readsE [OF json_reads [OF assms(1,2)] disjI2 [OF assms(3)], of j0 pretty depth "[]"])
      (use assms(4) in \<open>auto simp: j0_def\<close>)
  have "ws = []"
    using assms(3) w by (cases v; cases ws) (auto simp: is_container_def U_Cons json_space_def)
  then have at: "at j0 (p @ []) = j0" using w(1) by (simp add: j0_def)
  have "BuildValue n True (at j0 (p @ [])) = Some (Some (json_norm v), at j0 [])" using N assms(3) by simp
  then have "BuildValue (json_fuel j0) True j0 = Some (Some (json_norm v), at j0 [])"
    unfolding at by (rule BuildValue_total)
  then show ?thesis
    using p0 by (simp add: Json_Deserialize_def Let_def ParseToken_END j0_def [symmetric])
qed

text \<open>The values that are written and read back, and the two directions as functions.\<close>

definition json_accepts :: "Value \<Rightarrow> bool" where
  "json_accepts v \<longleftrightarrow> json_ok v \<and> value_wf v \<and> is_container v \<and> nest_ok kStackLimit v"

definition json_write :: "bool \<Rightarrow> Value \<Rightarrow> cstring" where
  "json_write pretty v = BuildJSONString pretty False 0 v []"

definition json_read :: "JsonValueSerializer \<Rightarrow> cstring \<Rightarrow> Value option" where
  "json_read j s = (case Json_Deserialize j s of (v, None, _) \<Rightarrow> v | _ \<Rightarrow> None)"

lemma map_ok_norm: "map_ok lt (map (\<lambda>e. (fst e, f (snd e))) d) \<longleftrightarrow> map_ok lt d"
  by (simp add: map_ok_def comp_def)

lemma json_norm_idem: "json_norm (json_norm v) = json_norm v"
  by (induction v) (auto simp: snds.simps)

lemma json_norm_ok: "json_ok v \<Longrightarrow> json_ok (json_norm v)"
  by (induction v) (auto simp: list_all_iff snds.simps)

lemma json_norm_wf: "value_wf v \<Longrightarrow> value_wf (json_norm v)"
  by (induction v) (auto simp: list_all_iff snds.simps map_ok_norm)

lemma json_norm_nest: "nest_ok n v \<Longrightarrow> nest_ok n (json_norm v)"
  by (induction n v rule: nest_ok.induct) (auto simp: list_all_iff)

lemma json_norm_container: "is_container (json_norm v) \<longleftrightarrow> is_container v"
  by (cases v) (simp_all add: is_container_def)

lemmas json_norm_laws = json_norm_idem json_norm_ok json_norm_wf json_norm_nest json_norm_container

lemma json_read_write: "json_accepts v \<Longrightarrow> json_read j (json_write pretty v) = Some (json_norm v)"
  using Json_Deserialize_json_text [of v j pretty 0]
  by (auto simp: json_accepts_def json_read_def json_write_def BuildJSONString_text)

interpretation compact: serializer "json_write False" "json_read j" json_norm json_accepts
  for j
  by unfold_locales (auto simp: json_read_write json_accepts_def json_norm_laws)

interpretation pretty: serializer "json_write True" "json_read j" json_norm json_accepts
  for j
  by unfold_locales (auto simp: json_read_write json_accepts_def json_norm_laws)

section \<open>Properties of the serializer\<close>



text \<open>
  The writer is injective up to the width of the integers: two such values with the same
  text have the same normal form, and reading a text that was written, writing the result and
  reading again changes nothing more.
\<close>
theorem json_text_determines:
  assumes "json_accepts v" and "json_accepts w" and "json_write pretty v = json_write pretty w"
  shows "json_norm v = json_norm w \<and> json_read j (json_write pretty v) = Some (json_norm w) \<and>
    json_read j (json_write pretty (json_norm w)) = Some (json_norm w)"
proof (cases pretty)
  case True
  with assms pretty.ser_inj [of v w] pretty.stable [of v j "json_norm v"] pretty.deser_ser [of v j]
  show ?thesis by simp
next
  case False
  with assms compact.ser_inj [of v w] compact.stable [of v j "json_norm v"] compact.deser_ser [of v j]
  show ?thesis by simp
qed

theorem json_text_determines_witness:
  "let v = List [Integer 5]; w = List [BigInteger 5];
       j = \<lparr>json_string = None, pretty_print = True, start_pos = [], json_pos = [], stack_depth = 7,
            allow_trailing_comma = False, error_code = NO_ERROR, error_line = 0, error_col = 0\<rparr>
   in v \<noteq> w \<and> json_norm v = json_norm w \<and> json_read j (json_write False v) = Some (json_norm w) \<and>
      json_read j (json_write False (json_norm w)) = Some (json_norm w)"
proof -
  have "json_accepts (List [Integer 5])" "json_accepts (List [BigInteger 5])"
    "json_write False (List [Integer 5]) = json_write False (List [BigInteger 5])"
    by code_simp+
  from json_text_determines [OF this] show ?thesis by (auto simp: Let_def simp del: json_norm.simps)
qed

text \<open>
  (C2) The reader terminates on every input: fuel linear in the length of the remaining text
  is enough for every call of \<open>BuildValue\<close>, whatever the state of the object, and more fuel
  does not change the result.
\<close>
theorem json_reader_terminates:
  "\<exists>v j'. \<forall>n \<ge> 2 * length (json_pos j) + 1. BuildValue n is_root j = Some (v, j')"
  using BuildValue_fuel [of j is_root] BuildValue_mono unfolding json_fuel_def by blast

theorem json_reader_terminates_witness:
  "let j = \<lparr>json_string = None, pretty_print = True, start_pos = [], json_pos = wstr ''[1,'', stack_depth = 7,
            allow_trailing_comma = False, error_code = NO_ERROR, error_line = 0, error_col = 0\<rparr>
   in \<exists>v j'. BuildValue 9 True j = Some (v, j')"
  unfolding Let_def
  using json_reader_terminates [of "\<lparr>json_string = None, pretty_print = True, start_pos = [],
      json_pos = wstr ''[1,'', stack_depth = 7, allow_trailing_comma = False, error_code = NO_ERROR,
      error_line = 0, error_col = 0\<rparr>" True]
  by (auto simp del: BuildValue.simps)

text \<open>
  (C3) What the reader accepts, from any text: the root is a list or a dictionary, the maps in
  it are sorted without duplicates, it has at most 100 levels, the counter of levels is back
  at zero, and the position only moved forward. (It is also returned when data follows it,
  with an error.)
\<close>
theorem json_reader_sound:
  assumes "Json_Deserialize j s = (Some v, e, j')"
  shows "is_container v \<and> value_wf v \<and> nest_ok kStackLimit v \<and> stack_depth j' = 0"
proof -
  define start where "start = (let w = UTF8ToWide s in if w \<noteq> [] \<and> peek w = 0xFEFF then drop 1 w else w)"
  define j0 where "j0 = j\<lparr>start_pos := start, json_pos := start, allow_trailing_comma := True,
      stack_depth := 0, error_code := NO_ERROR\<rparr>"
  obtain r k where r: "BuildValue (json_fuel j0) True j0 = Some (r, k)" using BuildValue_fuel by blast
  obtain t k' where t: "ParseToken k = (t, k')" by (cases "ParseToken k")
  have D: "Json_Deserialize j s = (case the (BuildValue (json_fuel j0) True j0) of
           (None, j) \<Rightarrow> (None, Some (error_code j), j)
         | (Some root, j) \<Rightarrow>
             (case ParseToken j of (token, j) \<Rightarrow>
                if ttype token = END_OF_INPUT then (Some root, None, j)
                else (let j = SetErrorCode j UNEXPECTED_DATA_AFTER_ROOT (json_pos j)
                      in (Some root, Some (error_code j), j))))"
    unfolding Json_Deserialize_def j0_def start_def by (simp only: Let_def)
  have "stack_depth (SetErrorCode k' e p) = stack_depth k'" for e p
    by (simp add: SetErrorCode_def split: option.split prod.split)
  then have "r = Some v \<and> stack_depth j' = stack_depth k'"
    using assms r t by (cases r) (auto simp: D Let_def simp del: BuildValue.simps split: if_splits)
  moreover from this have "good_result True j0 v k"
    using build_sound [of "json_fuel j0", THEN conjunct1] r by blast
  ultimately show ?thesis
    using ParseToken_forward(2) [OF t] by (simp add: good_result_def j0_def)
qed

theorem json_reader_sound_witness:
  "let j = \<lparr>json_string = None, pretty_print = True, start_pos = [], json_pos = [], stack_depth = 7,
            allow_trailing_comma = False, error_code = NO_ERROR, error_line = 0, error_col = 0\<rparr>
   in is_container (List [Null]) \<and> value_wf (List [Null]) \<and> nest_ok kStackLimit (List [Null]) \<and>
      stack_depth (snd (snd (Json_Deserialize j (str ''[null] 1'')))) = 0"
proof -
  let ?j = "\<lparr>json_string = None, pretty_print = True, start_pos = [], json_pos = [], stack_depth = 7,
            allow_trailing_comma = False, error_code = NO_ERROR, error_line = 0, error_col = 0\<rparr>"
  let ?r = "Json_Deserialize ?j (str ''[null] 1'')"
  have "fst ?r = Some (List [Null])" by code_simp
  then have "?r = (Some (List [Null]), fst (snd ?r), snd (snd ?r))"
    by (metis prod.collapse)
  from json_reader_sound [OF this] show ?thesis unfolding Let_def .
qed

text \<open>
  The line and the column of an error are those of the position in the text: one more
  than the number of line ends before it, and one more than the number of characters since
  the last of them.
\<close>
theorem SetErrorCode_position:
  assumes "start_pos j = a @ b" and "0 \<notin> set a"
  shows "SetErrorCode j err b =
    j\<lparr>error_line := 1 + count_list a 10, error_col := 1 + length (takeWhile (\<lambda>c. c \<noteq> 10) (rev a)),
      error_code := err\<rparr>"
proof -
  have all: "takeWhile (\<lambda>c. c \<noteq> 10) (rev a) = rev a" if "\<forall>c\<in>set a. c \<noteq> 10" for a :: wstring
    using that by (simp add: takeWhile_eq_all_conv)
  have "error_walk b (a @ b) l c =
      Some (l + count_list a 10, (if 10 \<in> set a then 1 else c) + length (takeWhile (\<lambda>c. c \<noteq> 10) (rev a)))"
    if "0 \<notin> set a" for a l c
    using that
  proof (induction a arbitrary: l c)
    case Nil
    then show ?case by (simp add: error_walk.simps)
  next
    case (Cons x a)
    then show ?case
      by (subst error_walk.simps) (auto simp: takeWhile_append all)
  qed
  from this [OF assms(2)] assms(1) show ?thesis
    by (simp add: SetErrorCode_def)
qed

theorem SetErrorCode_position_witness:
  "let j = \<lparr>json_string = None, pretty_print = True, start_pos = wstr ''[1'' @ [10] @ wstr ''2]'', json_pos = [],
            stack_depth = 7, allow_trailing_comma = False, error_code = NO_ERROR, error_line = 0, error_col = 0\<rparr>
   in SetErrorCode j SYNTAX_ERROR (wstr '']'') = j\<lparr>error_line := 2, error_col := 2, error_code := SYNTAX_ERROR\<rparr>"
  unfolding Let_def
  using SetErrorCode_position [of "\<lparr>json_string = None, pretty_print = True, start_pos = wstr ''[1'' @ [10] @ wstr ''2]'',
      json_pos = [], stack_depth = 7, allow_trailing_comma = False, error_code = NO_ERROR, error_line = 0, error_col = 0\<rparr>"
      "wstr ''[1'' @ [10] @ wstr ''2''" "wstr '']''" SYNTAX_ERROR]
  by simp


end
