(* ===== verification/Memory.thy ===== *)
theory Memory
  imports Prelude
begin

text \<open>
  Words in the memory of a little-endian machine and in network byte order: what the packet
  and cipher code does with pointer casts, \<open>htonl\<close> and the macro \<open>htonl64\<close>; and blocks of
  memory, with the allocator and \<open>memcpy\<close>.
\<close>

section \<open>Little-endian storage\<close>

text \<open>
  The bytes of the first \<open>n\<close> bytes of a word in memory, lowest first, and the word that a
  load of such bytes gives.
\<close>

fun bytes_le :: "nat \<Rightarrow> 'a::len word \<Rightarrow> byte list" where
  "bytes_le 0 w = []"
| "bytes_le (Suc n) w = ucast w # bytes_le n (drop_bit 8 w)"

fun word_le :: "byte list \<Rightarrow> 'a::len word" where
  "word_le [] = 0"
| "word_le (b # bs) = ucast b OR push_bit 8 (word_le bs)"

lemma length_bytes_le [simp]: "length (bytes_le n w) = n"
  by (induction n arbitrary: w) simp_all

lemma bytes_le_nonempty: "0 < n \<Longrightarrow> bytes_le n w \<noteq> []"
  by (cases n) simp_all

lemma bit_word_le:
  "bit (word_le bs :: 'a::len word) n \<longleftrightarrow> n < LENGTH('a) \<and> n div 8 < length bs \<and> bit (bs ! (n div 8)) (n mod 8)"
proof (induction bs arbitrary: n)
  case (Cons b bs)
  show ?case
  proof (cases "n < 8")
    case True
    then show ?thesis by (simp add: bit_simps)
  next
    case False
    then obtain m where n: "n = m + 8" using le_Suc_ex [of 8 n] by (auto simp: not_less add.commute)
    have "\<not> bit b n" using False bit_imp_le_length [of b n] by auto
    moreover have "(m + 8) div 8 = Suc (m div 8)" by simp
    ultimately show ?thesis using Cons [of m] by (auto simp: n bit_simps)
  qed
qed simp

lemma nth_bytes_le: "i < n \<Longrightarrow> bytes_le n w ! i = ucast (drop_bit (8 * i) w)"
  by (induction n arbitrary: i w) (auto simp: nth_Cons algebra_simps split: nat.splits)

lemma word_le_bytes_le:
  assumes "LENGTH('a) \<le> 8 * n"
  shows "word_le (bytes_le n w) = (w :: 'a::len word)"
proof (rule bit_word_eqI)
  fix k assume k: "k < LENGTH('a)"
  then have "k div 8 < n" using assms by linarith
  then show "bit (word_le (bytes_le n w) :: 'a word) k \<longleftrightarrow> bit w k"
    using k by (simp add: bit_word_le nth_bytes_le bit_simps)
qed

lemma bytes_le_word_le:
  assumes "8 * length bs \<le> LENGTH('a)"
  shows "bytes_le (length bs) (word_le bs :: 'a::len word) = bs"
proof (rule nth_equalityI)
  fix i assume "i < length (bytes_le (length bs) (word_le bs :: 'a word))"
  then have i: "i < length bs" by simp
  have "ucast (drop_bit (8 * i) (word_le bs :: 'a word)) = bs ! i"
  proof (rule bit_word_eqI)
    fix k assume k: "k < LENGTH(8)"
    then have "(8 * i + k) div 8 = i" "(8 * i + k) mod 8 = k" "8 * i + k < LENGTH('a)"
      using assms i by auto
    then show "bit (ucast (drop_bit (8 * i) (word_le bs :: 'a word)) :: byte) k \<longleftrightarrow> bit (bs ! i) k"
      using k i by (simp add: bit_simps bit_word_le)
  qed
  with i show "bytes_le (length bs) (word_le bs :: 'a word) ! i = bs ! i" by (simp add: nth_bytes_le)
qed simp

interpretation le_u16: codec "bytes_le 2 :: u16 \<Rightarrow> byte list" "\<lambda>bs. Some (word_le bs)" "\<lambda>_. True"
  by unfold_locales (simp add: word_le_bytes_le)

interpretation le_u32: codec "bytes_le 4 :: u32 \<Rightarrow> byte list" "\<lambda>bs. Some (word_le bs)" "\<lambda>_. True"
  by unfold_locales (simp add: word_le_bytes_le)

interpretation le_u64: codec "bytes_le 8 :: u64 \<Rightarrow> byte list" "\<lambda>bs. Some (word_le bs)" "\<lambda>_. True"
  by unfold_locales (simp add: word_le_bytes_le)

section \<open>Network byte order\<close>

text \<open>
  \<open>htons\<close>, \<open>htonl\<close> and the macro \<open>htonl64\<close> on a little-endian machine; the first two are
  those of the C library, the last is spelt out in \<^verbatim>\<open>data_packet.h\<close>.
\<close>

definition bswap16 :: "u16 \<Rightarrow> u16" where
  "bswap16 x = push_bit 8 (x AND 0xff) OR drop_bit 8 x"

definition bswap32 :: "u32 \<Rightarrow> u32" where
  "bswap32 x = drop_bit 24 (x AND 0xff000000) OR drop_bit 8 (x AND 0xff0000) OR
     push_bit 8 (x AND 0xff00) OR push_bit 24 (x AND 0xff)"

definition htonl64 :: "u64 \<Rightarrow> u64" where
  "htonl64 x =
     drop_bit 56 (x AND 0xff00000000000000) OR drop_bit 40 (x AND 0x00ff000000000000) OR
     drop_bit 24 (x AND 0x0000ff0000000000) OR drop_bit 8 (x AND 0x000000ff00000000) OR
     push_bit 8 (x AND 0x00000000ff000000) OR push_bit 24 (x AND 0x0000000000ff0000) OR
     push_bit 40 (x AND 0x000000000000ff00) OR push_bit 56 (x AND 0x00000000000000ff)"

lemma bytes_le_map: "bytes_le n w = map (\<lambda>i. ucast (drop_bit (8 * i) w)) [0..<n]"
  by (rule nth_equalityI) (simp_all add: nth_bytes_le)

lemma bytes_le_unfold:
  "bytes_le 2 w = [ucast w, ucast (drop_bit 8 w)]"
  "bytes_le 4 w = [ucast w, ucast (drop_bit 8 w), ucast (drop_bit 16 w), ucast (drop_bit 24 w)]"
  "bytes_le 8 w = [ucast w, ucast (drop_bit 8 w), ucast (drop_bit 16 w), ucast (drop_bit 24 w),
     ucast (drop_bit 32 w), ucast (drop_bit 40 w), ucast (drop_bit 48 w), ucast (drop_bit 56 w)]"
  by (simp_all add: bytes_le_map upt_rec)

lemma bswap16_bytes: "bytes_le 2 (bswap16 w) = rev (bytes_le 2 w)"
  unfolding bytes_le_unfold rev.simps append.simps list.inject
  by (intro conjI refl byte_bitI; simp add: bswap16_def bit_simps)

lemma bswap32_bytes: "bytes_le 4 (bswap32 w) = rev (bytes_le 4 w)"
  unfolding bytes_le_unfold rev.simps append.simps list.inject
  by (intro conjI refl byte_bitI; simp add: bswap32_def bit_simps)

lemma htonl64_bytes: "bytes_le 8 (htonl64 w) = rev (bytes_le 8 w)"
  unfolding bytes_le_unfold rev.simps append.simps list.inject
  by (intro conjI refl byte_bitI; simp add: htonl64_def bit_simps)

text \<open>Swapping twice changes nothing, since reversing twice does not.\<close>

lemma bswap_bswap: "bswap16 (bswap16 h) = h" "bswap32 (bswap32 w) = w" "htonl64 (htonl64 l) = l"
  by (rule le_u16.enc_inj [THEN iffD1] le_u32.enc_inj [THEN iffD1] le_u64.enc_inj [THEN iffD1],
      simp_all add: bswap16_bytes bswap32_bytes htonl64_bytes)+

section \<open>Blocks of memory\<close>

text \<open>
  What code asks of the allocator: whether a block of a size can be had, and the
  unspecified contents of new memory. Memory is a list of bytes; a store or a load outside
  of the block is undefined (\<open>None\<close>).
\<close>

record heap =
  alloc_ok :: "int \<Rightarrow> bool"
  junk :: "nat \<Rightarrow> byte"

definition i32 :: "int \<Rightarrow> int" where
  "i32 x = sint (word_of_int x :: u32)"

definition mem_store :: "int \<Rightarrow> byte list \<Rightarrow> byte list \<Rightarrow> byte list option" where
  "mem_store i bs mem =
     (if 0 \<le> i \<and> i + int (length bs) \<le> int (length mem)
      then Some (take (nat i) mem @ bs @ drop (nat i + length bs) mem) else None)"

definition mem_load :: "int \<Rightarrow> nat \<Rightarrow> byte list \<Rightarrow> byte list option" where
  "mem_load i n mem =
     (if 0 \<le> i \<and> i + int n \<le> int (length mem) then Some (take n (drop (nat i) mem)) else None)"

definition mem_resize :: "heap \<Rightarrow> nat \<Rightarrow> byte list \<Rightarrow> byte list" where
  "mem_resize h n mem = take n mem @ map (junk h) [length mem..<n]"

lemma mem_load_Some: "i + n \<le> length mem \<Longrightarrow> mem_load (int i) n mem = Some (take n (drop i mem))"
  by (simp add: mem_load_def)

lemma mem_store_Some:
  "i + length bs \<le> length mem \<Longrightarrow>
   mem_store (int i) bs mem = Some (take i mem @ bs @ drop (i + length bs) mem)"
  by (simp add: mem_store_def)

lemma i32_small: "- (2 ^ 31) \<le> x \<Longrightarrow> x < 2 ^ 31 \<Longrightarrow> i32 x = x"
  unfolding i32_def by (simp add: signed_of_int signed_take_bit_int_eq_self)

end
