(* ===== verification/Tea.thy ===== *)
theory Tea
  imports Memory
begin

text \<open>
  The two implementations of the TEA cipher, \<^verbatim>\<open>base/algo/tea.cc\<close> on buffers and the class
  \<open>Tea\<close> of \<^verbatim>\<open>public/algorithm/tea.cc\<close>, with the hexadecimal text of the latter. The rounds
  are shared; \<open>block_cipher\<close> is what the buffer loops need of the cipher.
\<close>

section \<open>The cipher\<close>

text \<open>
  The rounds are the same in both implementations; \<open>'a word\<close> is \<open>uint32_t\<close> in
  \<^verbatim>\<open>base/algo/tea.cc\<close> and \<open>unsigned long\<close> in \<^verbatim>\<open>public/algorithm/tea.cc\<close>.
\<close>

type_synonym 'a block = "'a word \<times> 'a word"

record 'w tea_key =
  k0 :: 'w
  k1 :: 'w
  k2 :: 'w
  k3 :: 'w

definition delta :: "'a::len word" where
  "delta = 0x9e3779b9"

definition tea_mix :: "'a::len word \<Rightarrow> 'a word \<Rightarrow> 'a word \<Rightarrow> 'a word \<Rightarrow> 'a word" where
  "tea_mix v sm ka kb = (push_bit 4 v + ka) XOR (v + sm) XOR (drop_bit 5 v + kb)"

primrec encrypt_rounds :: "nat \<Rightarrow> 'a::len word tea_key \<Rightarrow> 'a word \<Rightarrow> 'a block \<Rightarrow> 'a block" where
  "encrypt_rounds 0 k sm v = v"
| "encrypt_rounds (Suc n) k sm v =
     (let sm = sm + delta;
          v0 = fst v + tea_mix (snd v) sm (k0 k) (k1 k);
          v1 = snd v + tea_mix v0 sm (k2 k) (k3 k)
      in encrypt_rounds n k sm (v0, v1))"

primrec decrypt_rounds :: "nat \<Rightarrow> 'a::len word tea_key \<Rightarrow> 'a word \<Rightarrow> 'a block \<Rightarrow> 'a block" where
  "decrypt_rounds 0 k sm v = v"
| "decrypt_rounds (Suc n) k sm v =
     (let v1 = snd v - tea_mix (fst v) sm (k2 k) (k3 k);
          v0 = fst v - tea_mix v1 sm (k0 k) (k1 k)
      in decrypt_rounds n k (sm - delta) (v0, v1))"

section \<open>base/algo\<close>

definition algo_key :: "u32 tea_key" where
  "algo_key = \<lparr>k0 = 0x04, k1 = 0x03, k2 = 0x02, k3 = 0x01\<rparr>"

definition Encrypt_block :: "u32 tea_key \<Rightarrow> 32 block \<Rightarrow> 32 block" where
  "Encrypt_block k v = encrypt_rounds 32 k 0 v"

definition Decrypt_block :: "u32 tea_key \<Rightarrow> 32 block \<Rightarrow> 32 block" where
  "Decrypt_block k v = decrypt_rounds 32 k 0xC6EF3720 v"

text \<open>The buffer of \<open>algo_tea_data\<close> (\<open>None\<close> is NULL) has at least \<open>l\<close> bytes.\<close>

record algo_tea_data =
  td_d :: "byte list option"
  td_l :: nat

text \<open>The loop over the pairs of 32-bit words of the first \<open>l\<close> bytes, in place.\<close>

fun tea_blocks :: "(32 block \<Rightarrow> 32 block) \<Rightarrow> nat \<Rightarrow> byte list \<Rightarrow> byte list" where
  "tea_blocks f l d =
     (if l < 8 \<or> length d < 8 then d
      else case f (word_le (take 4 d), word_le (take 4 (drop 4 d))) of (v0, v1) \<Rightarrow>
        bytes_le 4 v0 @ bytes_le 4 v1 @ tea_blocks f (l - 8) (drop 8 d))"

declare tea_blocks.simps [simp del]

definition tea_pad :: "nat \<Rightarrow> byte list \<Rightarrow> byte list" where
  "tea_pad l d = (let new_l = ((l - 1) div 8 + 1) * 8 in take l d @ replicate (new_l - l) 0)"

definition algo_Encrypt :: "algo_tea_data option \<Rightarrow> bool \<times> algo_tea_data option" where
  "algo_Encrypt td =
     (case td of
        None \<Rightarrow> (False, td)
      | Some t \<Rightarrow>
          (case td_d t of
             None \<Rightarrow> (False, td)
           | Some d \<Rightarrow>
               let (d, l) = (if td_l t mod 8 \<noteq> 0
                             then (tea_pad (td_l t) d, ((td_l t - 1) div 8 + 1) * 8) else (d, td_l t))
               in (True, Some \<lparr>td_d = Some (tea_blocks (Encrypt_block algo_key) l d), td_l = l\<rparr>)))"

definition algo_Decrypt :: "algo_tea_data option \<Rightarrow> bool \<times> algo_tea_data option" where
  "algo_Decrypt td =
     (case td of
        None \<Rightarrow> (False, td)
      | Some t \<Rightarrow>
          (case td_d t of
             None \<Rightarrow> (False, td)
           | Some d \<Rightarrow>
               if td_l t mod 8 \<noteq> 0 then (False, td)
               else (True, Some (t\<lparr>td_d := Some (tea_blocks (Decrypt_block algo_key) (td_l t) d)\<rparr>))))"

section \<open>public/algorithm\<close>

text \<open>
  The class \<open>Tea\<close>. The key is read as four words of type \<open>unsigned long\<close>, starting at
  \<open>key_\<close>: with eight bytes each these are more than the 16 bytes of the key, so the bytes
  that follow it in memory are a parameter.
\<close>

record Tea =
  tea_round :: int
  tea_net :: bool
  tea_bytes :: "byte list"

definition Tea_new :: "byte list option \<Rightarrow> int \<Rightarrow> bool \<Rightarrow> Tea" where
  "Tea_new key round' is_net_char =
     \<lparr>tea_round = round', tea_net = is_net_char,
      tea_bytes = (case key of None \<Rightarrow> replicate 16 0 | Some k \<Rightarrow> take 16 k)\<rparr>"

definition Tea_assign :: "Tea \<Rightarrow> Tea \<Rightarrow> Tea" where
  "Tea_assign this rhs = this\<lparr>tea_round := tea_round rhs, tea_net := tea_net rhs, tea_bytes := tea_bytes rhs\<rparr>"

definition Tea_ntoh :: "Tea \<Rightarrow> 'a::len word \<Rightarrow> 'a word" where
  "Tea_ntoh t netlong = (if tea_net t then ucast (bswap32 (ucast netlong)) else netlong)"

definition Tea_key :: "Tea \<Rightarrow> byte list \<Rightarrow> 'a::len word tea_key" where
  "Tea_key t beyond =
     (let mem = tea_bytes t @ beyond; w = LENGTH('a) div 8;
          k = (\<lambda>i. Tea_ntoh t (word_le (take w (drop (i * w) mem)) :: 'a word))
      in \<lparr>k0 = k 0, k1 = k 1, k2 = k 2, k3 = k 3\<rparr>)"

text \<open>\<open>None\<close> is a loop over a negative number of rounds, which does not end.\<close>

definition Tea_encrypt :: "Tea \<Rightarrow> byte list \<Rightarrow> 'a::len block \<Rightarrow> 'a block option" where
  "Tea_encrypt t beyond v =
     (if tea_round t < 0 then None
      else case encrypt_rounds (nat (tea_round t)) (Tea_key t beyond) 0 (Tea_ntoh t (fst v), Tea_ntoh t (snd v)) of
        (y, z) \<Rightarrow> Some (Tea_ntoh t y, Tea_ntoh t z))"

text \<open>\<open>lg2\<close> is \<open>static_cast<int>(logbase(2, round))\<close>, computed in floating point.\<close>

definition Tea_sum :: "(int \<Rightarrow> nat) \<Rightarrow> int \<Rightarrow> 'a::len word" where
  "Tea_sum lg2 rnd =
     (if rnd = 32 then 0xC6EF3720 else if rnd = 16 then 0xE3779B90
      else push_bit (lg2 rnd) delta)"

definition Tea_decrypt :: "(int \<Rightarrow> nat) \<Rightarrow> Tea \<Rightarrow> byte list \<Rightarrow> 'a::len block \<Rightarrow> 'a block option" where
  "Tea_decrypt lg2 t beyond v =
     (if tea_round t < 0 then None
      else case decrypt_rounds (nat (tea_round t)) (Tea_key t beyond) (Tea_sum lg2 (tea_round t))
          (Tea_ntoh t (fst v), Tea_ntoh t (snd v)) of
        (y, z) \<Rightarrow> Some (Tea_ntoh t y, Tea_ntoh t z))"

section \<open>Hexadecimal text\<close>

definition HEX :: cstring where
  "HEX = str ''0123456789ABCDEF''"

definition IntToHexChar :: "nat \<Rightarrow> byte" where
  "IntToHexChar x = HEX ! x"

abbreviation toupper :: "byte \<Rightarrow> byte" where
  "toupper c \<equiv> (if bc CHR ''a'' \<le> c \<and> c \<le> bc CHR ''z'' then c - 32 else c)"

definition HexCharToInt :: "byte \<Rightarrow> int" where
  "HexCharToInt hex =
     (let hex = toupper hex in
      if bc CHR ''0'' \<le> hex \<and> hex \<le> bc CHR ''9'' then uint hex - 48
      else if bc CHR ''A'' \<le> hex \<and> hex \<le> bc CHR ''Z'' then uint hex - 65 + 10
      else 0)"

fun ByteToHexString :: "byte list \<Rightarrow> cstring" where
  "ByteToHexString [] = []"
| "ByteToHexString (t # bs) =
     [IntToHexChar (unat t div 16), IntToHexChar (unat t mod 16)] @
     (if bs \<noteq> [] then [bc CHR '' ''] else []) @ ByteToHexString bs"

text \<open>
  The pieces between the spaces, the last one only if it is not empty. \<open>None\<close> is an empty
  piece, whose second character is outside of the string; the character after a piece of
  one is its NUL.
\<close>

lemma drop_past_less: "c \<in> set s \<Longrightarrow> length (dropWhile (\<lambda>x. x \<noteq> c) s) - Suc 0 < length s"
  by (induction s) auto

function hex_pieces :: "cstring \<Rightarrow> cstring list" where
  "hex_pieces s =
     (if bc CHR '' '' \<in> set s
      then takeWhile (\<lambda>c. c \<noteq> bc CHR '' '') s # hex_pieces (drop 1 (dropWhile (\<lambda>c. c \<noteq> bc CHR '' '') s))
      else if s \<noteq> [] then [s] else [])"
  by auto
termination
  by (relation "measure length") (simp_all add: drop_past_less)

definition HexStringToByte :: "cstring \<Rightarrow> byte list option" where
  "HexStringToByte s =
     (let vec = hex_pieces s in
      if [] \<in> set vec then None
      else Some (map (\<lambda>p. word_of_int (HexCharToInt (peek p) * 16 + HexCharToInt (peek (tl p)))) vec))"

section \<open>The contract of a block cipher\<close>

text \<open>
  Two maps on blocks of two words, the second undoing the first. What \<open>tea_blocks\<close> makes of
  them, block by block on a buffer, is then undone as well.
\<close>

lemma length_tea_blocks [simp]: "length (tea_blocks f l d) = length d"
proof (induction f l d rule: tea_blocks.induct)
  case (1 f l d)
  then show ?case
    by (cases "l < 8 \<or> length d < 8") (simp_all add: tea_blocks.simps [of f l d] split: prod.split)
qed

lemma bytes_le_of: "length bs = n \<Longrightarrow> 8 * n \<le> LENGTH('a) \<Longrightarrow> bytes_le n (word_le bs :: 'a::len word) = bs"
  using bytes_le_word_le [of bs] by auto

locale block_cipher =
  fixes E D :: "32 block \<Rightarrow> 32 block"
  assumes D_E: "D (E v) = v"
begin

lemma inj_E: "inj E"
  by (rule inj_on_inverseI [of _ D]) (rule D_E)

lemma blocks_inverse: "tea_blocks D l (tea_blocks E l d) = d"
proof (induction l arbitrary: d rule: less_induct)
  case (less l)
  show ?case
  proof (cases "l < 8 \<or> length d < 8")
    case False
    define a b where "a = (word_le (take 4 d) :: u32)" and "b = (word_le (take 4 (drop 4 d)) :: u32)"
    obtain v0 v1 where v: "E (a, b) = (v0, v1)" by (cases "E (a, b)")
    have E: "tea_blocks E l d = bytes_le 4 v0 @ bytes_le 4 v1 @ tea_blocks E (l - 8) (drop 8 d)"
      using False v by (subst tea_blocks.simps) (simp add: a_def b_def)
    have "D (v0, v1) = (a, b)" using D_E [of "(a, b)"] v by simp
    then have "tea_blocks D l (tea_blocks E l d) =
        bytes_le 4 a @ bytes_le 4 b @ tea_blocks D (l - 8) (tea_blocks E (l - 8) (drop 8 d))"
      unfolding E using False by (subst tea_blocks.simps) (simp add: word_le_bytes_le)
    also have "tea_blocks D (l - 8) (tea_blocks E (l - 8) (drop 8 d)) = drop 8 d"
      using False by (intro less) simp
    also have "bytes_le 4 a = take 4 d"
      unfolding a_def by (rule bytes_le_of; use False in auto)
    also have "bytes_le 4 b = take 4 (drop 4 d)"
      unfolding b_def by (rule bytes_le_of; use False in auto)
    finally show ?thesis by (metis append_take_drop_id drop_drop numeral_plus_numeral semiring_norm(2,6))
  qed (simp add: tea_blocks.simps)
qed

end

section \<open>Rounds\<close>

definition enc_round :: "'a::len word tea_key \<Rightarrow> 'a word \<Rightarrow> 'a block \<Rightarrow> 'a block" where
  "enc_round k s v =
     (let v0 = fst v + tea_mix (snd v) s (k0 k) (k1 k) in (v0, snd v + tea_mix v0 s (k2 k) (k3 k)))"

definition dec_round :: "'a::len word tea_key \<Rightarrow> 'a word \<Rightarrow> 'a block \<Rightarrow> 'a block" where
  "dec_round k s v =
     (let v1 = snd v - tea_mix (fst v) s (k2 k) (k3 k) in (fst v - tea_mix v1 s (k0 k) (k1 k), v1))"

lemma dec_enc_round: "dec_round k s (enc_round k s v) = v"
  by (simp add: dec_round_def enc_round_def Let_def)

lemma rounds_Suc:
  "encrypt_rounds (Suc n) k sm v = encrypt_rounds n k (sm + delta) (enc_round k (sm + delta) v)"
  "decrypt_rounds (Suc n) k sm v = decrypt_rounds n k (sm - delta) (dec_round k sm v)"
  by (simp_all add: enc_round_def dec_round_def Let_def)

lemma encrypt_rounds_last:
  "encrypt_rounds (Suc n) k sm v = enc_round k (sm + of_nat (Suc n) * delta) (encrypt_rounds n k sm v)"
proof (induction n arbitrary: sm v)
  case (Suc n)
  have "encrypt_rounds (Suc (Suc n)) k sm v = encrypt_rounds (Suc n) k (sm + delta) (enc_round k (sm + delta) v)"
    by (rule rounds_Suc)
  also have "\<dots> = enc_round k (sm + delta + of_nat (Suc n) * delta) (encrypt_rounds n k (sm + delta) (enc_round k (sm + delta) v))"
    by (rule Suc)
  also have "sm + delta + of_nat (Suc n) * delta = sm + of_nat (Suc (Suc n)) * delta"
    by (simp add: algebra_simps)
  finally show ?case by (simp only: rounds_Suc)
qed (simp add: enc_round_def Let_def)

lemma decrypt_encrypt_rounds:
  "decrypt_rounds n k (sm + of_nat n * delta) (encrypt_rounds n k sm v) = v"
proof (induction n)
  case (Suc n)
  have "sm + of_nat (Suc n) * delta - delta = sm + of_nat n * delta" by (simp add: algebra_simps)
  with Suc show ?case
    unfolding encrypt_rounds_last rounds_Suc(2) dec_enc_round by (simp only:)
qed simp

lemma Decrypt_Encrypt_block: "Decrypt_block k (Encrypt_block k v) = v"
proof -
  have "0 + of_nat 32 * delta = (0xC6EF3720 :: u32)" by (simp add: delta_def)
  with decrypt_encrypt_rounds [of 32 k 0 v] show ?thesis
    unfolding Decrypt_block_def Encrypt_block_def by (simp only:)
qed

interpretation algo: block_cipher "Encrypt_block k" "Decrypt_block k" for k
  by unfold_locales (rule Decrypt_Encrypt_block)

section \<open>The class Tea with words of 32 bits\<close>

lemma Tea_ntoh_ntoh: "Tea_ntoh t (Tea_ntoh t x) = (x :: u32)"
  by (simp add: Tea_ntoh_def bswap_bswap)

lemma Tea_decrypt_encrypt:
  assumes "0 \<le> tea_round t" and "Tea_sum lg2 (tea_round t) = (of_nat (nat (tea_round t)) * delta :: u32)"
  shows "Option.bind (Tea_encrypt t beyond v) (Tea_decrypt lg2 t beyond) = Some (v :: 32 block)"
proof -
  let ?n = "nat (tea_round t)" and ?k = "Tea_key t beyond :: u32 tea_key"
  obtain y z where w: "encrypt_rounds ?n ?k 0 (Tea_ntoh t (fst v), Tea_ntoh t (snd v)) = (y, z)"
    by (cases "encrypt_rounds ?n ?k 0 (Tea_ntoh t (fst v), Tea_ntoh t (snd v))")
  have "decrypt_rounds ?n ?k (Tea_sum lg2 (tea_round t)) (y, z) = (Tea_ntoh t (fst v), Tea_ntoh t (snd v))"
    using decrypt_encrypt_rounds [of ?n ?k 0 "(Tea_ntoh t (fst v), Tea_ntoh t (snd v))"] w assms(2) by simp
  with w assms(1) show ?thesis
    by (simp add: Tea_encrypt_def Tea_decrypt_def Tea_ntoh_ntoh)
qed

lemma Tea_sum_32:
  "Tea_sum lg2 32 = (of_nat (nat 32) * delta :: u32)" "Tea_sum lg2 16 = (of_nat (nat 16) * delta :: u32)"
  "lg2 (2 ^ n) = n \<Longrightarrow> Tea_sum lg2 (2 ^ n) = (of_nat (nat (2 ^ n)) * delta :: u32)"
proof -
  show s: "Tea_sum lg2 32 = (of_nat (nat 32) * delta :: u32)" "Tea_sum lg2 16 = (of_nat (nat 16) * delta :: u32)"
    by (simp_all add: Tea_sum_def delta_def)
  assume lg: "lg2 (2 ^ n) = n"
  consider "(2 :: int) ^ n = 32" | "(2 :: int) ^ n = 16" | "(2 :: int) ^ n \<noteq> 32" "(2 :: int) ^ n \<noteq> 16" by blast
  then show "Tea_sum lg2 (2 ^ n) = (of_nat (nat (2 ^ n)) * delta :: u32)"
  proof cases
    case 3
    have "nat (2 ^ n) = 2 ^ n" by (simp add: nat_power_eq)
    with 3 lg show ?thesis by (simp add: Tea_sum_def push_bit_eq_mult)
  qed (use s in \<open>simp_all only:\<close>)
qed

section \<open>Hexadecimal text\<close>

lemma hex_digit: "HexCharToInt (IntToHexChar k) = int k" "IntToHexChar k \<noteq> bc CHR '' ''" if "k < 16"
proof -
  have "list_all (\<lambda>k. HexCharToInt (IntToHexChar k) = int k \<and> IntToHexChar k \<noteq> bc CHR '' '') [0..<16]" by code_simp
  with that show "HexCharToInt (IntToHexChar k) = int k" "IntToHexChar k \<noteq> bc CHR '' ''"
    by (simp_all add: list_all_iff)
qed

lemma hex_pieces_text:
  "hex_pieces (ByteToHexString bs) = map (\<lambda>t. [IntToHexChar (unat t div 16), IntToHexChar (unat t mod 16)]) bs"
proof (induction bs)
  case (Cons t bs)
  have d: "unat t div 16 < 16" using unat_byte_bound [of t] by simp
  have h: "IntToHexChar (unat t div 16) \<noteq> 32" "IntToHexChar (unat t mod 16) \<noteq> 32"
    using hex_digit(2) [OF d] hex_digit(2) [of "unat t mod 16"] by simp_all
  then show ?case
    using Cons by (subst hex_pieces.simps) (auto simp del: hex_pieces.simps)
qed (simp add: hex_pieces.simps)

lemma HexStringToByte_text: "HexStringToByte (ByteToHexString bs) = Some bs"
proof -
  have "word_of_int (HexCharToInt (IntToHexChar (unat t div 16)) * 16 + HexCharToInt (IntToHexChar (unat t mod 16))) = t"
    for t :: byte
  proof -
    have "int (a div 16) * 16 + int (a mod 16) = int a" for a by presburger
    from this [of "unat t"] unat_byte_bound [of t] show ?thesis by (simp add: hex_digit del: of_nat_mod of_nat_div)
  qed
  then show ?thesis
    by (auto simp: HexStringToByte_def hex_pieces_text Let_def comp_def simp del: hex_pieces.simps)
qed

interpretation hex: codec ByteToHexString HexStringToByte "\<lambda>_. True"
  by unfold_locales (rule HexStringToByte_text)

section \<open>Properties\<close>

lemma round_up: "l mod 8 \<noteq> 0 \<Longrightarrow> (l - Suc 0) div 8 + Suc 0 = (l + 7) div (8 :: nat)"
  by (cases l) (simp_all add: div_Suc)

lemma algo_Encrypt_eq:
  assumes "td_d t = Some d"
  shows "td_l t mod 8 = 0 \<Longrightarrow> algo_Encrypt (Some t) =
      (True, Some \<lparr>td_d = Some (tea_blocks (Encrypt_block algo_key) (td_l t) d), td_l = td_l t\<rparr>)"
    and "td_l t mod 8 \<noteq> 0 \<Longrightarrow> algo_Encrypt (Some t) =
      (let l = ((td_l t - 1) div 8 + 1) * 8
       in (True, Some \<lparr>td_d = Some (tea_blocks (Encrypt_block algo_key) l (tea_pad (td_l t) d)), td_l = l\<rparr>))"
  using assms by (simp_all only: algo_Encrypt_def option.case Let_def split if_True if_False not_True_eq_False not_False_eq_True simp_thms)

lemma algo_Decrypt_eq:
  "td_d t = Some d \<Longrightarrow> td_l t mod 8 = 0 \<Longrightarrow> algo_Decrypt (Some t) =
     (True, Some (t\<lparr>td_d := Some (tea_blocks (Decrypt_block algo_key) (td_l t) d)\<rparr>))"
  by (simp add: algo_Decrypt_def)

text \<open>
  (C13) \<open>algo::Decrypt\<close> undoes \<open>algo::Encrypt\<close>: it succeeds on what \<open>Encrypt\<close> returned, and the
  buffer is then the data, filled up with zeros to a multiple of eight bytes when it was
  not one. (Bytes of the block after \<open>l\<close> are kept only in the first case.) The key is the
  constant of the file.
\<close>
theorem algo_roundtrip:
  assumes "td_d t = Some d" and "td_l t \<le> length d"
  shows "\<exists>t'. algo_Encrypt (Some t) = (True, Some t') \<and> td_l t' = (td_l t + 7) div 8 * 8 \<and>
    algo_Decrypt (Some t') =
      (True, Some (t'\<lparr>td_d := Some (if td_l t mod 8 = 0 then d
        else take (td_l t) d @ replicate (td_l t' - td_l t) 0)\<rparr>))"
proof -
  define L where "L = (td_l t + 7) div 8 * 8"
  have "L mod 8 = 0" by (simp add: L_def)
  show ?thesis
  proof (cases "td_l t mod 8 = 0")
    case True
    then have "L = td_l t" unfolding L_def by presburger
    with True algo_Encrypt_eq(1) [OF assms(1)] show ?thesis
      unfolding L_def [symmetric] by (simp add: algo_Decrypt_eq algo.blocks_inverse)
  next
    case False
    then have "((td_l t - 1) div 8 + 1) * 8 = L"
      unfolding L_def using round_up [OF False] by (simp only: One_nat_def)
    with False algo_Encrypt_eq(2) [OF assms(1)] \<open>L mod 8 = 0\<close> show ?thesis
      unfolding L_def [symmetric] by (simp add: algo_Decrypt_eq algo.blocks_inverse tea_pad_def Let_def)
  qed
qed

theorem algo_roundtrip_witness:
  "let t = \<lparr>td_d = Some [1, 2, 3, 4, 5, 6, 7, 8, 9, 10], td_l = 9\<rparr> in
   \<exists>t'. algo_Encrypt (Some t) = (True, Some t') \<and> td_l t' = (td_l t + 7) div 8 * 8 \<and>
    algo_Decrypt (Some t') =
      (True, Some (t'\<lparr>td_d := Some (if td_l t mod 8 = 0 then [1, 2, 3, 4, 5, 6, 7, 8, 9, 10]
        else take (td_l t) [1, 2, 3, 4, 5, 6, 7, 8, 9, 10] @ replicate (td_l t' - td_l t) 0)\<rparr>))"
  unfolding Let_def by (rule algo_roundtrip) simp_all

text \<open>
  \<open>algo::Encrypt\<close> and \<open>algo::Decrypt\<close> refuse NULL, and \<open>Decrypt\<close> refuses a size that is not a
  multiple of eight; then nothing changes. Otherwise they succeed and keep the size of the
  buffer or, for \<open>Encrypt\<close>, of the padded one.
\<close>
theorem algo_results:
  "(fst (algo_Encrypt td) \<longleftrightarrow> (\<exists>t d. td = Some t \<and> td_d t = Some d)) \<and>
   (fst (algo_Decrypt td) \<longleftrightarrow> (\<exists>t d. td = Some t \<and> td_d t = Some d \<and> td_l t mod 8 = 0)) \<and>
   (\<not> fst (algo_Encrypt td) \<longrightarrow> snd (algo_Encrypt td) = td) \<and>
   (\<not> fst (algo_Decrypt td) \<longrightarrow> snd (algo_Decrypt td) = td) \<and>
   (\<forall>t d. td = Some t \<and> td_d t = Some d \<and> td_l t mod 8 = 0 \<longrightarrow>
      map_option length (td_d (the (snd (algo_Encrypt td)))) = Some (length d) \<and>
      map_option length (td_d (the (snd (algo_Decrypt td)))) = Some (length d))"
  by (auto simp: algo_Encrypt_def algo_Decrypt_def Let_def split: option.splits)

theorem algo_results_witness:
  "\<not> fst (algo_Decrypt (Some \<lparr>td_d = Some [1, 2, 3], td_l = 3\<rparr>)) \<and>
   snd (algo_Decrypt (Some \<lparr>td_d = Some [1, 2, 3], td_l = 3\<rparr>)) = Some \<lparr>td_d = Some [1, 2, 3], td_l = 3\<rparr>"
  using algo_results [of "Some \<lparr>td_d = Some [1, 2, 3], td_l = 3\<rparr>"] by auto



text \<open>
  Where \<open>unsigned long\<close> has 64 bits the class does not decrypt what it encrypted: the sum
  from which \<open>decrypt\<close> starts is that of 32-bit arithmetic. With the zero key and 32 rounds
  the zero block comes back as something else; and with 32 bits a number of rounds that is not
  a power of two has the same effect.
\<close>
theorem Tea_64_bits_broken:
  "Option.bind (Tea_encrypt (Tea_new None 32 False) (replicate 16 0) (0 :: u64, 0))
     (Tea_decrypt (\<lambda>_. 5) (Tea_new None 32 False) (replicate 16 0)) \<noteq> Some (0, 0) \<and>
   Option.bind (Tea_encrypt (Tea_new None 3 False) [] (0 :: u32, 0))
     (Tea_decrypt (\<lambda>_. 1) (Tea_new None 3 False) []) \<noteq> Some (0, 0)"
  by code_simp

text \<open>
  \<open>HexStringToByte\<close> reads back what \<open>ByteToHexString\<close> wrote, for every array of bytes, and so
  the text determines the bytes.
\<close>
theorem hex_roundtrip:
  "HexStringToByte (ByteToHexString bs) = Some bs \<and>
   (ByteToHexString bs = ByteToHexString cs \<longleftrightarrow> bs = cs)"
  using hex.enc_inj [of bs cs] by (simp add: HexStringToByte_text)

end
