(* ===== verification/DataPacket.thy ===== *)
theory DataPacket
  imports Memory
begin

text \<open>
  \<^verbatim>\<open>public/protocol/data_packet.cc\<close> and \<^verbatim>\<open>data_packet.h\<close>: the packets of the network code,
  written and read with stream operators. The writer grows its block; the model has the
  block, the allocator as a parameter, and an undefined result for every access outside of
  memory. \<open>wire\<close> is the contract between an operator \<open><<\<close> and its \<open>>>\<close>; it is interpreted
  for every type of the stream and for a sequence element of any of them.
\<close>

section \<open>DataOutPacket\<close>

text \<open>Pointers into the buffer are offsets from its start.\<close>

record DataOutPacket =
  obuffer :: "byte list option"
  obuffer_length :: int
  ocursor :: int
  oauto_delete :: bool

text \<open>The constructor fills the block before it checks that there is one.\<close>

definition DataOutPacket_new :: "heap \<Rightarrow> bool \<Rightarrow> int \<Rightarrow> DataOutPacket option" where
  "DataOutPacket_new h auto_delete len =
     (if alloc_ok h len \<and> 0 \<le> len
      then Some \<lparr>obuffer = Some (replicate (nat len) (bc CHR ''0'')), obuffer_length = len, ocursor = 0,
                 oauto_delete = auto_delete\<rparr>
      else None)"

definition Out_GetData :: "DataOutPacket \<Rightarrow> byte list option" where
  "Out_GetData out = obuffer out"

definition Out_GetLength :: "DataOutPacket \<Rightarrow> int" where
  "Out_GetLength out = i32 (ocursor out)"

definition Out_Reset :: "DataOutPacket \<Rightarrow> DataOutPacket" where
  "Out_Reset out = out\<lparr>ocursor := 0\<rparr>"

definition Out_Skip :: "DataOutPacket \<Rightarrow> int \<Rightarrow> int \<times> DataOutPacket" where
  "Out_Skip out delta = (ocursor out, out\<lparr>ocursor := ocursor out + delta\<rparr>)"

definition Out_SetCursor :: "DataOutPacket \<Rightarrow> int \<Rightarrow> int \<times> DataOutPacket" where
  "Out_SetCursor out cur = (ocursor out, out\<lparr>ocursor := cur\<rparr>)"

text \<open>
  The lines every writer starts with: grow the block to twice the size \<open>need\<close> that is
  about to be filled. The flag tells whether the writer goes on.
\<close>

definition Out_grow :: "heap \<Rightarrow> int \<Rightarrow> DataOutPacket \<Rightarrow> bool \<times> DataOutPacket" where
  "Out_grow h need out =
     (let filled = i32 (ocursor out); len = i32 (i32 need * 2) in
      if alloc_ok h len \<and> 0 \<le> len
      then (True, out\<lparr>obuffer := Some (mem_resize h (nat len) (case obuffer out of None \<Rightarrow> [] | Some b \<Rightarrow> b)),
                      obuffer_length := len, ocursor := filled\<rparr>)
      else (False, Out_Reset (out\<lparr>obuffer := None, obuffer_length := 0\<rparr>)))"

definition Out_put :: "byte list \<Rightarrow> DataOutPacket \<Rightarrow> DataOutPacket option" where
  "Out_put bs out =
     (case Option.bind (obuffer out) (mem_store (ocursor out) bs) of
        None \<Rightarrow> None
      | Some b \<Rightarrow> Some (out\<lparr>obuffer := Some b, ocursor := ocursor out + int (length bs)\<rparr>))"

text \<open>The comparison with \<open>sizeof\<close> is one of unsigned 64-bit numbers.\<close>

definition u64_less :: "int \<Rightarrow> int \<Rightarrow> bool" where
  "u64_less a b \<longleftrightarrow> a mod 2 ^ 64 < b mod 2 ^ 64"

definition Write8 :: "heap \<Rightarrow> byte \<Rightarrow> DataOutPacket \<Rightarrow> DataOutPacket option" where
  "Write8 h b out =
     (case (if u64_less (obuffer_length out) (ocursor out + 1) then Out_grow h (ocursor out + 1) out else (True, out)) of
        (False, out) \<Rightarrow> Some out
      | (True, out) \<Rightarrow> Out_put [b] out)"

definition Write16 :: "heap \<Rightarrow> u16 \<Rightarrow> DataOutPacket \<Rightarrow> DataOutPacket option" where
  "Write16 h w out =
     (case (if u64_less (obuffer_length out) (ocursor out + 2) then Out_grow h (ocursor out + 2) out else (True, out)) of
        (False, out) \<Rightarrow> Some out
      | (True, out) \<Rightarrow> Out_put (bytes_le 2 w) out)"

definition Write32 :: "heap \<Rightarrow> u32 \<Rightarrow> DataOutPacket \<Rightarrow> DataOutPacket option" where
  "Write32 h dw out =
     (case (if u64_less (obuffer_length out) (ocursor out + 4) then Out_grow h (ocursor out + 4) out else (True, out)) of
        (False, out) \<Rightarrow> Some out
      | (True, out) \<Rightarrow> Out_put (bytes_le 4 dw) out)"

definition Write64 :: "heap \<Rightarrow> u64 \<Rightarrow> DataOutPacket \<Rightarrow> DataOutPacket option" where
  "Write64 h lw out =
     (case (if u64_less (obuffer_length out) (ocursor out + 8) then Out_grow h (ocursor out + 8) out else (True, out)) of
        (False, out) \<Rightarrow> Some out
      | (True, out) \<Rightarrow> Out_put (bytes_le 8 lw) out)"

text \<open>\<open>buf\<close> is the memory at the pointer; a negative length is a huge one for \<open>memcpy\<close>.\<close>

definition WriteData :: "heap \<Rightarrow> byte list \<Rightarrow> int \<Rightarrow> DataOutPacket \<Rightarrow> DataOutPacket option" where
  "WriteData h buf len out =
     (case (if obuffer_length out < ocursor out + len then Out_grow h (ocursor out + len) out else (True, out)) of
        (False, out) \<Rightarrow> Some out
      | (True, out) \<Rightarrow>
          if len < 0 then None
          else Option.bind (mem_load 0 (nat len) buf) (\<lambda>bs. Out_put bs out))"

definition Out_int8 :: "heap \<Rightarrow> byte \<Rightarrow> DataOutPacket \<Rightarrow> DataOutPacket option" where
  "Out_int8 h b out = Write8 h b out"

definition Out_int16 :: "heap \<Rightarrow> u16 \<Rightarrow> DataOutPacket \<Rightarrow> DataOutPacket option" where
  "Out_int16 h w out = Write16 h (bswap16 w) out"

definition Out_int32 :: "heap \<Rightarrow> u32 \<Rightarrow> DataOutPacket \<Rightarrow> DataOutPacket option" where
  "Out_int32 h dw out = Write32 h (bswap32 dw) out"

definition Out_int64 :: "heap \<Rightarrow> u64 \<Rightarrow> DataOutPacket \<Rightarrow> DataOutPacket option" where
  "Out_int64 h lw out = Write64 h (htonl64 lw) out"

definition Out_bool :: "heap \<Rightarrow> bool \<Rightarrow> DataOutPacket \<Rightarrow> DataOutPacket option" where
  "Out_bool h b out = Write8 h (if b then 1 else 0) out"

text \<open>
  \<open>WriteString\<close>: the length with the NUL, then the characters with it. The size that is
  checked is one less than what is written.
\<close>

definition WriteString :: "heap \<Rightarrow> byte list \<Rightarrow> int \<Rightarrow> DataOutPacket \<Rightarrow> DataOutPacket option" where
  "WriteString h s n out =
     (let len = i32 (n + 1) in
      case (if u64_less (obuffer_length out) (ocursor out + n + 4) then Out_grow h (ocursor out + n + 4) out
            else (True, out)) of
        (False, out) \<Rightarrow> Some out
      | (True, out) \<Rightarrow>
          Option.bind (Out_int32 h (word_of_int len) out) (\<lambda>out.
            if len < 0 \<or> n < 0 then None
            else Option.bind (mem_load 0 (nat len) s) (\<lambda>bs. Out_put (bs[nat n := 0]) out)))"

text \<open>The argument is a C string: the characters, and the NUL that ends them.\<close>

definition Out_cstr :: "heap \<Rightarrow> cstring \<Rightarrow> DataOutPacket \<Rightarrow> DataOutPacket option" where
  "Out_cstr h s out = WriteString h (s @ [0]) (i32 (int (length (takeWhile (\<lambda>c. c \<noteq> 0) s)))) out"

definition Out_string :: "heap \<Rightarrow> cstring \<Rightarrow> DataOutPacket \<Rightarrow> DataOutPacket option" where
  "Out_string h s out = WriteString h (s @ [0]) (i32 (int (length (takeWhile (\<lambda>c. c \<noteq> 0) s)))) out"

section \<open>DataInPacket\<close>

record DataInPacket =
  idata :: "byte list"
  icursor :: int
  idata_len :: int
  iinit_len :: int

definition DataInPacket_new :: "byte list \<Rightarrow> int \<Rightarrow> DataInPacket" where
  "DataInPacket_new d n = \<lparr>idata = d, icursor = 0, idata_len = n, iinit_len = n\<rparr>"

definition In_Reset :: "DataInPacket \<Rightarrow> DataInPacket" where
  "In_Reset inp = inp\<lparr>icursor := 0, idata_len := iinit_len inp\<rparr>"

definition In_GetLength :: "DataInPacket \<Rightarrow> int" where
  "In_GetLength inp = idata_len inp"

text \<open>
  The readers: zero when fewer bytes are left, in a comparison of unsigned 64-bit numbers, for
  which a cursor past the end has many bytes left. \<open>None\<close> is a load outside of the memory.
\<close>

definition In_read :: "nat \<Rightarrow> DataInPacket \<Rightarrow> ('a::len word \<times> DataInPacket) option" where
  "In_read n inp =
     (if u64_less (idata_len inp - icursor inp) (int n) then Some (0, inp)
      else map_option (\<lambda>bs. (word_le bs, inp\<lparr>icursor := icursor inp + int n\<rparr>))
        (mem_load (icursor inp) n (idata inp)))"

definition Read8 :: "DataInPacket \<Rightarrow> (byte \<times> DataInPacket) option" where
  "Read8 inp = In_read 1 inp"

definition Read16 :: "DataInPacket \<Rightarrow> (u16 \<times> DataInPacket) option" where
  "Read16 inp = In_read 2 inp"

definition Read32 :: "DataInPacket \<Rightarrow> (u32 \<times> DataInPacket) option" where
  "Read32 inp = In_read 4 inp"

definition Read64 :: "DataInPacket \<Rightarrow> (u64 \<times> DataInPacket) option" where
  "Read64 inp = In_read 8 inp"

definition In_bool :: "DataInPacket \<Rightarrow> (bool \<times> DataInPacket) option" where
  "In_bool inp = map_option (map_prod (\<lambda>b. b \<noteq> 0) id) (Read8 inp)"

definition In_int8 :: "DataInPacket \<Rightarrow> (byte \<times> DataInPacket) option" where
  "In_int8 inp = Read8 inp"

definition In_int16 :: "DataInPacket \<Rightarrow> (u16 \<times> DataInPacket) option" where
  "In_int16 inp = map_option (map_prod bswap16 id) (Read16 inp)"

definition In_int32 :: "DataInPacket \<Rightarrow> (u32 \<times> DataInPacket) option" where
  "In_int32 inp = map_option (map_prod bswap32 id) (Read32 inp)"

definition In_int64 :: "DataInPacket \<Rightarrow> (u64 \<times> DataInPacket) option" where
  "In_int64 inp = map_option (map_prod htonl64 id) (Read64 inp)"

text \<open>
  The three readers of strings share these lines; the string is what stands before the first
  NUL, and the last character that was counted must be one.
\<close>

definition In_cstr :: "DataInPacket \<Rightarrow> (cstring \<times> DataInPacket) option" where
  "In_cstr inp =
     Option.bind (In_int32 inp) (\<lambda>(n, inp).
       let len = sint n in
       if len > 0 \<and> len \<le> idata_len inp - icursor inp then
         Option.bind (mem_load (icursor inp) (nat len) (idata inp)) (\<lambda>bs.
           if last bs = 0
           then Some (takeWhile (\<lambda>c. c \<noteq> 0) bs, inp\<lparr>icursor := icursor inp + len\<rparr>)
           else Some ([], inp))
       else Some ([], inp))"

definition In_string :: "DataInPacket \<Rightarrow> (cstring \<times> DataInPacket) option" where
  "In_string inp = In_cstr inp"

text \<open>\<open>>> (char*)\<close>: what \<open>strcpy\<close> then copies, without a bound, to the caller's block.\<close>

definition In_chars :: "DataInPacket \<Rightarrow> (cstring \<times> DataInPacket) option" where
  "In_chars inp = map_option (map_prod (\<lambda>s. s @ [0]) id) (In_cstr inp)"

text \<open>\<open>ReadData\<close>: the position of the data (\<open>None\<close> is NULL) and the number of bytes left.\<close>

definition ReadData :: "DataInPacket \<Rightarrow> int option \<times> int" where
  "ReadData inp =
     (let n = i32 (idata_len inp - icursor inp) in (if n = 0 then None else Some (icursor inp), n))"

definition ReadData_size :: "DataInPacket \<Rightarrow> int \<Rightarrow> (int option \<times> int) \<times> DataInPacket" where
  "ReadData_size inp sz =
     (let n = i32 (idata_len inp - icursor inp) in
      if n = 0 then ((None, n), inp) else ((Some (icursor inp), n), inp\<lparr>icursor := icursor inp + sz\<rparr>))"

definition In_Forward :: "DataInPacket \<Rightarrow> int \<Rightarrow> int \<times> DataInPacket" where
  "In_Forward inp delta =
     (let forward_len = i32 (icursor inp);
          delta = (if delta > forward_len then forward_len else delta)
      in (delta, inp\<lparr>icursor := icursor inp - delta\<rparr>))"

section \<open>The invariant of the writer\<close>

text \<open>A packet with a block, of the size it believes, and the cursor inside of it.\<close>

definition out_ok :: "DataOutPacket \<Rightarrow> bool" where
  "out_ok out \<longleftrightarrow> (\<exists>b. obuffer out = Some b \<and> int (length b) = obuffer_length out) \<and>
     0 \<le> ocursor out \<and> ocursor out \<le> obuffer_length out \<and> obuffer_length out < 2 ^ 31"

text \<open>The bytes before the cursor: what the packet says.\<close>

definition out_text :: "DataOutPacket \<Rightarrow> byte list" where
  "out_text out = take (nat (ocursor out)) (the (obuffer out))"

text \<open>\<open>emits bs f\<close>: the writer \<open>f\<close> adds the bytes \<open>bs\<close>.\<close>

definition appended :: "byte list \<Rightarrow> DataOutPacket \<Rightarrow> DataOutPacket option \<Rightarrow> bool" where
  "appended bs out r \<longleftrightarrow>
     (\<exists>out'. r = Some out' \<and> out_ok out' \<and> out_text out' = out_text out @ bs \<and>
       ocursor out' = ocursor out + int (length bs))"

lemma u64_less_small: "0 \<le> a \<Longrightarrow> a < 2 ^ 64 \<Longrightarrow> 0 \<le> b \<Longrightarrow> b < 2 ^ 64 \<Longrightarrow> u64_less a b \<longleftrightarrow> a < b"
  by (simp add: u64_less_def)

lemma Out_put_ok:
  assumes "out_ok out" "ocursor out + int (length bs) \<le> obuffer_length out"
  shows "appended bs out (Out_put bs out)"
proof -
  obtain b where b: "obuffer out = Some b" "int (length b) = obuffer_length out" using assms(1) by (auto simp: out_ok_def)
  have "nat (ocursor out + int (length bs)) = nat (ocursor out) + length bs"
    using assms(1) by (simp add: out_ok_def nat_add_distrib)
  with b assms show ?thesis
    by (auto simp: appended_def Out_put_def mem_store_def out_ok_def out_text_def)
qed

lemma Out_put_beyond:
  assumes "out_ok out" "ocursor out + int (length bs) > obuffer_length out"
  shows "Out_put bs out = None"
  using assms by (auto simp: Out_put_def mem_store_def out_ok_def)

lemma Out_grow_ok:
  assumes "out_ok out" "obuffer_length out < need" "need < 2 ^ 30" "alloc_ok h (2 * need)"
  obtains out' where "Out_grow h need out = (True, out')" "out_ok out'" "out_text out' = out_text out"
    "ocursor out' = ocursor out" "obuffer_length out' = 2 * need"
proof -
  obtain b where b: "obuffer out = Some b" "int (length b) = obuffer_length out" using assms(1) by (auto simp: out_ok_def)
  have c: "0 \<le> ocursor out" "ocursor out \<le> int (length b)" "int (length b) < need"
    using assms b by (auto simp: out_ok_def)
  have i: "i32 (ocursor out) = ocursor out" "i32 need = need" "i32 (need * 2) = need * 2"
    using assms c by (simp_all add: i32_small)
  have "length b \<le> nat (need * 2)" using c by simp
  then show ?thesis
    using that assms b c by (fastforce simp: Out_grow_def Let_def i out_ok_def out_text_def mem_resize_def mult.commute)
qed

text \<open>The common body of the writers of numbers.\<close>

lemma grow_put:
  assumes "out_ok out" "n = int (length bs)" "ocursor out + n < 2 ^ 30" "\<forall>n. alloc_ok h n"
  shows "appended bs out
    (case (if u64_less (obuffer_length out) (ocursor out + n) then Out_grow h (ocursor out + n) out else (True, out)) of
       (False, out) \<Rightarrow> Some out | (True, out) \<Rightarrow> Out_put bs out)"
proof -
  let ?need = "ocursor out + n"
  have u: "u64_less (obuffer_length out) ?need \<longleftrightarrow> obuffer_length out < ?need"
    using assms by (intro u64_less_small) (auto simp: out_ok_def)
  show ?thesis
  proof (cases "obuffer_length out < ?need")
    case True
    obtain out' where "Out_grow h ?need out = (True, out')" "out_ok out'" "out_text out' = out_text out"
      "ocursor out' = ocursor out" "obuffer_length out' = 2 * ?need"
      using Out_grow_ok [OF assms(1) True assms(3)] assms(4) by blast
    moreover have "appended bs out' (Out_put bs out')"
      using calculation assms by (intro Out_put_ok) (auto simp: out_ok_def)
    ultimately show ?thesis using True u by (simp add: appended_def)
  next
    case False
    with u show ?thesis using Out_put_ok [OF assms(1)] assms(2) by simp
  qed
qed

lemma Write_numbers:
  assumes "out_ok out" "\<forall>n. alloc_ok h n"
  shows "ocursor out + 1 < 2 ^ 30 \<Longrightarrow> appended [b] out (Write8 h b out)"
    and "ocursor out + 2 < 2 ^ 30 \<Longrightarrow> appended (bytes_le 2 w) out (Write16 h w out)"
    and "ocursor out + 4 < 2 ^ 30 \<Longrightarrow> appended (bytes_le 4 dw) out (Write32 h dw out)"
    and "ocursor out + 8 < 2 ^ 30 \<Longrightarrow> appended (bytes_le 8 lw) out (Write64 h lw out)"
  unfolding Write8_def Write16_def Write32_def Write64_def by (rule grow_put [OF assms(1) _ _ assms(2)]; simp)+

lemma appended_trans:
  "appended a out (Some out1) \<Longrightarrow> appended b out1 r \<Longrightarrow> appended (a @ b) out r"
  by (auto simp: appended_def)

lemma appendedE:
  assumes "appended a out r"
  obtains out' where "r = Some out'" "out_ok out'" "ocursor out' = ocursor out + int (length a)" "appended a out (Some out')"
  using assms by (auto simp: appended_def)

lemma Out_put_length: "Out_put bs out = Some out' \<Longrightarrow> obuffer_length out' = obuffer_length out"
  by (auto simp: Out_put_def split: option.splits)

text \<open>The bytes on the wire of a string: its size with the NUL, the characters, the NUL.\<close>

definition cstr_bytes :: "cstring \<Rightarrow> byte list" where
  "cstr_bytes s = rev (bytes_le 4 (word_of_nat (length s + 1) :: u32)) @ s @ [0]"

lemma length_cstr_bytes [simp]: "length (cstr_bytes s) = length s + 5"
  by (simp add: cstr_bytes_def)

lemma WriteString_body:
  assumes "out_ok out" "0 \<notin> set s" "int (length s) < 2 ^ 30" "ocursor out + int (length s) + 4 \<le> obuffer_length out"
    "\<forall>n. alloc_ok h n" "ocursor out + 4 < 2 ^ 30"
  shows "obuffer_length out = ocursor out + int (length s) + 4 \<Longrightarrow>
      Option.bind (Out_int32 h (word_of_int (int (length s) + 1)) out) (Out_put (s @ [0])) = None"
    and "obuffer_length out \<noteq> ocursor out + int (length s) + 4 \<Longrightarrow>
      appended (cstr_bytes s) out (Option.bind (Out_int32 h (word_of_int (int (length s) + 1)) out) (Out_put (s @ [0])))"
proof -
  let ?w = "word_of_int (int (length s) + 1) :: u32"
  have nogrow: "\<not> u64_less (obuffer_length out) (ocursor out + 4)"
    using assms by (subst u64_less_small) (auto simp: out_ok_def)
  have "appended (bytes_le 4 (bswap32 ?w)) out (Out_int32 h ?w out)"
    unfolding Out_int32_def using assms(1,5,6) by (intro Write_numbers)
  then obtain out1 where o1: "Out_int32 h ?w out = Some out1" "out_ok out1" "ocursor out1 = ocursor out + 4"
    and a1: "appended (bytes_le 4 (bswap32 ?w)) out (Some out1)"
    by (rule appendedE) auto
  have l1: "obuffer_length out1 = obuffer_length out"
    using o1(1) nogrow Out_put_length by (simp add: Out_int32_def Write32_def)
  have w: "?w = word_of_nat (length s + 1)" by simp
  show "Option.bind (Out_int32 h ?w out) (Out_put (s @ [0])) = None"
    if "obuffer_length out = ocursor out + int (length s) + 4"
    using that o1 l1 Out_put_beyond [OF o1(2), of "s @ [0]"] by simp
  show "appended (cstr_bytes s) out (Option.bind (Out_int32 h ?w out) (Out_put (s @ [0])))"
    if "obuffer_length out \<noteq> ocursor out + int (length s) + 4"
  proof -
    have "appended (s @ [0]) out1 (Out_put (s @ [0]) out1)"
      using that assms(4) o1 l1 by (intro Out_put_ok) auto
    then show ?thesis
      using appended_trans [OF a1, of "s @ [0]"] o1(1) unfolding cstr_bytes_def bswap32_bytes w by simp
  qed
qed

lemma Out_cstr_eq:
  assumes "0 \<notin> set s" "int (length s) < 2 ^ 30"
  shows "Out_cstr h s out =
    (case (if u64_less (obuffer_length out) (ocursor out + int (length s) + 4)
           then Out_grow h (ocursor out + int (length s) + 4) out else (True, out)) of
        (False, out) \<Rightarrow> Some out
      | (True, out) \<Rightarrow> Option.bind (Out_int32 h (word_of_int (int (length s) + 1)) out) (Out_put (s @ [0])))"
proof -
  have t: "takeWhile (\<lambda>c. c \<noteq> 0) s = s" using assms(1) by (auto simp: takeWhile_eq_all_conv)
  have i: "i32 (int (length s)) = int (length s)" "i32 (int (length s) + 1) = int (length s) + 1"
    using assms(2) by (simp_all add: i32_small)
  have n: "nat (int (length s) + 1) = length (s @ [0])" by simp
  have m: "mem_load 0 (length (s @ [0])) (s @ [0]) = Some (s @ [0])" by (simp add: mem_load_def)
  have f: "\<not> (int (length s) + 1 < 0 \<or> int (length s) < 0)" by simp
  show ?thesis
    unfolding Out_cstr_def WriteString_def Let_def t i n m if_not_P [OF f] bind.bind_lunit nat_int
      list_update_length [of s 0 "[]" 0] ..
qed

lemma Out_cstr_result:
  assumes "out_ok out" "0 \<notin> set s" "ocursor out + int (length s) + 5 < 2 ^ 30" "\<forall>n. alloc_ok h n"
  shows "obuffer_length out = ocursor out + int (length s) + 4 \<Longrightarrow> Out_cstr h s out = None"
    and "obuffer_length out \<noteq> ocursor out + int (length s) + 4 \<Longrightarrow> appended (cstr_bytes s) out (Out_cstr h s out)"
proof -
  let ?need = "ocursor out + int (length s) + 4"
  have c: "0 \<le> ocursor out" "obuffer_length out < 2 ^ 31" "0 \<le> obuffer_length out" using assms(1) by (auto simp: out_ok_def)
  have u: "u64_less (obuffer_length out) ?need \<longleftrightarrow> obuffer_length out < ?need"
    using assms c by (intro u64_less_small) auto
  have l: "int (length s) < 2 ^ 30" "ocursor out + 4 < 2 ^ 30" using assms c by auto
  note eq = Out_cstr_eq [OF assms(2) l(1), of h out]
  show "Out_cstr h s out = None" if "obuffer_length out = ?need"
    using that u WriteString_body(1) [OF assms(1,2) l(1) _ assms(4) l(2)] by (simp add: eq)
  show "appended (cstr_bytes s) out (Out_cstr h s out)" if "obuffer_length out \<noteq> ?need"
  proof (cases "obuffer_length out < ?need")
    case True
    obtain out' where g: "Out_grow h ?need out = (True, out')" "out_ok out'" "out_text out' = out_text out"
      "ocursor out' = ocursor out" "obuffer_length out' = 2 * ?need"
      using Out_grow_ok [OF assms(1) True _] assms(3,4) by auto
    have "appended (cstr_bytes s) out' (Option.bind (Out_int32 h (word_of_int (int (length s) + 1)) out') (Out_put (s @ [0])))"
      using g assms l c by (intro WriteString_body(2)) auto
    with True u g show ?thesis by (simp add: eq appended_def)
  next
    case False
    with u that show ?thesis using WriteString_body(2) [OF assms(1,2) l(1) _ assms(4) l(2)] by (simp add: eq)
  qed
qed

section \<open>The readers\<close>

text \<open>The reader has consumed \<open>a\<close> and \<open>b\<close> is to come.\<close>

definition inp_at :: "byte list \<Rightarrow> byte list \<Rightarrow> DataInPacket \<Rightarrow> bool" where
  "inp_at a b inp \<longleftrightarrow> idata inp = a @ b \<and> icursor inp = int (length a) \<and>
     idata_len inp = int (length (a @ b)) \<and> length (a @ b) < 2 ^ 31"

lemma In_read_at:
  assumes "inp_at a (bs @ b) inp" "n = length bs"
  shows "\<exists>inp'. In_read n inp = Some (word_le bs, inp') \<and> inp_at (a @ bs) b inp'"
proof -
  have "\<not> u64_less (idata_len inp - icursor inp) (int n)"
    using assms by (subst u64_less_small) (auto simp: inp_at_def)
  with assms show ?thesis by (auto simp: In_read_def mem_load_def inp_at_def)
qed

lemma In_int32_at:
  assumes "inp_at a (rev (bytes_le 4 w) @ b) inp"
  shows "\<exists>inp'. In_int32 inp = Some (w, inp') \<and> inp_at (a @ rev (bytes_le 4 w)) b inp'"
  using In_read_at [OF assms, where 'a = 32] word_le_bytes_le [of 4 "bswap32 w"]
  by (auto simp: In_int32_def Read32_def bswap32_bytes bswap_bswap)

lemma In_cstr_at:
  assumes "inp_at a (cstr_bytes s @ b) inp" "0 \<notin> set s" "length s < 2 ^ 30"
  shows "\<exists>inp'. In_cstr inp = Some (s, inp') \<and> inp_at (a @ cstr_bytes s) b inp'"
proof -
  let ?w = "word_of_nat (length s + 1) :: u32"
  have "inp_at a (rev (bytes_le 4 ?w) @ (s @ [0]) @ b) inp" using assms(1) by (simp add: cstr_bytes_def)
  from In_int32_at [OF this] obtain inp1 where i1: "In_int32 inp = Some (?w, inp1)" "inp_at (a @ rev (bytes_le 4 ?w)) ((s @ [0]) @ b) inp1" by blast
  have "sint ?w = int (length s + 1)"
    using assms(3) by (simp add: signed_of_nat signed_take_bit_int_eq_self del: of_nat_add of_nat_Suc)
  moreover have "takeWhile (\<lambda>c. c \<noteq> 0) s = s" using assms(2) by (auto simp: takeWhile_eq_all_conv)
  moreover have "nat (int (length s + 1)) = length (s @ [0])" by simp
  ultimately show ?thesis
    using i1 assms(2) by (auto simp: In_cstr_def Let_def inp_at_def mem_load_def cstr_bytes_def takeWhile_append)
qed

section \<open>The contract of a pair of stream operators\<close>

text \<open>
  \<open>put\<close> appends the bytes \<open>enc x\<close>, when it \<open>fits\<close> the packet, and \<open>get\<close> reads them back
  wherever they stand in the data.
\<close>

locale wire =
  fixes put :: "heap \<Rightarrow> 'x \<Rightarrow> DataOutPacket \<Rightarrow> DataOutPacket option"
    and get :: "DataInPacket \<Rightarrow> ('x \<times> DataInPacket) option"
    and enc :: "'x \<Rightarrow> byte list"
    and ok :: "'x \<Rightarrow> bool"
    and fits :: "'x \<Rightarrow> DataOutPacket \<Rightarrow> bool"
  assumes put_appends: "out_ok out \<Longrightarrow> \<forall>n. alloc_ok h n \<Longrightarrow> ok x \<Longrightarrow>
      ocursor out + int (length (enc x)) < 2 ^ 30 \<Longrightarrow> fits x out \<Longrightarrow> appended (enc x) out (put h x out)"
    and get_reads: "ok x \<Longrightarrow> inp_at a (enc x @ b) inp \<Longrightarrow>
      \<exists>inp'. get inp = Some (x, inp') \<and> inp_at (a @ enc x) b inp'"
begin

lemma enc_inj: "ok x \<Longrightarrow> ok y \<Longrightarrow> length (enc x) < 2 ^ 31 \<Longrightarrow> enc x = enc y \<Longrightarrow> x = y"
proof -
  assume x: "ok x" "ok y" "length (enc x) < 2 ^ 31" "enc x = enc y"
  define inp where "inp = DataInPacket_new (enc x) (int (length (enc x)))"
  have "inp_at [] (enc x @ []) inp" "inp_at [] (enc y @ []) inp"
    using x by (simp_all add: inp_def inp_at_def DataInPacket_new_def)
  from get_reads [OF x(1) this(1)] get_reads [OF x(2) this(2)] show "x = y" by auto
qed

end

definition rev_le :: "nat \<Rightarrow> 'a::len word \<Rightarrow> byte list" where
  "rev_le n w = rev (bytes_le n w)"

interpretation int8: wire Out_int8 In_int8 "\<lambda>b. [b]" "\<lambda>_. True" "\<lambda>_ _. True"
proof (unfold_locales, goal_cases)
  case (2 b a c inp)
  then show ?case using In_read_at [of a "[b]" c inp 1, where 'a = 8] by (auto simp: In_int8_def Read8_def)
qed (simp add: Out_int8_def Write_numbers)

interpretation int16: wire Out_int16 In_int16 "rev_le 2" "\<lambda>_. True" "\<lambda>_ _. True"
proof (unfold_locales, goal_cases)
  case (2 w a c inp)
  then show ?case using In_read_at [of a "rev_le 2 w" c inp 2, where 'a = 16] word_le_bytes_le [of 2 "bswap16 w"]
    by (auto simp: In_int16_def Read16_def bswap16_bytes bswap_bswap rev_le_def)
qed (simp add: Out_int16_def Write_numbers rev_le_def flip: bswap16_bytes)

interpretation int32: wire Out_int32 In_int32 "rev_le 4" "\<lambda>_. True" "\<lambda>_ _. True"
proof (unfold_locales, goal_cases)
  case (2 w a c inp)
  then show ?case using In_int32_at [of a w c inp] by (simp add: rev_le_def)
qed (simp add: Out_int32_def Write_numbers rev_le_def flip: bswap32_bytes)

interpretation int64: wire Out_int64 In_int64 "rev_le 8" "\<lambda>_. True" "\<lambda>_ _. True"
proof (unfold_locales, goal_cases)
  case (2 w a c inp)
  then show ?case using In_read_at [of a "rev_le 8 w" c inp 8, where 'a = 64] word_le_bytes_le [of 8 "htonl64 w"]
    by (auto simp: In_int64_def Read64_def htonl64_bytes bswap_bswap rev_le_def)
qed (simp add: Out_int64_def Write_numbers rev_le_def flip: htonl64_bytes)

interpretation bool: wire Out_bool In_bool "\<lambda>b. [if b then 1 else 0]" "\<lambda>_. True" "\<lambda>_ _. True"
proof (unfold_locales, goal_cases)
  case (2 b a c inp)
  then show ?case using In_read_at [of a "[if b then 1 else 0]" c inp 1, where 'a = 8]
    by (auto simp: In_bool_def Read8_def)
qed (simp add: Out_bool_def Write_numbers)

interpretation cstr: wire Out_cstr In_cstr cstr_bytes "\<lambda>s. 0 \<notin> set s \<and> length s < 2 ^ 30"
  "\<lambda>s out. obuffer_length out \<noteq> ocursor out + int (length s) + 4"
proof (unfold_locales, goal_cases)
  case (1 out h s)
  then show ?case by (intro Out_cstr_result) auto
qed (use In_cstr_at in blast)

section \<open>Packets\<close>

datatype packet_item =
  Int8 byte | Int16 u16 | Int32 u32 | Int64 u64 | Bool bool | CStr cstring

fun item_bytes :: "packet_item \<Rightarrow> byte list" where
  "item_bytes (Int8 b) = [b]"
| "item_bytes (Int16 w) = rev_le 2 w"
| "item_bytes (Int32 w) = rev_le 4 w"
| "item_bytes (Int64 w) = rev_le 8 w"
| "item_bytes (Bool b) = [if b then 1 else 0]"
| "item_bytes (CStr s) = cstr_bytes s"

fun put_item :: "heap \<Rightarrow> packet_item \<Rightarrow> DataOutPacket \<Rightarrow> DataOutPacket option" where
  "put_item h (Int8 b) out = Out_int8 h b out"
| "put_item h (Int16 w) out = Out_int16 h w out"
| "put_item h (Int32 w) out = Out_int32 h w out"
| "put_item h (Int64 w) out = Out_int64 h w out"
| "put_item h (Bool b) out = Out_bool h b out"
| "put_item h (CStr s) out = Out_cstr h s out"

text \<open>Reads an item of the kind of the given one.\<close>

fun get_item :: "packet_item \<Rightarrow> DataInPacket \<Rightarrow> (packet_item \<times> DataInPacket) option" where
  "get_item (Int8 _) inp = map_option (map_prod Int8 id) (In_int8 inp)"
| "get_item (Int16 _) inp = map_option (map_prod Int16 id) (In_int16 inp)"
| "get_item (Int32 _) inp = map_option (map_prod Int32 id) (In_int32 inp)"
| "get_item (Int64 _) inp = map_option (map_prod Int64 id) (In_int64 inp)"
| "get_item (Bool _) inp = map_option (map_prod Bool id) (In_bool inp)"
| "get_item (CStr _) inp = map_option (map_prod CStr id) (In_cstr inp)"

definition item_ok :: "packet_item \<Rightarrow> bool" where
  "item_ok i = (case i of CStr s \<Rightarrow> 0 \<notin> set s \<and> length s < 2 ^ 30 | _ \<Rightarrow> True)"

text \<open>The one case in which a string overruns the buffer.\<close>

definition item_fits :: "packet_item \<Rightarrow> DataOutPacket \<Rightarrow> bool" where
  "item_fits i out =
     (case i of CStr s \<Rightarrow> obuffer_length out \<noteq> ocursor out + int (length s) + 4 | _ \<Rightarrow> True)"

fun put_items :: "heap \<Rightarrow> packet_item list \<Rightarrow> DataOutPacket \<Rightarrow> DataOutPacket option" where
  "put_items h [] out = Some out"
| "put_items h (i # is) out = Option.bind (put_item h i out) (put_items h is)"

fun get_items :: "packet_item list \<Rightarrow> DataInPacket \<Rightarrow> packet_item list option" where
  "get_items [] inp = Some []"
| "get_items (i # is) inp =
     Option.bind (get_item i inp) (\<lambda>(j, inp). map_option (Cons j) (get_items is inp))"

lemma get_item_at:
  assumes "item_ok x" "inp_at a (item_bytes x @ b) inp"
  shows "\<exists>inp'. get_item x inp = Some (x, inp') \<and> inp_at (a @ item_bytes x) b inp'"
proof (cases x)
  case (Int8 y)
  then show ?thesis using int8.get_reads [of a y b inp] assms by auto
next
  case (Int16 y)
  then show ?thesis using int16.get_reads [of a y b inp] assms by auto
next
  case (Int32 y)
  then show ?thesis using int32.get_reads [of a y b inp] assms by auto
next
  case (Int64 y)
  then show ?thesis using int64.get_reads [of a y b inp] assms by auto
next
  case (Bool y)
  then show ?thesis using bool.get_reads [of a y b inp] assms by auto
next
  case (CStr y)
  then show ?thesis using cstr.get_reads [of y a b inp] assms by (auto simp: item_ok_def)
qed

interpretation item: wire put_item "get_item i" item_bytes "\<lambda>j. item_ok j \<and> get_item j = get_item i" item_fits for i
proof (unfold_locales, goal_cases)
  case (1 out h x)
  then show ?case
    using bool.put_appends [of out h True] bool.put_appends [of out h False]
    by (cases x) (auto simp: item_ok_def item_fits_def intro!: int8.put_appends int16.put_appends int32.put_appends
        int64.put_appends cstr.put_appends)
next
  case (2 x a b inp)
  then show ?case using get_item_at [of x a b inp] by simp
qed

lemma get_items_at:
  "list_all item_ok is \<Longrightarrow> inp_at a (concat (map item_bytes is) @ b) inp \<Longrightarrow> get_items is inp = Some is"
proof (induction "is" arbitrary: a inp)
  case (Cons i "is")
  then obtain inp' where "get_item i inp = Some (i, inp')" "inp_at (a @ item_bytes i) (concat (map item_bytes is) @ b) inp'"
    using item.get_reads [of i i a "concat (map item_bytes is) @ b" inp] by auto
  with Cons show ?case by simp
qed simp

lemma put_items_text:
  assumes "out_ok out" "\<forall>n. alloc_ok h n" "list_all item_ok is"
    and "ocursor out + int (length (concat (map item_bytes is))) < 2 ^ 30"
    and "put_items h is out = Some out'"
  shows "appended (concat (map item_bytes is)) out (Some out')"
  using assms(1,3-)
proof (induction "is" arbitrary: out)
  case Nil
  then show ?case by (simp add: appended_def)
next
  case (Cons i "is")
  have fits: "item_fits i out"
  proof (rule ccontr)
    assume "\<not> item_fits i out"
    with Cons show False using Out_cstr_result(1) [OF Cons.prems(1) _ _ assms(2)]
      by (cases i) (auto simp: item_fits_def item_ok_def)
  qed
  from Cons.prems fits have a: "appended (item_bytes i) out (put_item h i out)"
    using item.put_appends [of out h i i] assms(2) by auto
  then obtain out1 where "put_item h i out = Some out1" "out_ok out1" "ocursor out1 = ocursor out + int (length (item_bytes i))"
    by (rule appendedE)
  with a Cons show ?case by (auto intro: appended_trans)
qed

section \<open>Properties\<close>

lemma In_read_safe:
  assumes "0 \<le> icursor inp" and "icursor inp \<le> idata_len inp" and "idata_len inp \<le> int (length (idata inp))"
    and "idata_len inp < 2 ^ 31" and "n < 100"
  shows "\<exists>w inp'. In_read n inp = Some (w :: 'a::len word, inp') \<and> icursor inp \<le> icursor inp' \<and>
    icursor inp' \<le> idata_len inp \<and> idata inp' = idata inp \<and> idata_len inp' = idata_len inp"
proof -
  have "u64_less (idata_len inp - icursor inp) (int n) \<longleftrightarrow> idata_len inp - icursor inp < int n"
    using assms by (intro u64_less_small) auto
  with assms show ?thesis by (auto simp: In_read_def mem_load_def)
qed

text \<open>
  (C5) A packet is read back as it was written: whatever sequence of numbers, booleans and
  strings without NULs is put into a fresh packet and fits below 1 GiB, if no string hits the
  overrun of \<open>WriteString\<close> then the bytes up to the cursor, given to a \<open>DataInPacket\<close> with
  \<open>GetLength\<close>, give the same sequence, read in the same order.
\<close>
theorem packet_roundtrip:
  assumes "list_all item_ok is" and "length (concat (map item_bytes is)) < 2 ^ 30" and "\<forall>n. alloc_ok h n"
    and "DataOutPacket_new h auto_delete len = Some out" and "len < 2 ^ 31"
    and "put_items h is out = Some out'"
  shows "get_items is (DataInPacket_new (take (nat (Out_GetLength out')) (the (Out_GetData out'))) (Out_GetLength out')) =
    Some is"
proof -
  have o: "out_ok out" "ocursor out = 0" "out_text out = []"
    using assms(4,5) by (auto simp: DataOutPacket_new_def out_ok_def out_text_def split: if_splits)
  have a: "appended (concat (map item_bytes is)) out (Some out')"
    using put_items_text [OF o(1) assms(3,1) _ assms(6)] assms(2) o(2) by simp
  have l: "Out_GetLength out' = int (length (concat (map item_bytes is)))"
    using a o(2) assms(2) by (simp add: Out_GetLength_def appended_def i32_small)
  have "take (nat (Out_GetLength out')) (the (Out_GetData out')) = concat (map item_bytes is)"
  proof -
    have "out_text out' = concat (map item_bytes is)" "nat (Out_GetLength out') = nat (ocursor out')"
      using a o l by (auto simp: appended_def)
    then show ?thesis by (simp add: out_text_def Out_GetData_def)
  qed
  then show ?thesis
    using get_items_at [OF assms(1), of "[]" "[]"] assms(2) by (simp add: l inp_at_def DataInPacket_new_def)
qed

theorem packet_roundtrip_witness:
  "let h = \<lparr>alloc_ok = (\<lambda>_. True), junk = (\<lambda>_. 0)\<rparr>; is = [Int16 258, CStr (str ''ab''), Bool True] in
   \<exists>out'. Option.bind (DataOutPacket_new h True 4) (put_items h is) = Some out' \<and>
     get_items is (DataInPacket_new (take (nat (Out_GetLength out')) (the (Out_GetData out'))) (Out_GetLength out')) =
       Some is"
proof -
  let ?h = "\<lparr>alloc_ok = (\<lambda>_. True), junk = (\<lambda>_. 0)\<rparr>" and ?is = "[Int16 258, CStr (str ''ab''), Bool True]"
  let ?o = "\<lparr>obuffer = Some (replicate 4 48), obuffer_length = 4, ocursor = 0, oauto_delete = True\<rparr>"
  have n: "DataOutPacket_new ?h True 4 = Some ?o" by (simp add: DataOutPacket_new_def)
  have "list_all item_ok ?is" "length (concat (map item_bytes ?is)) < 2 ^ 30"
    by (simp_all add: item_ok_def rev_le_def)
  note r = packet_roundtrip [OF this, of ?h True 4 ?o]
  have "put_items ?h ?is ?o \<noteq> None" by code_simp
  then obtain out' where "put_items ?h ?is ?o = Some out'" by auto
  with r [OF _ n] n show ?thesis unfolding Let_def by (intro exI [of _ out']) simp
qed

text \<open>
  (C23) Writing a number never goes outside of the buffer, whatever the space left: the buffer is
  grown when it is too small, it keeps the size the object believes with the cursor inside,
  and the packet is extended by the bytes of the number in network order.
\<close>
theorem number_writers_safe:
  assumes "out_ok out" and "\<forall>n. alloc_ok h n" and "ocursor out + 8 < 2 ^ 30"
  shows "appended [b] out (Out_int8 h b out) \<and> appended (rev_le 2 w) out (Out_int16 h w out) \<and>
    appended (rev_le 4 dw) out (Out_int32 h dw out) \<and> appended (rev_le 8 lw) out (Out_int64 h lw out) \<and>
    appended [if t then 1 else 0] out (Out_bool h t out)"
  using assms int8.put_appends [of out h b] int16.put_appends [of out h w] int32.put_appends [of out h dw]
    int64.put_appends [of out h lw] bool.put_appends [of out h t]
  by (simp add: rev_le_def)

theorem number_writers_safe_witness:
  "let h = \<lparr>alloc_ok = (\<lambda>_. True), junk = (\<lambda>_. 0)\<rparr>;
       out = \<lparr>obuffer = Some [1], obuffer_length = 1, ocursor = 1, oauto_delete = True\<rparr>
   in appended (rev_le 2 (0x1234 :: u16)) out (Out_int16 h 0x1234 out)"
  unfolding Let_def
  using number_writers_safe [of "\<lparr>obuffer = Some [1], obuffer_length = 1, ocursor = 1, oauto_delete = True\<rparr>"
      "\<lparr>alloc_ok = (\<lambda>_. True), junk = (\<lambda>_. 0)\<rparr>" 0 "0x1234" 0 0 True]
  by (auto simp: out_ok_def)

text \<open>
  (C24) \<open>WriteString\<close> checks for one byte less than it writes: on a well-formed packet it stores
  outside of the buffer exactly when the string, its size and its NUL need one byte more than
  the buffer has; in every other case it appends the string with its size.
\<close>
theorem WriteString_overrun:
  assumes "out_ok out" and "0 \<notin> set s" and "ocursor out + int (length s) + 5 < 2 ^ 30" and "\<forall>n. alloc_ok h n"
  shows "(Out_cstr h s out = None \<longleftrightarrow> ocursor out + int (length (cstr_bytes s)) = obuffer_length out + 1) \<and>
    (Out_cstr h s out \<noteq> None \<longrightarrow> appended (cstr_bytes s) out (Out_cstr h s out))"
  using Out_cstr_result [OF assms]
  by (cases "obuffer_length out = ocursor out + int (length s) + 4") (auto simp: appended_def)

theorem WriteString_overrun_witness:
  "let h = \<lparr>alloc_ok = (\<lambda>_. True), junk = (\<lambda>_. 0)\<rparr>;
       out = \<lparr>obuffer = Some [0, 0, 0, 0, 0, 0], obuffer_length = 6, ocursor = 0, oauto_delete = True\<rparr>
   in Out_cstr h (str ''ab'') out = None"
  unfolding Let_def
  using WriteString_overrun [of "\<lparr>obuffer = Some [0, 0, 0, 0, 0, 0], obuffer_length = 6, ocursor = 0, oauto_delete = True\<rparr>"
      "str ''ab''" "\<lparr>alloc_ok = (\<lambda>_. True), junk = (\<lambda>_. 0)\<rparr>"]
  by (simp add: out_ok_def)

text \<open>
  (C25) While the cursor is inside of the data no reader loads outside of it, and the cursor stays
  inside; but \<open>ReadData(size, n)\<close> moves it by any size, and a cursor past the end passes the
  unsigned comparison of the next reader, which then loads outside.
\<close>
theorem readers_safe:
  assumes "0 \<le> icursor inp" and "icursor inp \<le> idata_len inp" and "idata_len inp \<le> int (length (idata inp))"
    and "idata_len inp < 2 ^ 31"
  shows "(\<forall>r. r \<in> {map_option snd (Read8 inp), map_option snd (Read16 inp), map_option snd (Read32 inp),
        map_option snd (Read64 inp), map_option snd (In_cstr inp)} \<longrightarrow>
      (\<exists>inp'. r = Some inp' \<and> icursor inp \<le> icursor inp' \<and> icursor inp' \<le> idata_len inp \<and>
        idata inp' = idata inp \<and> idata_len inp' = idata_len inp)) \<and>
    Read8 (snd (ReadData_size (DataInPacket_new [1, 2] 2) 3)) = None"
proof -
  obtain w inp' where i: "Read32 inp = Some (w, inp')" "icursor inp \<le> icursor inp'" "icursor inp' \<le> idata_len inp"
    "idata inp' = idata inp" "idata_len inp' = idata_len inp"
    using In_read_safe [OF assms, of 4, where 'a = 32] by (auto simp: Read32_def)
  then have "\<exists>s inp''. In_cstr inp = Some (s, inp'') \<and> icursor inp \<le> icursor inp'' \<and> icursor inp'' \<le> idata_len inp \<and>
        idata inp'' = idata inp \<and> idata_len inp'' = idata_len inp"
    using assms by (auto simp: In_cstr_def In_int32_def Let_def mem_load_def)
  moreover have "Read8 (snd (ReadData_size (DataInPacket_new [1, 2] 2) 3)) = None" by code_simp
  ultimately show ?thesis
    using In_read_safe [OF assms, of 1, where 'a = 8] In_read_safe [OF assms, of 2, where 'a = 16]
      In_read_safe [OF assms, of 4, where 'a = 32] In_read_safe [OF assms, of 8, where 'a = 64]
    by (auto simp: Read8_def Read16_def Read32_def Read64_def)
qed

theorem readers_safe_witness:
  "\<exists>inp'. map_option snd (Read16 (DataInPacket_new [1, 2] 2)) = Some inp' \<and> icursor inp' \<le> 2"
  using readers_safe [of "DataInPacket_new [1, 2] 2"] by (auto simp: DataInPacket_new_def)

end
