(* ===== verification/Buffer.thy ===== *)
theory Buffer
  imports Memory "HOL-Library.Monad_Syntax"
begin

unbundle bit_operations_syntax

text \<open>
  \<^verbatim>\<open>public/comm/buffer.h\<close>: the cyclic buffer \<open>cyc_buf\<close> and the flat buffer \<open>fixed_buf\<close>, both
  growing, each with a copying interface (\<open>write\<close>, \<open>peek\<close>, \<open>read\<close>) and a locking one, in
  which the client gets a pointer into the block. A pointer is the number of the block,
  counted at each allocation, with an offset into it; an access outside of the block and a
  failed allocation (an exception) are \<open>None\<close>. The contract \<open>byte_queue\<close> is a queue of bytes;
  both buffers are interpreted as one, under the conditions that the code needs.
\<close>

section \<open>Sizes, states and copies\<close>

type_synonym ptr = "nat \<times> nat"

definition DWORDAlign :: "nat \<Rightarrow> nat" where
  "DWORDAlign p = unat ((word_of_nat p + 4 - 1 :: u64) AND NOT (4 - 1))"

definition size_succ :: "nat \<Rightarrow> nat" where
  "size_succ n = (n + 1) mod 2 ^ 64"

definition size_minus :: "nat \<Rightarrow> nat \<Rightarrow> nat" where
  "size_minus m n = nat ((int m - int n) mod 2 ^ 64)"

definition grow_size :: "nat \<Rightarrow> nat \<Rightarrow> nat" where
  "grow_size cur inc = (cur + max inc (cur div 2)) mod 2 ^ 64"

abbreviation STATE_NONE :: u32 where "STATE_NONE \<equiv> 0"
abbreviation STATE_READ_LOCKED :: u32 where "STATE_READ_LOCKED \<equiv> 1"
abbreviation STATE_WRITE_LOCKED :: u32 where "STATE_WRITE_LOCKED \<equiv> 2"

definition BT_IS_SET :: "u32 \<Rightarrow> u32 \<Rightarrow> bool" where
  "BT_IS_SET code maskCode \<longleftrightarrow> code AND maskCode \<noteq> 0"

definition BT_SET :: "u32 \<Rightarrow> u32 \<Rightarrow> u32" where
  "BT_SET code maskCode = code OR maskCode"

definition BT_CLEAR :: "u32 \<Rightarrow> u32 \<Rightarrow> u32" where
  "BT_CLEAR code maskCode = code AND NOT maskCode"

text \<open>\<open>new char[n]\<close>, \<open>memcpy\<close> between two blocks and \<open>memmove\<close> within one.\<close>

definition new_chars :: "heap \<Rightarrow> nat \<Rightarrow> byte list option" where
  "new_chars h n = (if alloc_ok h (int n) then Some (map (junk h) [0..<n]) else None)"

definition memcpy :: "byte list \<Rightarrow> nat \<Rightarrow> byte list \<Rightarrow> nat \<Rightarrow> nat \<Rightarrow> byte list option" where
  "memcpy dst d src s n = do { bs \<leftarrow> mem_load (int s) n src; mem_store (int d) bs dst }"

definition memmove :: "byte list \<Rightarrow> nat \<Rightarrow> nat \<Rightarrow> nat \<Rightarrow> byte list option" where
  "memmove mem d s n = memcpy mem d mem s n"

section \<open>The cyclic buffer\<close>

record cyc_buf =
  cdata :: "byte list"
  cblock :: nat
  ctotal :: nat
  cbeg :: nat
  cend :: nat
  cstate :: u32

definition cyc_buf_new :: "heap \<Rightarrow> nat \<Rightarrow> cyc_buf option" where
  "cyc_buf_new h size_arg = do {
     let n = DWORDAlign (size_succ size_arg);
     data \<leftarrow> new_chars h n;
     Some \<lparr>cdata = data, cblock = 0, ctotal = n, cbeg = 0, cend = 0, cstate = STATE_NONE\<rparr> }"

definition cyc_size :: "cyc_buf \<Rightarrow> nat" where
  "cyc_size b = (if cend b \<ge> cbeg b then cend b - cbeg b else cend b + ctotal b - cbeg b)"

definition cyc_capacity :: "cyc_buf \<Rightarrow> nat" where
  "cyc_capacity b = size_minus (ctotal b) 1"

definition cyc_avail :: "cyc_buf \<Rightarrow> nat" where
  "cyc_avail b = size_minus (cyc_capacity b) (cyc_size b)"

definition cyc_empty :: "cyc_buf \<Rightarrow> bool" where
  "cyc_empty b \<longleftrightarrow> 0 = cyc_size b"

definition cyc_wlocked :: "cyc_buf \<Rightarrow> bool" where
  "cyc_wlocked b \<longleftrightarrow> BT_IS_SET (cstate b) STATE_WRITE_LOCKED"

definition cyc_rlocked :: "cyc_buf \<Rightarrow> bool" where
  "cyc_rlocked b \<longleftrightarrow> BT_IS_SET (cstate b) STATE_READ_LOCKED"

definition cyc_any_locked :: "cyc_buf \<Rightarrow> bool" where
  "cyc_any_locked b \<longleftrightarrow> cyc_wlocked b \<or> cyc_rlocked b"

definition cyc_all_locked :: "cyc_buf \<Rightarrow> bool" where
  "cyc_all_locked b \<longleftrightarrow> cyc_wlocked b \<and> cyc_rlocked b"

definition cyc_reserve :: "heap \<Rightarrow> nat \<Rightarrow> cyc_buf \<Rightarrow> (bool \<times> cyc_buf) option" where
  "cyc_reserve h n b =
     (let n = DWORDAlign (size_succ n) in
      if cyc_any_locked b then Some (False, b)
      else if n \<le> ctotal b then Some (True, b)
      else do {
        pnew \<leftarrow> new_chars h n;
        let sz = cyc_size b;
        let nTail = ctotal b - cbeg b;
        pnew \<leftarrow> (if cend b \<ge> cbeg b then memcpy pnew 0 (cdata b) (cbeg b) sz
                 else do {
                   pnew \<leftarrow> memcpy pnew 0 (cdata b) (cbeg b) nTail;
                   memcpy pnew nTail (cdata b) 0 (sz - nTail) });
        Some (True, b\<lparr>cdata := pnew, cblock := Suc (cblock b), ctotal := n, cbeg := 0, cend := sz\<rparr>) })"

definition cyc_peek :: "nat \<Rightarrow> cyc_buf \<Rightarrow> byte list option" where
  "cyc_peek len b =
     (if cyc_rlocked b then Some []
      else
        let len = min (cyc_size b) len; nTail = ctotal b - cbeg b in
        if cend b \<ge> cbeg b \<or> nTail \<ge> len then mem_load (int (cbeg b)) len (cdata b)
        else do {
          x \<leftarrow> mem_load (int (cbeg b)) nTail (cdata b);
          y \<leftarrow> mem_load 0 (len - nTail) (cdata b);
          Some (x @ y) })"

definition cyc_read :: "nat \<Rightarrow> cyc_buf \<Rightarrow> (byte list \<times> cyc_buf) option" where
  "cyc_read len b =
     (if cyc_rlocked b then Some ([], b)
      else do {
        buf \<leftarrow> cyc_peek len b;
        let p = cbeg b + length buf;
        Some (buf, b\<lparr>cbeg := if p \<ge> ctotal b then p - ctotal b else p\<rparr>) })"

text \<open>\<open>_grow\<close> ignores the result of \<open>reserve\<close>.\<close>

definition cyc_grow :: "heap \<Rightarrow> nat \<Rightarrow> cyc_buf \<Rightarrow> cyc_buf option" where
  "cyc_grow h inc b = map_option snd (cyc_reserve h (grow_size (cyc_capacity b) inc) b)"

definition cyc_write :: "heap \<Rightarrow> byte list \<Rightarrow> cyc_buf \<Rightarrow> (nat \<times> cyc_buf) option" where
  "cyc_write h buf b =
     (let len = length buf in
      if cyc_wlocked b then Some (0, b)
      else do {
        b \<leftarrow> (if cyc_avail b < len then cyc_grow h (len - cyc_avail b) b else Some b);
        let nTail = ctotal b - cend b;
        if nTail \<ge> len then do {
          data \<leftarrow> mem_store (int (cend b)) buf (cdata b);
          Some (len, b\<lparr>cdata := data, cend := cend b + len\<rparr>) }
        else do {
          data \<leftarrow> mem_store (int (cend b)) (take nTail buf) (cdata b);
          data \<leftarrow> mem_store 0 (drop nTail buf) data;
          Some (len, b\<lparr>cdata := data, cend := len - nTail\<rparr>) } })"

text \<open>
  \<open>_repos\<close> makes the contents contiguous. Its third and fourth case rotate the block by the
  unused bytes and call it again.
\<close>

definition repos_done :: "nat \<Rightarrow> cyc_buf \<Rightarrow> cyc_buf" where
  "repos_done siz b = b\<lparr>cend := siz, cbeg := 0\<rparr>"

function cyc_repos :: "heap \<Rightarrow> cyc_buf \<Rightarrow> cyc_buf option" where
  "cyc_repos h b =
     (let siz = cyc_size b in
      if cbeg b \<le> cend b then do {
        data \<leftarrow> memmove (cdata b) 0 (cbeg b) siz;
        Some (repos_done siz (b\<lparr>cdata := data\<rparr>)) }
      else
        let unuse = cbeg b - cend b; part1 = ctotal b - cbeg b; part2 = cend b in
        if part1 \<le> unuse then do {
          data \<leftarrow> memmove (cdata b) part1 0 part2;
          data \<leftarrow> memmove data 0 (cbeg b) part1;
          Some (repos_done siz (b\<lparr>cdata := data\<rparr>)) }
        else if part2 \<le> unuse then do {
          data \<leftarrow> memmove (cdata b) part2 (cbeg b) part1;
          data \<leftarrow> memmove data (part2 + part1) 0 part2;
          Some (b\<lparr>cdata := data, cbeg := part2, cend := part2 + siz\<rparr>) }
        else if part1 \<le> unuse * 2 \<and> part2 \<le> part1 then
          Option.bind (memmove (cdata b) unuse 0 part2) (\<lambda>data.
          Option.bind (memmove data 0 (ctotal b - unuse) unuse) (\<lambda>data.
          Option.bind (memmove data (cbeg b + unuse) (cbeg b) (part1 - unuse)) (\<lambda>data.
            cyc_repos h (b\<lparr>cdata := data, cend := cbeg b, cbeg := cbeg b + unuse\<rparr>))))
        else if part2 \<le> unuse * 2 \<and> part1 \<le> part2 then
          Option.bind (memmove (cdata b) part2 (cbeg b) part1) (\<lambda>data.
          Option.bind (memmove data (part1 + part2) 0 unuse) (\<lambda>data.
          Option.bind (memmove data 0 unuse (part2 - unuse)) (\<lambda>data.
            cyc_repos h (b\<lparr>cdata := data, cbeg := cend b, cend := cend b - unuse\<rparr>))))
        else do {
          pnew \<leftarrow> new_chars h (ctotal b);
          pnew \<leftarrow> memcpy pnew 0 (cdata b) (cbeg b) part1;
          pnew \<leftarrow> memcpy pnew part1 (cdata b) 0 part2;
          Some (repos_done siz (b\<lparr>cdata := pnew, cblock := Suc (cblock b)\<rparr>)) })"
  by pat_completeness auto
termination
  by (relation "measure (\<lambda>(h, b). if ctotal b - cbeg b \<le> cbeg b - cend b \<or> cend b \<le> cbeg b - cend b then 0 else 1)")
    (auto split: if_splits)

declare cyc_repos.simps [simp del]

text \<open>The first component is the template parameter \<open>_Elastic\<close>; a NULL result is \<open>None\<close>.\<close>

definition cyc_wlock :: "bool \<Rightarrow> heap \<Rightarrow> nat \<Rightarrow> cyc_buf \<Rightarrow> (ptr option \<times> nat \<times> cyc_buf) option" where
  "cyc_wlock elastic h len b =
     (if cyc_wlocked b then Some (None, len, b)
      else do {
        b \<leftarrow> (if cyc_avail b < len then cyc_grow h (len - cyc_avail b) b else Some b);
        (len, b) \<leftarrow> (if ctotal b - cend b < len
                   then if elastic then map_option (Pair len) (cyc_repos h b)
                        else Some (ctotal b - cend b, b)
                   else Some (len, b));
        Some (Some (cblock b, cend b), len, b\<lparr>cstate := BT_SET (cstate b) STATE_WRITE_LOCKED\<rparr>) })"

definition cyc_wunlock :: "ptr \<Rightarrow> nat \<Rightarrow> cyc_buf \<Rightarrow> bool \<times> cyc_buf" where
  "cyc_wunlock p len b =
     (if \<not> cyc_wlocked b then (False, b)
      else if p \<noteq> (cblock b, cend b) then (False, b)
      else if len > cyc_avail b then (False, b)
      else if len > ctotal b - cend b then (False, b)
      else (True, b\<lparr>cend := cend b + len, cstate := BT_CLEAR (cstate b) STATE_WRITE_LOCKED\<rparr>))"

definition cyc_rlock :: "bool \<Rightarrow> heap \<Rightarrow> nat \<Rightarrow> cyc_buf \<Rightarrow> (ptr option \<times> nat \<times> cyc_buf) option" where
  "cyc_rlock elastic h len b =
     (if cyc_rlocked b then Some (None, len, b)
      else do {
        let len = min len (cyc_size b);
        (len, b) \<leftarrow> (if ctotal b - cbeg b < len
                   then if elastic then map_option (Pair len) (cyc_repos h b)
                        else Some (ctotal b - cbeg b, b)
                   else Some (len, b));
        Some (Some (cblock b, cbeg b), len, b\<lparr>cstate := BT_SET (cstate b) STATE_READ_LOCKED\<rparr>) })"

definition cyc_runlock :: "ptr \<Rightarrow> nat \<Rightarrow> cyc_buf \<Rightarrow> bool \<times> cyc_buf" where
  "cyc_runlock p len b =
     (if \<not> cyc_rlocked b then (False, b)
      else if p \<noteq> (cblock b, cbeg b) then (False, b)
      else if len > cyc_size b then (False, b)
      else if len > ctotal b - cbeg b then (False, b)
      else (True, b\<lparr>cbeg := cbeg b + len, cstate := BT_CLEAR (cstate b) STATE_READ_LOCKED\<rparr>))"

definition cyc_clear :: "cyc_buf \<Rightarrow> bool \<times> cyc_buf" where
  "cyc_clear b = (if cyc_any_locked b then (False, b) else (True, b\<lparr>cbeg := 0, cend := 0\<rparr>))"

section \<open>The flat buffer\<close>

record fixed_buf =
  fdata :: "byte list"
  fblock :: nat
  ftotal :: nat
  fpos :: nat
  fstate :: u32

definition fixed_buf_new :: "heap \<Rightarrow> nat \<Rightarrow> fixed_buf option" where
  "fixed_buf_new h size_arg = do {
     let n = DWORDAlign size_arg;
     data \<leftarrow> new_chars h n;
     Some \<lparr>fdata = data, fblock = 0, ftotal = n, fpos = 0, fstate = STATE_NONE\<rparr> }"

definition fixed_size :: "fixed_buf \<Rightarrow> nat" where
  "fixed_size b = fpos b"

definition fixed_capacity :: "fixed_buf \<Rightarrow> nat" where
  "fixed_capacity b = ftotal b"

definition fixed_avail :: "fixed_buf \<Rightarrow> nat" where
  "fixed_avail b = size_minus (fixed_capacity b) (fixed_size b)"

definition fixed_empty :: "fixed_buf \<Rightarrow> bool" where
  "fixed_empty b \<longleftrightarrow> 0 = fixed_size b"

definition fixed_wlocked :: "fixed_buf \<Rightarrow> bool" where
  "fixed_wlocked b \<longleftrightarrow> BT_IS_SET (fstate b) STATE_WRITE_LOCKED"

definition fixed_rlocked :: "fixed_buf \<Rightarrow> bool" where
  "fixed_rlocked b \<longleftrightarrow> BT_IS_SET (fstate b) STATE_READ_LOCKED"

definition fixed_any_locked :: "fixed_buf \<Rightarrow> bool" where
  "fixed_any_locked b \<longleftrightarrow> fixed_wlocked b \<or> fixed_rlocked b"

definition fixed_all_locked :: "fixed_buf \<Rightarrow> bool" where
  "fixed_all_locked b \<longleftrightarrow> fixed_wlocked b \<and> fixed_rlocked b"

definition fixed_reserve :: "heap \<Rightarrow> nat \<Rightarrow> fixed_buf \<Rightarrow> (bool \<times> fixed_buf) option" where
  "fixed_reserve h n b =
     (let n = DWORDAlign n in
      if fixed_any_locked b then Some (False, b)
      else if n \<le> ftotal b then Some (True, b)
      else do {
        pnew \<leftarrow> new_chars h n;
        let sz = fixed_size b;
        pnew \<leftarrow> memcpy pnew 0 (fdata b) 0 sz;
        Some (True, b\<lparr>fdata := pnew, fblock := Suc (fblock b), ftotal := n, fpos := sz\<rparr>) })"

definition fixed_peek :: "nat \<Rightarrow> fixed_buf \<Rightarrow> byte list option" where
  "fixed_peek len b =
     (if fixed_rlocked b then Some [] else mem_load 0 (min len (fixed_size b)) (fdata b))"

definition fixed_read :: "nat \<Rightarrow> fixed_buf \<Rightarrow> (byte list \<times> fixed_buf) option" where
  "fixed_read len b =
     (if fixed_rlocked b then Some ([], b)
      else do {
        buf \<leftarrow> fixed_peek len b;
        let len = length buf;
        data \<leftarrow> memmove (fdata b) 0 len (fixed_size b - len);
        Some (buf, b\<lparr>fdata := data, fpos := fpos b - len\<rparr>) })"

definition fixed_grow :: "heap \<Rightarrow> nat \<Rightarrow> fixed_buf \<Rightarrow> fixed_buf option" where
  "fixed_grow h inc b = map_option snd (fixed_reserve h (grow_size (fixed_capacity b) inc) b)"

definition fixed_write :: "heap \<Rightarrow> byte list \<Rightarrow> fixed_buf \<Rightarrow> (nat \<times> fixed_buf) option" where
  "fixed_write h buf b =
     (if fixed_wlocked b then Some (0, b)
      else do {
        b \<leftarrow> (if fixed_avail b < length buf then fixed_grow h (length buf - fixed_avail b) b else Some b);
        let len = min (length buf) (size_minus (fixed_capacity b) (fixed_size b));
        data \<leftarrow> mem_store (int (fpos b)) (take len buf) (fdata b);
        Some (len, b\<lparr>fdata := data, fpos := fpos b + len\<rparr>) })"

definition fixed_wlock :: "heap \<Rightarrow> nat \<Rightarrow> fixed_buf \<Rightarrow> (ptr option \<times> nat \<times> fixed_buf) option" where
  "fixed_wlock h len b =
     (if fixed_wlocked b then Some (None, len, b)
      else do {
        b \<leftarrow> (if fixed_avail b < len then fixed_grow h (len - fixed_avail b) b else Some b);
        Some (Some (fblock b, fpos b), len, b\<lparr>fstate := BT_SET (fstate b) STATE_WRITE_LOCKED\<rparr>) })"

definition fixed_wunlock :: "ptr \<Rightarrow> nat \<Rightarrow> fixed_buf \<Rightarrow> bool \<times> fixed_buf" where
  "fixed_wunlock p len b =
     (if \<not> fixed_wlocked b then (False, b)
      else if p \<noteq> (fblock b, fpos b) then (False, b)
      else if len > fixed_avail b then (False, b)
      else (True, b\<lparr>fpos := fpos b + len, fstate := BT_CLEAR (fstate b) STATE_WRITE_LOCKED\<rparr>))"

definition fixed_rlock :: "nat \<Rightarrow> fixed_buf \<Rightarrow> ptr option \<times> nat \<times> fixed_buf" where
  "fixed_rlock len b =
     (if fixed_rlocked b then (None, len, b)
      else (Some (fblock b, 0), min (fixed_size b) len, b\<lparr>fstate := BT_SET (fstate b) STATE_READ_LOCKED\<rparr>))"

definition fixed_runlock :: "ptr \<Rightarrow> nat \<Rightarrow> fixed_buf \<Rightarrow> (bool \<times> fixed_buf) option" where
  "fixed_runlock p len b =
     (if \<not> fixed_rlocked b then Some (False, b)
      else if fixed_wlocked b then Some (False, b)
      else if p \<noteq> (fblock b, 0) then Some (False, b)
      else if len > fixed_size b then Some (False, b)
      else do {
        data \<leftarrow> memmove (fdata b) 0 len (fixed_size b - len);
        Some (True, b\<lparr>fdata := data, fpos := fpos b - len,
                     fstate := BT_CLEAR (fstate b) STATE_READ_LOCKED\<rparr>) })"

definition fixed_clear :: "fixed_buf \<Rightarrow> bool \<times> fixed_buf" where
  "fixed_clear b = (if fixed_any_locked b then (False, b) else (True, b\<lparr>fpos := 0\<rparr>))"

section \<open>Sizes and copies\<close>

lemma DWORDAlign_eq:
  assumes "n < 2 ^ 64 - 3"
  shows "DWORDAlign n = (n + 3) - (n + 3) mod 4"
proof -
  let ?w = "word_of_nat n + 4 - 1 :: u64"
  have w: "?w = word_of_nat (n + 3)" by simp
  have u: "unat ?w = n + 3" unfolding w using assms by (simp add: unsigned_of_nat take_bit_nat_eq_self del: of_nat_add)
  have "?w AND NOT (4 - 1) = ?w - (?w AND mask 2)"
  proof -
    have "?w - (?w AND mask 2) = ?w AND NOT (?w AND mask 2)" by (rule disjunctive_diff_eq_and_not) (simp add: bit_eq_iff bit_simps)
    also have "\<dots> = ?w AND NOT (mask 2)" by (auto simp: bit_eq_iff bit_simps)
    finally show ?thesis by (simp add: mask_eq_exp_minus_1)
  qed
  also have "?w AND mask 2 = take_bit 2 ?w" by (simp add: take_bit_eq_mask)
  finally have e: "?w AND NOT (4 - 1) = ?w - take_bit 2 ?w" .
  have t: "unat (take_bit 2 ?w) = (n + 3) mod 4"
    using u by (simp add: take_bit_eq_mod unat_mod)
  have "take_bit 2 ?w \<le> ?w" unfolding word_le_nat_alt t u by simp
  then show ?thesis unfolding DWORDAlign_def e by (simp only: unat_sub t u)
qed

lemma DWORDAlign_bounds:
  assumes "n < 2 ^ 64 - 3"
  shows "n \<le> DWORDAlign n" "DWORDAlign n \<le> n + 3" "DWORDAlign n mod 4 = 0"
  using mod_less_divisor [of 4 "n + 3"] by (auto simp: DWORDAlign_eq [OF assms] minus_mod_eq_mult_div)

lemma size_minus_eq:
  assumes "n \<le> m" "m < 2 ^ 64"
  shows "size_minus m n = m - n"
proof -
  have "(int m - int n) mod 2 ^ 64 = int m - int n" by (rule mod_pos_pos_trivial) (use assms in simp_all)
  then show ?thesis using assms(1) by (simp only: size_minus_def of_nat_diff [symmetric] nat_int)
qed

lemma grow_size_bounds:
  assumes "cur < 2 ^ 62" "inc < 2 ^ 63"
  shows "cur + inc \<le> grow_size cur inc" "grow_size cur inc < 2 ^ 64 - 4"
  using assms by (auto simp: grow_size_def max_def)

lemma memcpy_Some:
  "s + n \<le> length src \<Longrightarrow> d + n \<le> length dst \<Longrightarrow>
   memcpy dst d src s n = Some (take d dst @ take n (drop s src) @ drop (d + n) dst)"
  by (simp add: memcpy_def mem_load_Some mem_store_Some)

lemma memmove_Some:
  "s + n \<le> length mem \<Longrightarrow> d + n \<le> length mem \<Longrightarrow>
   memmove mem d s n = Some (take d mem @ take n (drop s mem) @ drop (d + n) mem)"
  by (simp add: memmove_def memcpy_Some)

lemma new_chars_Some: "new_chars h n = Some d \<longleftrightarrow> alloc_ok h (int n) \<and> d = map (junk h) [0..<n]"
  by (auto simp: new_chars_def)

lemmas mem_simps = mem_load_Some mem_store_Some memcpy_Some memmove_Some

definition heap_ok :: "heap \<Rightarrow> bool" where
  "heap_ok h \<longleftrightarrow> (\<forall>n. alloc_ok h n \<longrightarrow> n < 2 ^ 62)"

lemma heap_okD: "heap_ok h \<Longrightarrow> alloc_ok h (int n) \<Longrightarrow> n < 2 ^ 62"
proof -
  assume "heap_ok h" "alloc_ok h (int n)"
  then have "int n < 2 ^ 62" unfolding heap_ok_def by blast
  then show "n < 2 ^ 62" by simp
qed

text \<open>The states of the locks.\<close>

lemma lock_states [simp]:
  "BT_IS_SET (BT_SET s m) m \<longleftrightarrow> m \<noteq> 0" "\<not> BT_IS_SET (BT_CLEAR s m) m" "\<not> BT_IS_SET STATE_NONE m"
  by (auto simp: BT_IS_SET_def BT_SET_def BT_CLEAR_def bit_eq_iff bit_simps)

lemma lock_states_other [simp]:
  "BT_IS_SET (BT_SET s STATE_READ_LOCKED) STATE_WRITE_LOCKED = BT_IS_SET s STATE_WRITE_LOCKED"
  "BT_IS_SET (BT_SET s STATE_WRITE_LOCKED) STATE_READ_LOCKED = BT_IS_SET s STATE_READ_LOCKED"
  "BT_IS_SET (BT_CLEAR s STATE_READ_LOCKED) STATE_WRITE_LOCKED = BT_IS_SET s STATE_WRITE_LOCKED"
  "BT_IS_SET (BT_CLEAR s STATE_WRITE_LOCKED) STATE_READ_LOCKED = BT_IS_SET s STATE_READ_LOCKED"
proof -
  have z: "(1::u32) AND 2 = 0" "(2::u32) AND 1 = 0" by simp_all
  show "BT_IS_SET (BT_SET s STATE_READ_LOCKED) STATE_WRITE_LOCKED = BT_IS_SET s STATE_WRITE_LOCKED"
    "BT_IS_SET (BT_SET s STATE_WRITE_LOCKED) STATE_READ_LOCKED = BT_IS_SET s STATE_READ_LOCKED"
    by (simp_all only: BT_IS_SET_def BT_SET_def bit.conj_disj_distrib2 z or.right_neutral)
  have n: "NOT (1::u32) AND 2 = 2" "NOT (2::u32) AND 1 = 1" by simp_all
  show "BT_IS_SET (BT_CLEAR s STATE_READ_LOCKED) STATE_WRITE_LOCKED = BT_IS_SET s STATE_WRITE_LOCKED"
    "BT_IS_SET (BT_CLEAR s STATE_WRITE_LOCKED) STATE_READ_LOCKED = BT_IS_SET s STATE_READ_LOCKED"
    by (simp_all only: BT_IS_SET_def BT_CLEAR_def and.assoc n)
qed

section \<open>The cyclic buffer holds a queue\<close>

definition cyc_contents :: "cyc_buf \<Rightarrow> byte list" where
  "cyc_contents b =
     (if cbeg b \<le> cend b then take (cend b - cbeg b) (drop (cbeg b) (cdata b))
      else drop (cbeg b) (cdata b) @ take (cend b) (cdata b))"

definition cyc_ok :: "cyc_buf \<Rightarrow> bool" where
  "cyc_ok b \<longleftrightarrow> length (cdata b) = ctotal b \<and> cbeg b \<le> ctotal b \<and> cend b \<le> ctotal b
     \<and> cyc_size b < ctotal b \<and> ctotal b < 2 ^ 62"

lemma cyc_okD:
  assumes "cyc_ok b"
  shows "length (cdata b) = ctotal b" "cbeg b \<le> ctotal b" "cend b \<le> ctotal b"
    "cyc_size b < ctotal b" "ctotal b < 2 ^ 62" "cyc_size b = length (cyc_contents b)"
    "cyc_capacity b = ctotal b - 1" "cyc_avail b = ctotal b - 1 - cyc_size b"
proof -
  show *: "length (cdata b) = ctotal b" "cbeg b \<le> ctotal b" "cend b \<le> ctotal b"
    "cyc_size b < ctotal b" "ctotal b < 2 ^ 62" using assms by (auto simp: cyc_ok_def)
  then show c: "cyc_capacity b = ctotal b - 1" by (simp add: cyc_capacity_def size_minus_eq)
  show "cyc_avail b = ctotal b - 1 - cyc_size b" using * by (simp add: cyc_avail_def c size_minus_eq)
  show "cyc_size b = length (cyc_contents b)" using * by (auto simp: cyc_size_def cyc_contents_def)
qed

lemma cyc_buf_new_spec:
  assumes "heap_ok h" "cyc_buf_new h n = Some b" "n < 2 ^ 63"
  shows "cyc_ok b \<and> cyc_contents b = [] \<and> cstate b = STATE_NONE \<and> n \<le> cyc_capacity b"
proof -
  have s: "size_succ n = n + 1" using assms(3) by (simp add: size_succ_def)
  let ?t = "DWORDAlign (n + 1)"
  have t: "n + 1 \<le> ?t" using DWORDAlign_bounds(1) [of "n + 1"] assms(3) by simp
  have b: "b = \<lparr>cdata = map (junk h) [0..<?t], cblock = 0, ctotal = ?t, cbeg = 0, cend = 0, cstate = STATE_NONE\<rparr>"
    and a: "alloc_ok h (int ?t)" using assms(2) by (auto simp: cyc_buf_new_def s new_chars_Some Let_def split: bind_splits)
  have "cyc_ok b" using t heap_okD [OF assms(1) a] by (simp add: b cyc_ok_def cyc_size_def)
  then show ?thesis using cyc_okD(7) [of b] t by (simp add: b cyc_contents_def)
qed

lemma cyc_reserve_spec:
  assumes "cyc_ok b" "heap_ok h" "n < 2 ^ 64 - 4" "cyc_reserve h n b = Some (r, b')"
  shows "cyc_ok b' \<and> cyc_contents b' = cyc_contents b \<and> cstate b' = cstate b \<and> (r \<longleftrightarrow> \<not> cyc_any_locked b)
     \<and> (if r then n \<le> cyc_capacity b' else b' = b)"
proof -
  note ok = cyc_okD [OF assms(1)]
  let ?n = "DWORDAlign (n + 1)"
  have s: "size_succ n = n + 1" using assms(3) by (simp add: size_succ_def)
  have n: "n + 1 \<le> ?n" using DWORDAlign_bounds(1) [of "n + 1"] assms(3) by simp
  consider (locked) "cyc_any_locked b" | (fits) "\<not> cyc_any_locked b" "?n \<le> ctotal b"
    | (new) "\<not> cyc_any_locked b" "ctotal b < ?n" by linarith
  then show ?thesis
  proof cases
    case new
    then have a: "alloc_ok h (int ?n)"
      using assms(4) by (auto simp: cyc_reserve_def s new_chars_def Let_def split: bind_splits if_splits)
    note big = heap_okD [OF assms(2) a]
    have c: "length (cyc_contents b) < ?n" using ok new by simp
    have "\<exists>rest. b' = b\<lparr>cdata := cyc_contents b @ rest, cblock := Suc (cblock b), ctotal := ?n,
                       cbeg := 0, cend := cyc_size b\<rparr> \<and> length (cyc_contents b) + length rest = ?n \<and> r"
      using assms(4) new a ok c
      by (auto simp: cyc_reserve_def s new_chars_def memcpy_Some cyc_contents_def cyc_size_def Let_def split: if_splits)
    then obtain rest where b': "b' = b\<lparr>cdata := cyc_contents b @ rest, cblock := Suc (cblock b), ctotal := ?n,
                       cbeg := 0, cend := cyc_size b\<rparr>" and l: "length (cyc_contents b) + length rest = ?n" and r: r by blast
    have ok': "cyc_ok b'" using b' l ok new big by (simp add: cyc_ok_def cyc_size_def)
    show ?thesis using ok' cyc_okD(7) [OF ok'] n r new ok by (simp add: b' cyc_contents_def)
  qed (use assms ok n s in \<open>auto simp: cyc_reserve_def Let_def\<close>)
qed

text \<open>The block that \<open>_grow\<close> asks for when \<open>len\<close> bytes do not fit.\<close>

definition cyc_grown :: "nat \<Rightarrow> cyc_buf \<Rightarrow> nat" where
  "cyc_grown len b = DWORDAlign (size_succ (grow_size (cyc_capacity b) (len - cyc_avail b)))"

lemma cyc_grow_spec:
  assumes "cyc_ok b" "heap_ok h" "len < 2 ^ 62" "cyc_avail b < len"
    "cyc_grow h (len - cyc_avail b) b = Some b'"
  shows "cyc_ok b' \<and> cyc_contents b' = cyc_contents b \<and> cstate b' = cstate b
    \<and> (if cyc_any_locked b then b' = b else len \<le> cyc_avail b')"
proof -
  note ok = cyc_okD [OF assms(1)]
  let ?g = "grow_size (cyc_capacity b) (len - cyc_avail b)"
  have g: "cyc_capacity b + (len - cyc_avail b) \<le> ?g" "?g < 2 ^ 64 - 4"
    using grow_size_bounds [of "cyc_capacity b" "len - cyc_avail b"] assms(3) ok by auto
  obtain r where "cyc_reserve h ?g b = Some (r, b')" using assms(5) by (auto simp: cyc_grow_def)
  from cyc_reserve_spec [OF assms(1,2) g(2) this]
  have r: "cyc_ok b'" "cyc_contents b' = cyc_contents b" "cstate b' = cstate b"
    "r \<longleftrightarrow> \<not> cyc_any_locked b" "if r then ?g \<le> cyc_capacity b' else b' = b" by auto
  have "len \<le> cyc_avail b'" if "\<not> cyc_any_locked b"
  proof -
    have "?g \<le> cyc_capacity b'" using that r(4,5) by simp
    moreover have "cyc_size b' = cyc_size b" using ok(6) cyc_okD(6) [OF r(1)] r(2) by simp
    ultimately show ?thesis using g(1) ok(4,7,8) cyc_okD(4,7,8) [OF r(1)] assms(4) by linarith
  qed
  then show ?thesis using r by auto
qed

lemma cyc_grow_Some:
  assumes "cyc_ok b" "cyc_any_locked b \<or> alloc_ok h (int (cyc_grown len b))"
  shows "cyc_grow h (len - cyc_avail b) b \<noteq> None"
  using assms cyc_okD [OF assms(1)]
  by (auto simp: cyc_grow_def cyc_reserve_def cyc_grown_def new_chars_def memcpy_Some cyc_size_def Let_def)

lemma cyc_write_fits:
  assumes "cyc_ok b" "\<not> cyc_wlocked b" "length bs \<le> cyc_avail b"
  shows "\<exists>b'. cyc_write h bs b = Some (length bs, b') \<and> cyc_ok b' \<and> cyc_contents b' = cyc_contents b @ bs
    \<and> cstate b' = cstate b"
proof -
  note ok = cyc_okD [OF assms(1)]
  have a: "\<not> cyc_avail b < length bs" using assms(3) by simp
  consider (tail) "cbeg b \<le> cend b" "length bs \<le> ctotal b - cend b"
    | (wrap) "cbeg b \<le> cend b" "ctotal b - cend b < length bs" | (gap) "cend b < cbeg b" by linarith
  then show ?thesis
  proof cases
    case tail
    let ?b' = "b\<lparr>cdata := take (cend b) (cdata b) @ bs @ drop (cend b + length bs) (cdata b), cend := cend b + length bs\<rparr>"
    have "cyc_write h bs b = Some (length bs, ?b')"
      using tail ok assms(2) a by (simp add: cyc_write_def mem_store_Some Let_def)
    moreover have "cyc_ok ?b'" using tail ok(1-5,8) assms(3) by (auto simp: cyc_ok_def cyc_size_def)
    moreover have "cyc_contents ?b' = cyc_contents b @ bs" using tail ok by (simp add: cyc_contents_def drop_take)
    ultimately show ?thesis by simp
  next
    case wrap
    let ?n = "ctotal b - cend b"
    let ?b' = "b\<lparr>cdata := drop ?n bs @ drop (length bs - ?n) (take (cend b) (cdata b) @ take ?n bs), cend := length bs - ?n\<rparr>"
    have lt: "length bs - ?n < cbeg b" using wrap ok assms(3) by (simp add: cyc_size_def)
    have s0: "mem_store 0 xs m = Some (xs @ drop (length xs) m)" if "length xs \<le> length m" for xs m
      using mem_store_Some [of 0 xs m] that by simp
    have "cyc_write h bs b = Some (length bs, ?b')"
      using wrap ok assms(2) a lt by (simp add: cyc_write_def mem_store_Some s0 Let_def)
    moreover have "cyc_ok ?b'" using wrap lt ok assms(3) by (simp add: cyc_ok_def cyc_size_def)
    moreover have "cyc_contents ?b' = cyc_contents b @ bs"
      using wrap lt ok by (simp add: cyc_contents_def drop_take)
    ultimately show ?thesis by simp
  next
    case gap
    have lt: "cend b + length bs < cbeg b" using gap ok assms(3) by (simp add: cyc_size_def)
    then have le: "length bs \<le> ctotal b - cend b" using ok(2) by linarith
    let ?b' = "b\<lparr>cdata := take (cend b) (cdata b) @ bs @ drop (cend b + length bs) (cdata b), cend := cend b + length bs\<rparr>"
    have "cyc_write h bs b = Some (length bs, ?b')"
      using gap le ok assms(2) a by (simp add: cyc_write_def mem_store_Some Let_def)
    moreover have "cyc_ok ?b'" using gap lt ok assms(3) by (simp add: cyc_ok_def cyc_size_def)
    moreover have "cyc_contents ?b' = cyc_contents b @ bs" using gap lt ok by (simp add: cyc_contents_def)
    ultimately show ?thesis by simp
  qed
qed

lemma cyc_write_grow:
  assumes "\<not> cyc_wlocked b" "cyc_avail b < length bs" "cyc_grow h (length bs - cyc_avail b) b = Some b1"
    "length bs \<le> cyc_avail b1" "\<not> cyc_wlocked b1"
  shows "cyc_write h bs b = cyc_write h bs b1"
  using assms by (simp add: cyc_write_def Let_def)

text \<open>When a write can succeed: it fits, or there is no reader and memory for the larger block.\<close>

definition cyc_fits :: "heap \<Rightarrow> nat \<Rightarrow> cyc_buf \<Rightarrow> bool" where
  "cyc_fits h len b \<longleftrightarrow> len < 2 ^ 62 \<and>
     (len \<le> cyc_avail b \<or> \<not> cyc_any_locked b \<and> alloc_ok h (int (cyc_grown len b)))"

lemma cyc_grow_fits:
  assumes "cyc_ok b" "heap_ok h" "cyc_avail b < len" "cyc_fits h len b"
  shows "\<exists>b1. cyc_grow h (len - cyc_avail b) b = Some b1 \<and> cyc_ok b1 \<and> cyc_contents b1 = cyc_contents b
    \<and> cstate b1 = cstate b \<and> len \<le> cyc_avail b1"
proof -
  have "\<not> cyc_any_locked b" "alloc_ok h (int (cyc_grown len b))" "len < 2 ^ 62"
    using assms by (auto simp: cyc_fits_def)
  with cyc_grow_Some [OF assms(1)] obtain b1 where "cyc_grow h (len - cyc_avail b) b = Some b1" by blast
  with cyc_grow_spec [OF assms(1,2) \<open>len < 2 ^ 62\<close> assms(3) this] \<open>\<not> cyc_any_locked b\<close> show ?thesis by auto
qed

lemma cyc_write_spec:
  assumes "cyc_ok b" "heap_ok h" "\<not> cyc_wlocked b" "cyc_fits h (length bs) b"
  shows "\<exists>b'. cyc_write h bs b = Some (length bs, b') \<and> cyc_ok b' \<and> cyc_contents b' = cyc_contents b @ bs
    \<and> cstate b' = cstate b"
proof (cases "length bs \<le> cyc_avail b")
  case True
  with cyc_write_fits assms(1,3) show ?thesis by blast
next
  case False
  with cyc_grow_fits [OF assms(1,2) _ assms(4)] obtain b1 where
    b1: "cyc_grow h (length bs - cyc_avail b) b = Some b1" "cyc_ok b1" "cyc_contents b1 = cyc_contents b"
      "cstate b1 = cstate b" "length bs \<le> cyc_avail b1" by auto
  then have w: "\<not> cyc_wlocked b1" using assms(3) by (simp add: cyc_wlocked_def)
  from cyc_write_fits [OF b1(2) w b1(5), of h] show ?thesis
    using b1(3,4) cyc_write_grow [OF assms(3) _ b1(1,5) w] False by auto
qed

lemma cyc_peek_spec:
  assumes "cyc_ok b" "\<not> cyc_rlocked b"
  shows "cyc_peek len b = Some (take len (cyc_contents b))"
proof -
  note ok = cyc_okD [OF assms(1)]
  have m0: "mem_load 0 n m = Some (take n m)" if "n \<le> length m" for n m
    using mem_load_Some [of 0 n m] that by simp
  show ?thesis
  proof (cases "cbeg b \<le> cend b")
    case True
    then show ?thesis using ok assms(2)
      by (simp add: cyc_peek_def mem_load_Some cyc_size_def cyc_contents_def min.commute)
  next
    case False
    let ?l = "min (cyc_size b) len" and ?t = "ctotal b - cbeg b"
    have s: "cyc_size b = cend b + ?t" using False ok(2) by (simp add: cyc_size_def)
    have c: "take len (cyc_contents b) = take ?l (drop (cbeg b) (cdata b)) @ take (?l - ?t) (cdata b)"
      using False ok(1,2,3) by (cases "len \<le> cyc_size b") (auto simp: cyc_contents_def s min_def)
    show ?thesis
    proof (cases "?l \<le> ?t")
      case True
      then show ?thesis using ok(1,2) assms(2) by (simp add: cyc_peek_def mem_load_Some c Let_def)
    next
      case False
      then have "take ?l (drop (cbeg b) (cdata b)) = drop (cbeg b) (cdata b)" using ok(1) by (intro take_all) auto
      then show ?thesis using ok(1,2,3) assms(2) \<open>\<not> cbeg b \<le> cend b\<close> s False
        by (simp add: cyc_peek_def mem_load_Some m0 c Let_def)
    qed
  qed
qed

text \<open>
  The pointer to the end may stand behind the last byte; a read that empties the buffer then
  moves the pointer to the beginning to the first byte, and the buffer looks full.
\<close>

definition cyc_readable :: "nat \<Rightarrow> cyc_buf \<Rightarrow> bool" where
  "cyc_readable len b \<longleftrightarrow> \<not> (cend b = ctotal b \<and> cyc_size b \<le> len)"

lemma cyc_read_spec:
  assumes "cyc_ok b" "\<not> cyc_rlocked b" "cyc_readable len b"
  shows "\<exists>b'. cyc_read len b = Some (take len (cyc_contents b), b') \<and> cyc_ok b'
    \<and> cyc_contents b' = drop len (cyc_contents b) \<and> cstate b' = cstate b"
proof -
  note ok = cyc_okD [OF assms(1)]
  let ?n = "min len (cyc_size b)"
  let ?p = "cbeg b + ?n"
  let ?b' = "b\<lparr>cbeg := if ?p \<ge> ctotal b then ?p - ctotal b else ?p\<rparr>"
  have r: "cyc_read len b = Some (take len (cyc_contents b), ?b')"
    using assms(2) cyc_peek_spec [OF assms(1,2)] ok(6) by (simp add: cyc_read_def min.commute)
  consider (flat) "cbeg b \<le> cend b" "?p < ctotal b" | (tail) "cend b < cbeg b" "?p < ctotal b"
    | (wrap) "cend b < cbeg b" "ctotal b \<le> ?p"
  proof -
    have "?p < ctotal b" if "cbeg b \<le> cend b"
      using that ok(2,3) assms(3) by (auto simp: cyc_size_def cyc_readable_def)
    then show ?thesis using that by linarith
  qed
  then have "cyc_ok ?b' \<and> cyc_contents ?b' = drop len (cyc_contents b)"
  proof cases
    case flat
    then have "cyc_ok ?b'" using ok by (auto simp: cyc_ok_def cyc_size_def)
    moreover have "cyc_contents ?b' = drop len (cyc_contents b)"
    proof (cases "len \<le> cend b - cbeg b")
      case True
      then have "len + cbeg b \<le> cend b" using flat by linarith
      then show ?thesis using flat ok(1,2,3) by (simp add: cyc_contents_def cyc_size_def drop_take add.commute min_def)
    next
      case False
      then show ?thesis using flat ok(1,2,3) by (simp add: cyc_contents_def cyc_size_def min_def)
    qed
    ultimately show ?thesis ..
  next
    case tail
    then have n: "?n = len" "len < ctotal b - cbeg b" using ok(2) by (auto simp: cyc_size_def min_def split: if_splits)
    have "cyc_ok ?b'" using tail ok by (auto simp: cyc_ok_def cyc_size_def)
    moreover have "cyc_contents ?b' = drop len (cyc_contents b)"
      using tail n ok(1,2) by (simp add: cyc_contents_def add.commute)
    ultimately show ?thesis ..
  next
    case wrap
    have s: "cyc_size b = cend b + (ctotal b - cbeg b)" using wrap ok(2) by (simp add: cyc_size_def)
    define q where "q = ?p - ctotal b"
    have q: "q \<le> cend b" "q = ?n - (ctotal b - cbeg b)" using wrap ok(2) s by (auto simp: q_def)
    have b': "?b' = b\<lparr>cbeg := q\<rparr>" using wrap by (simp add: q_def)
    have "cyc_ok ?b'" unfolding b' using wrap q(1) ok(1-5) by (simp add: cyc_ok_def cyc_size_def)
    moreover have "drop len (cyc_contents b) = drop q (take (cend b) (cdata b))"
      using wrap ok(1,2,3) q(2) by (cases "len \<le> cyc_size b") (auto simp: cyc_contents_def s min_def)
    then have "cyc_contents ?b' = drop len (cyc_contents b)"
      unfolding b' using q(1) ok(3) by (simp add: cyc_contents_def drop_take)
    ultimately show ?thesis ..
  qed
  then show ?thesis using r by auto
qed

text \<open>
  The block as its pieces: \<open>part2\<close>, the unused bytes and \<open>part1\<close>. The moves of \<open>_repos\<close> are
  computed on the pieces.
\<close>

lemma memmove_pieces:
  assumes "mem = pre @ xs @ post" "s = length pre" "n = length xs" "d + n \<le> length mem"
  shows "memmove mem d s n = Some (take d mem @ xs @ drop (d + n) mem)"
  using assms by (simp add: memmove_Some)

definition cyc_flat :: "cyc_buf \<Rightarrow> bool" where
  "cyc_flat b \<longleftrightarrow> cbeg b \<le> cend b"

text \<open>What \<open>_repos\<close> must keep: contents, size of the block and locks; and the result is flat.\<close>

definition repos_to :: "cyc_buf \<Rightarrow> cyc_buf option \<Rightarrow> bool" where
  "repos_to b r \<longleftrightarrow> (\<exists>b'. r = Some b' \<and> cyc_ok b' \<and> cyc_contents b' = cyc_contents b \<and> ctotal b' = ctotal b
     \<and> cstate b' = cstate b \<and> cyc_flat b' \<and> (cbeg b \<le> cend b \<longrightarrow> cbeg b' = 0 \<and> cblock b' = cblock b))"

lemma repos_toI:
  assumes "cyc_ok b" "r = Some (b\<lparr>cdata := d, cblock := k, cbeg := i, cend := i + cyc_size b\<rparr>)"
    "d = pre @ cyc_contents b @ post" "length pre = i" "length d = ctotal b"
    "cbeg b \<le> cend b \<Longrightarrow> i = 0 \<and> k = cblock b"
  shows "repos_to b r"
proof -
  note ok = cyc_okD [OF assms(1)]
  show ?thesis using assms ok by (auto simp: repos_to_def cyc_ok_def cyc_size_def cyc_contents_def cyc_flat_def)
qed

lemma cyc_pieces:
  assumes "cyc_ok b" "cend b < cbeg b"
  obtains p2 u p1 where "cdata b = p2 @ u @ p1" "length p2 = cend b" "length u = cbeg b - cend b"
    "length p1 = ctotal b - cbeg b" "cyc_contents b = p1 @ p2" "u \<noteq> []"
proof
  note ok = cyc_okD [OF assms(1)]
  let ?u = "take (cbeg b - cend b) (drop (cend b) (cdata b))"
  show "cdata b = take (cend b) (cdata b) @ ?u @ drop (cbeg b) (cdata b)"
    using assms(2) by (metis append_take_drop_id drop_drop le_add_diff_inverse2 less_imp_le)
  show "length (take (cend b) (cdata b)) = cend b" "length ?u = cbeg b - cend b"
    "length (drop (cbeg b) (cdata b)) = ctotal b - cbeg b" "?u \<noteq> []"
    using ok assms(2) by auto
  show "cyc_contents b = drop (cbeg b) (cdata b) @ take (cend b) (cdata b)"
    using assms(2) by (simp add: cyc_contents_def)
qed

text \<open>The cases of \<open>_repos\<close>, one equation each.\<close>

lemma cyc_repos_eqs:
  defines "unuse \<equiv> \<lambda>b. cbeg b - cend b" and "part1 \<equiv> \<lambda>b. ctotal b - cbeg b"
  shows "cbeg b \<le> cend b \<Longrightarrow> cyc_repos h b =
      Option.bind (memmove (cdata b) 0 (cbeg b) (cyc_size b)) (\<lambda>d. Some (repos_done (cyc_size b) (b\<lparr>cdata := d\<rparr>)))"
    and "\<not> cbeg b \<le> cend b \<Longrightarrow> part1 b \<le> unuse b \<Longrightarrow> cyc_repos h b =
      Option.bind (memmove (cdata b) (part1 b) 0 (cend b)) (\<lambda>d. Option.bind (memmove d 0 (cbeg b) (part1 b)) (\<lambda>d.
      Some (repos_done (cyc_size b) (b\<lparr>cdata := d\<rparr>))))"
    and "\<not> cbeg b \<le> cend b \<Longrightarrow> \<not> part1 b \<le> unuse b \<Longrightarrow> cend b \<le> unuse b \<Longrightarrow> cyc_repos h b =
      Option.bind (memmove (cdata b) (cend b) (cbeg b) (part1 b)) (\<lambda>d. Option.bind (memmove d (cend b + part1 b) 0 (cend b)) (\<lambda>d.
      Some (b\<lparr>cdata := d, cbeg := cend b, cend := cend b + cyc_size b\<rparr>)))"
    and "\<not> cbeg b \<le> cend b \<Longrightarrow> \<not> part1 b \<le> unuse b \<Longrightarrow> \<not> cend b \<le> unuse b \<Longrightarrow>
      part1 b \<le> unuse b * 2 \<and> cend b \<le> part1 b \<Longrightarrow> cyc_repos h b =
      Option.bind (memmove (cdata b) (unuse b) 0 (cend b)) (\<lambda>d. Option.bind (memmove d 0 (ctotal b - unuse b) (unuse b)) (\<lambda>d.
      Option.bind (memmove d (cbeg b + unuse b) (cbeg b) (part1 b - unuse b)) (\<lambda>d.
      cyc_repos h (b\<lparr>cdata := d, cend := cbeg b, cbeg := cbeg b + unuse b\<rparr>))))"
    and "\<not> cbeg b \<le> cend b \<Longrightarrow> \<not> part1 b \<le> unuse b \<Longrightarrow> \<not> cend b \<le> unuse b \<Longrightarrow>
      \<not> (part1 b \<le> unuse b * 2 \<and> cend b \<le> part1 b) \<Longrightarrow> cend b \<le> unuse b * 2 \<and> part1 b \<le> cend b \<Longrightarrow> cyc_repos h b =
      Option.bind (memmove (cdata b) (cend b) (cbeg b) (part1 b)) (\<lambda>d. Option.bind (memmove d (part1 b + cend b) 0 (unuse b)) (\<lambda>d.
      Option.bind (memmove d 0 (unuse b) (cend b - unuse b)) (\<lambda>d.
      cyc_repos h (b\<lparr>cdata := d, cbeg := cend b, cend := cend b - unuse b\<rparr>))))"
    and "\<not> cbeg b \<le> cend b \<Longrightarrow> \<not> part1 b \<le> unuse b \<Longrightarrow> \<not> cend b \<le> unuse b \<Longrightarrow>
      \<not> (part1 b \<le> unuse b * 2 \<and> cend b \<le> part1 b) \<Longrightarrow> \<not> (cend b \<le> unuse b * 2 \<and> part1 b \<le> cend b) \<Longrightarrow> cyc_repos h b =
      Option.bind (new_chars h (ctotal b)) (\<lambda>d. Option.bind (memcpy d 0 (cdata b) (cbeg b) (part1 b)) (\<lambda>d.
      Option.bind (memcpy d (part1 b) (cdata b) 0 (cend b)) (\<lambda>d.
      Some (repos_done (cyc_size b) (b\<lparr>cdata := d, cblock := Suc (cblock b)\<rparr>)))))"
  unfolding unuse_def part1_def by (subst cyc_repos.simps, unfold Let_def, simp only: if_True if_False simp_thms)+

lemma repos_case0:
  assumes "cyc_ok b" "cbeg b \<le> cend b"
  shows "repos_to b (cyc_repos h b)"
proof -
  note ok = cyc_okD [OF assms(1)]
  have c: "cyc_contents b = take (cyc_size b) (drop (cbeg b) (cdata b))" using assms(2) by (simp add: cyc_contents_def cyc_size_def)
  have s: "cbeg b + cyc_size b \<le> ctotal b" using assms(2) ok(3) by (simp add: cyc_size_def)
  have "cyc_repos h b = Some (b\<lparr>cdata := cyc_contents b @ drop (cyc_size b) (cdata b), cblock := cblock b, cbeg := 0, cend := 0 + cyc_size b\<rparr>)"
    using ok(1,4) s by (simp add: cyc_repos_eqs(1) [OF assms(2)] memmove_Some repos_done_def c)
  then show ?thesis by (rule repos_toI [OF assms(1), where pre = "[]"]) (use ok in auto)
qed

lemma repos_case1:
  assumes "cyc_ok b" "cend b < cbeg b" "ctotal b - cbeg b \<le> cbeg b - cend b"
  shows "repos_to b (cyc_repos h b)"
proof -
  note ok = cyc_okD [OF assms(1)]
  obtain p2 u p1 where p: "cdata b = p2 @ u @ p1" "length p2 = cend b" "length u = cbeg b - cend b"
    "length p1 = ctotal b - cbeg b" "cyc_contents b = p1 @ p2" using cyc_pieces assms(1,2) by blast
  have nle: "\<not> cbeg b \<le> cend b" using assms(2) by simp
  let ?l1 = "length p1" and ?l2 = "length p2"
  have beg: "cbeg b = ?l2 + length u" "ctotal b = ?l2 + length u + ?l1" "?l1 \<le> length u"
    using assms(2,3) ok(2) p(2,3,4) by linarith+
  let ?d1 = "take ?l1 (p2 @ u @ p1) @ p2 @ drop (?l1 + ?l2) (p2 @ u @ p1)"
  let ?d2 = "p1 @ p2 @ drop (?l1 + ?l2) (p2 @ u @ p1)"
  have m1: "memmove (cdata b) ?l1 0 ?l2 = Some ?d1"
    by (subst memmove_pieces [where pre = "[]" and post = "u @ p1" and xs = p2]) (use p(1) beg in auto)
  have m2: "memmove ?d1 0 (cbeg b) ?l1 = Some ?d2"
  proof -
    have e: "?d1 = (take ?l1 (p2 @ u @ p1) @ p2 @ drop ?l1 u) @ p1 @ []" using beg by simp
    show ?thesis unfolding e
      by (subst memmove_pieces [OF refl]) (use beg in auto)
  qed
  have "cyc_repos h b = Some (b\<lparr>cdata := ?d2, cblock := cblock b, cbeg := 0, cend := 0 + cyc_size b\<rparr>)"
    using m1 m2 by (simp only: cyc_repos_eqs(2) [OF nle assms(3)] bind.bind_lunit p(2,4) repos_done_def) simp
  then show ?thesis by (rule repos_toI [OF assms(1), where pre = "[]"]) (use p(1,5) beg nle in auto)
qed

lemma repos_case2:
  assumes "cyc_ok b" "cend b < cbeg b" "\<not> ctotal b - cbeg b \<le> cbeg b - cend b" "cend b \<le> cbeg b - cend b"
  shows "repos_to b (cyc_repos h b)"
proof -
  note ok = cyc_okD [OF assms(1)]
  obtain p2 u p1 where p: "cdata b = p2 @ u @ p1" "length p2 = cend b" "length u = cbeg b - cend b"
    "length p1 = ctotal b - cbeg b" "cyc_contents b = p1 @ p2" using cyc_pieces assms(1,2) by blast
  have nle: "\<not> cbeg b \<le> cend b" using assms(2) by simp
  let ?l1 = "length p1" and ?l2 = "length p2"
  have beg: "cbeg b = ?l2 + length u" "ctotal b = ?l2 + length u + ?l1" "?l2 \<le> length u"
    using assms(2,4) ok(2) p(2,3,4) by linarith+
  define rest where "rest = drop (?l2 + ?l1) (p2 @ u @ p1)"
  have r: "length rest = length u" by (simp add: rest_def)
  let ?d1 = "p2 @ p1 @ rest"
  let ?d2 = "p2 @ p1 @ p2 @ drop ?l2 rest"
  have m1: "memmove (cdata b) ?l2 (cbeg b) ?l1 = Some ?d1"
    by (subst memmove_pieces [where pre = "p2 @ u" and post = "[]" and xs = p1]) (use p(1) beg in \<open>auto simp: rest_def\<close>)
  have m2: "memmove ?d1 (?l2 + ?l1) 0 ?l2 = Some ?d2"
    by (subst memmove_pieces [where pre = "[]" and xs = p2, OF _ _ refl]) (use beg r in auto)
  have "cyc_repos h b = Some (b\<lparr>cdata := ?d2, cblock := cblock b, cbeg := ?l2, cend := ?l2 + cyc_size b\<rparr>)"
    using m1 m2 by (simp only: cyc_repos_eqs(3) [OF nle assms(3,4)] bind.bind_lunit p(2,4)) simp
  then show ?thesis by (rule repos_toI [OF assms(1), where pre = p2]) (use p(1,5) beg nle r in auto)
qed

text \<open>A rotation of the block that keeps the contents.\<close>

lemma repos_rotate:
  assumes "cyc_ok b" "cend b < cbeg b" "d = front @ u @ hind" "hind @ front = cyc_contents b" "length d = ctotal b" "u \<noteq> []"
  defines "b' \<equiv> b\<lparr>cdata := d, cend := length front, cbeg := length front + length u\<rparr>"
  shows "cyc_ok b'" "repos_to b' r \<Longrightarrow> repos_to b r"
proof -
  note ok = cyc_okD [OF assms(1)]
  have l: "length front + length u + length hind = ctotal b" "0 < length u" using assms(3,5,6) by auto
  then have "ctotal b - length u < ctotal b" by linarith
  then show "cyc_ok b'" using l ok(5) assms(3,5) by (simp add: b'_def cyc_ok_def cyc_size_def)
  have "cyc_contents b' = cyc_contents b" using assms(3,4,6) by (simp add: b'_def cyc_contents_def)
  then show "repos_to b' r \<Longrightarrow> repos_to b r" using assms(2) by (auto simp: repos_to_def b'_def)
qed

lemma repos_case3:
  assumes "cyc_ok b" "cend b < cbeg b" "\<not> ctotal b - cbeg b \<le> cbeg b - cend b" "\<not> cend b \<le> cbeg b - cend b"
    "ctotal b - cbeg b \<le> (cbeg b - cend b) * 2" "cend b \<le> ctotal b - cbeg b"
  shows "repos_to b (cyc_repos h b)"
proof -
  note ok = cyc_okD [OF assms(1)]
  obtain p2 u p1 where p: "cdata b = p2 @ u @ p1" "length p2 = cend b" "length u = cbeg b - cend b"
    "length p1 = ctotal b - cbeg b" "cyc_contents b = p1 @ p2" "u \<noteq> []" using cyc_pieces assms(1,2) by blast
  have nle: "\<not> cbeg b \<le> cend b" using assms(2) by simp
  let ?l1 = "length p1" and ?l2 = "length p2" and ?u = "length u"
  have beg: "cbeg b = ?l2 + ?u" "ctotal b = ?l2 + ?u + ?l1" "?u < ?l1" "?u < ?l2" "?l1 \<le> ?u * 2"
    using assms(2-5) ok(2) p(2,3,4) by linarith+
  define A B where "A = take (?l1 - ?u) p1" and "B = drop (?l1 - ?u) p1"
  have AB: "p1 = A @ B" "length A = ?l1 - ?u" "length B = ?u" "?l1 = length A + ?u"
    using beg(3) by (simp_all add: A_def B_def)
  define x where "x = take ?u p2"
  have x: "length x = ?u" using beg(4) by (simp add: x_def)
  define y where "y = take ?u (A @ B)"
  have y: "length y = ?u" using AB beg(3) by (simp add: y_def)
  have m1: "memmove (cdata b) ?u 0 ?l2 = Some (x @ p2 @ A @ B)"
    by (subst memmove_pieces [where pre = "[]" and post = "u @ p1" and xs = p2])
      (use p(1) beg AB(1) in \<open>auto simp: x_def\<close>)
  have m2: "memmove (x @ p2 @ A @ B) 0 (ctotal b - ?u) ?u = Some (B @ p2 @ A @ B)"
    by (subst memmove_pieces [where pre = "x @ p2 @ A" and post = "[]" and xs = B]) (use beg AB(1,3) x in auto)
  have m3: "memmove (B @ p2 @ A @ B) (cbeg b + ?u) (cbeg b) (?l1 - ?u) = Some (B @ p2 @ y @ A)"
    by (subst memmove_pieces [where pre = "B @ p2" and post = B and xs = A])
      (use beg AB(1,3) in \<open>auto simp: y_def\<close>)
  let ?b' = "b\<lparr>cdata := B @ p2 @ y @ A, cend := length (B @ p2), cbeg := length (B @ p2) + length y\<rparr>"
  have e: "cyc_repos h b = cyc_repos h ?b'"
  proof -
    have l: "length (B @ p2) = cbeg b" "length y = ?u" using AB(3) y beg(1) by simp_all
    show ?thesis unfolding l
      using m1 m2 m3 by (simp only: cyc_repos_eqs(4) [OF nle assms(3,4) conjI [OF assms(5,6)]] bind.bind_lunit p(2,3,4))
  qed
  have y0: "y \<noteq> []" using y p(6) by auto
  note rot = repos_rotate [OF assms(1,2), where d = "B @ p2 @ y @ A" and hind = A and front = "B @ p2" and u = y]
  have "cyc_ok ?b'" by (rule rot(1)) (use p(5) AB(1,3) beg y y0 in auto)
  then have "repos_to ?b' (cyc_repos h ?b')"
    by (rule repos_case1) (use AB(1,3) beg y y0 in auto)
  then show ?thesis unfolding e by (rule rot(2) [rotated -1]) (use p(5) AB(1,3) beg y y0 in auto)
qed

lemma repos_case4:
  assumes "cyc_ok b" "cend b < cbeg b" "\<not> ctotal b - cbeg b \<le> cbeg b - cend b" "\<not> cend b \<le> cbeg b - cend b"
    "\<not> (ctotal b - cbeg b \<le> (cbeg b - cend b) * 2 \<and> cend b \<le> ctotal b - cbeg b)"
    "cend b \<le> (cbeg b - cend b) * 2" "ctotal b - cbeg b \<le> cend b"
  shows "repos_to b (cyc_repos h b)"
proof -
  note ok = cyc_okD [OF assms(1)]
  obtain p2 u p1 where p: "cdata b = p2 @ u @ p1" "length p2 = cend b" "length u = cbeg b - cend b"
    "length p1 = ctotal b - cbeg b" "cyc_contents b = p1 @ p2" "u \<noteq> []" using cyc_pieces assms(1,2) by blast
  have nle: "\<not> cbeg b \<le> cend b" using assms(2) by simp
  let ?l1 = "length p1" and ?l2 = "length p2" and ?u = "length u"
  have beg: "cbeg b = ?l2 + ?u" "ctotal b = ?l2 + ?u + ?l1" "?u < ?l1" "?u < ?l2" "?l2 \<le> ?u * 2"
    using assms(2-4,6) ok(2) p(2,3,4) by linarith+
  define B C where "B = take ?u p2" and "C = drop ?u p2"
  have BC: "p2 = B @ C" "length B = ?u" "?l2 = ?u + length C"
    using beg(4) by (simp_all add: B_def C_def)
  define x where "x = drop ?l1 (u @ p1)"
  have x: "length x = ?u" by (simp add: x_def)
  define y where "y = drop (length C) (B @ C)"
  have y: "length y = ?u" using BC by (simp add: y_def)
  have m1: "memmove (cdata b) ?l2 (cbeg b) ?l1 = Some (B @ C @ p1 @ x)"
    by (subst memmove_pieces [where pre = "p2 @ u" and post = "[]" and xs = p1])
      (use p(1) beg BC(1) in \<open>auto simp: x_def\<close>)
  have m2: "memmove (B @ C @ p1 @ x) (?l1 + ?l2) 0 ?u = Some (B @ C @ p1 @ B)"
    by (subst memmove_pieces [where pre = "[]" and post = "C @ p1 @ x" and xs = B]) (use beg BC x in auto)
  have m3: "memmove (B @ C @ p1 @ B) 0 ?u (?l2 - ?u) = Some (C @ y @ p1 @ B)"
    by (subst memmove_pieces [where pre = B and post = "p1 @ B" and xs = C])
      (use beg BC in \<open>auto simp: y_def\<close>)
  let ?b' = "b\<lparr>cdata := C @ y @ p1 @ B, cend := length C, cbeg := length C + length y\<rparr>"
  have e: "cyc_repos h b = cyc_repos h ?b'"
  proof -
    have l: "length C + length y = cend b" "length C = cend b - ?u" using BC(3) y p(2) by simp_all
    have sw: "b\<lparr>cdata := d, cbeg := i, cend := j\<rparr> = b\<lparr>cdata := d, cend := j, cbeg := i\<rparr>" for d i j by simp
    show ?thesis unfolding l(1) unfolding l(2)
      using m1 m2 m3 by (simp only: cyc_repos_eqs(5) [OF nle assms(3,4,5) conjI [OF assms(6,7)]] bind.bind_lunit p(2,3,4) sw)
  qed
  have y0: "y \<noteq> []" using y p(6) by auto
  note rot = repos_rotate [OF assms(1,2), where d = "C @ y @ p1 @ B" and hind = "p1 @ B" and front = C and u = y]
  have "cyc_ok ?b'" by (rule rot(1)) (use p(5) BC beg y y0 in auto)
  then have "repos_to ?b' (cyc_repos h ?b')"
    by (rule repos_case2) (use BC beg y y0 in auto)
  then show ?thesis unfolding e by (rule rot(2) [rotated -1]) (use p(5) BC beg y y0 in auto)
qed

lemma repos_case5:
  assumes "cyc_ok b" "cend b < cbeg b" "\<not> ctotal b - cbeg b \<le> cbeg b - cend b" "\<not> cend b \<le> cbeg b - cend b"
    "\<not> (ctotal b - cbeg b \<le> (cbeg b - cend b) * 2 \<and> cend b \<le> ctotal b - cbeg b)"
    "\<not> (cend b \<le> (cbeg b - cend b) * 2 \<and> ctotal b - cbeg b \<le> cend b)" "alloc_ok h (int (ctotal b))"
  shows "repos_to b (cyc_repos h b)"
proof -
  note ok = cyc_okD [OF assms(1)]
  have nle: "\<not> cbeg b \<le> cend b" using assms(2) by simp
  have c: "cyc_contents b = drop (cbeg b) (cdata b) @ take (cend b) (cdata b)"
    using assms(2) by (simp add: cyc_contents_def)
  have s: "cyc_size b = ctotal b - cbeg b + cend b" using assms(2) ok(2) by (simp add: cyc_size_def)
  have "cyc_repos h b = Some (b\<lparr>cdata := cyc_contents b @ drop (cyc_size b) (map (junk h) [0..<ctotal b]),
        cblock := Suc (cblock b), cbeg := 0, cend := 0 + cyc_size b\<rparr>)"
    using assms(7) ok(1-4) s
    by (simp add: cyc_repos_eqs(6) [OF nle assms(3-6)] new_chars_def memcpy_Some repos_done_def c add.commute del: drop_map)
  then show ?thesis by (rule repos_toI [OF assms(1), where pre = "[]"]) (use ok assms(2) in auto)
qed

lemma cyc_repos_spec:
  assumes "cyc_ok b" "alloc_ok h (int (ctotal b))"
  shows "repos_to b (cyc_repos h b)"
  using assms repos_case0 repos_case1 repos_case2 repos_case3 repos_case4 repos_case5
  by (meson not_le)

section \<open>The locks of the cyclic buffer\<close>

text \<open>What a client does with the pointers it gets.\<close>

definition cyc_poke :: "ptr \<Rightarrow> byte list \<Rightarrow> cyc_buf \<Rightarrow> cyc_buf option" where
  "cyc_poke p bs b =
     (if fst p = cblock b then map_option (\<lambda>d. b\<lparr>cdata := d\<rparr>) (mem_store (int (snd p)) bs (cdata b)) else None)"

definition cyc_look :: "ptr \<Rightarrow> nat \<Rightarrow> cyc_buf \<Rightarrow> byte list option" where
  "cyc_look p n b = (if fst p = cblock b then mem_load (int (snd p)) n (cdata b) else None)"

lemma cyc_state_cong:
  "cstate b = cstate b' \<Longrightarrow> cyc_wlocked b = cyc_wlocked b'" "cstate b = cstate b' \<Longrightarrow> cyc_rlocked b = cyc_rlocked b'"
  "cstate b = cstate b' \<Longrightarrow> cyc_any_locked b = cyc_any_locked b'"
  by (simp_all add: cyc_wlocked_def cyc_rlocked_def cyc_any_locked_def)

lemma cyc_ok_state [simp]:
  "cyc_ok (b\<lparr>cstate := s\<rparr>) = cyc_ok b" "cyc_contents (b\<lparr>cstate := s\<rparr>) = cyc_contents b"
  "cyc_size (b\<lparr>cstate := s\<rparr>) = cyc_size b" "cyc_avail (b\<lparr>cstate := s\<rparr>) = cyc_avail b"
  by (simp_all add: cyc_ok_def cyc_contents_def cyc_size_def cyc_avail_def cyc_capacity_def)

text \<open>Room behind the contents, after growing and moving.\<close>

lemma cyc_room:
  assumes "cyc_ok b" "len \<le> cyc_avail b"
  shows "\<exists>b'. (if ctotal b - cend b < len then map_option (Pair len) (cyc_repos h b) else Some (len, b)) = Some (len, b')
    \<and> cyc_ok b' \<and> cyc_contents b' = cyc_contents b \<and> cstate b' = cstate b \<and> len \<le> cyc_avail b' \<and> len \<le> ctotal b' - cend b'"
proof (cases "ctotal b - cend b < len")
  case True
  note ok = cyc_okD [OF assms(1)]
  have flat: "cbeg b \<le> cend b"
  proof (rule ccontr)
    assume "\<not> cbeg b \<le> cend b"
    then show False using True ok(2,8) assms(2) by (simp add: cyc_size_def)
  qed
  obtain b' where b': "cyc_repos h b = Some b'" "cyc_ok b'" "cyc_contents b' = cyc_contents b" "ctotal b' = ctotal b"
      "cstate b' = cstate b" "cyc_flat b'" "cbeg b' = 0"
    using repos_case0 [OF assms(1) flat, of h] flat by (auto simp: repos_to_def)
  have "cyc_size b' = cyc_size b" using ok(6) cyc_okD(6) [OF b'(2)] b'(3) by simp
  moreover have "cend b' = cyc_size b'" using b'(7) by (simp add: cyc_size_def)
  ultimately have "len \<le> cyc_avail b'" "len \<le> ctotal b' - cend b'"
    using cyc_okD(8) [OF b'(2)] ok(8) b'(4) assms(2) by simp_all
  then show ?thesis using True b' by simp
next
  case False
  then show ?thesis using assms by auto
qed

lemma cyc_wlock_spec:
  assumes "cyc_ok b" "heap_ok h" "\<not> cyc_any_locked b" "cyc_fits h len b"
  shows "\<exists>b'. cyc_wlock True h len b = Some (Some (cblock b', cend b'), len, b') \<and> cyc_ok b'
    \<and> cyc_contents b' = cyc_contents b \<and> cyc_wlocked b' \<and> \<not> cyc_rlocked b'
    \<and> len \<le> cyc_avail b' \<and> len \<le> ctotal b' - cend b'"
proof -
  have w: "\<not> cyc_wlocked b" "\<not> cyc_rlocked b" using assms(3) by (auto simp: cyc_any_locked_def)
  obtain b1 where b1: "(if cyc_avail b < len then cyc_grow h (len - cyc_avail b) b else Some b) = Some b1"
    "cyc_ok b1" "cyc_contents b1 = cyc_contents b" "cstate b1 = cstate b" "len \<le> cyc_avail b1"
    using cyc_grow_fits [OF assms(1,2) _ assms(4)] assms(1) by (cases "cyc_avail b < len") auto
  obtain b2 where b2: "(if ctotal b1 - cend b1 < len then map_option (Pair len) (cyc_repos h b1) else Some (len, b1)) = Some (len, b2)"
    "cyc_ok b2" "cyc_contents b2 = cyc_contents b1" "cstate b2 = cstate b1" "len \<le> cyc_avail b2" "len \<le> ctotal b2 - cend b2"
    using cyc_room [OF b1(2,5), of h] by blast
  let ?b' = "b2\<lparr>cstate := BT_SET (cstate b2) STATE_WRITE_LOCKED\<rparr>"
  have "cyc_wlock True h len b = Some (Some (cblock ?b', cend ?b'), len, ?b')"
    using w(1) b1(1) b2(1) by (simp add: cyc_wlock_def cong: if_cong split del: if_split)
  moreover have "cyc_wlocked ?b'" "\<not> cyc_rlocked ?b'"
    using w(2) b1(4) b2(4) by (simp_all add: cyc_wlocked_def cyc_rlocked_def)
  ultimately show ?thesis using b1(3) b2(2,3,5,6) by (intro exI [of _ ?b']) simp
qed

lemma cyc_poke_wunlock:
  assumes "cyc_ok b" "cyc_wlocked b" "length bs \<le> cyc_avail b" "length bs \<le> ctotal b - cend b"
  shows "\<exists>b1 b2. cyc_poke (cblock b, cend b) bs b = Some b1 \<and> cyc_contents b1 = cyc_contents b
    \<and> cyc_wunlock (cblock b, cend b) (length bs) b1 = (True, b2) \<and> cyc_ok b2
    \<and> cyc_contents b2 = cyc_contents b @ bs \<and> \<not> cyc_wlocked b2 \<and> cyc_rlocked b2 = cyc_rlocked b"
proof -
  note ok = cyc_okD [OF assms(1)]
  let ?b1 = "b\<lparr>cdata := take (cend b) (cdata b) @ bs @ drop (cend b + length bs) (cdata b)\<rparr>"
  let ?b2 = "?b1\<lparr>cend := cend b + length bs, cstate := BT_CLEAR (cstate b) STATE_WRITE_LOCKED\<rparr>"
  have e: "cend b + length bs \<le> ctotal b" using assms(4) ok(3) by linarith
  have gap: "cend b < cbeg b \<Longrightarrow> cend b + length bs < cbeg b"
    using assms(3) ok(2,8) by (simp add: cyc_size_def)
  have a: "cyc_avail ?b1 = cyc_avail b" by (simp add: cyc_avail_def cyc_capacity_def cyc_size_def)
  have "cyc_poke (cblock b, cend b) bs b = Some ?b1" using e ok(1) by (simp add: cyc_poke_def mem_store_Some)
  moreover have "cyc_contents ?b1 = cyc_contents b"
    using e ok(1,2) gap by (cases "cbeg b \<le> cend b") (simp_all add: cyc_contents_def drop_take)
  moreover have "cyc_wunlock (cblock b, cend b) (length bs) ?b1 = (True, ?b2)"
    using assms(2-4) a by (simp add: cyc_wunlock_def cyc_wlocked_def)
  moreover have "cyc_ok ?b2" using e ok(1-5,8) gap assms(3)
    by (cases "cbeg b \<le> cend b") (auto simp: cyc_ok_def cyc_size_def)
  moreover have "cyc_contents ?b2 = cyc_contents b @ bs"
    using e ok(1,2) gap by (cases "cbeg b \<le> cend b") (simp_all add: cyc_contents_def drop_take)
  moreover have "\<not> cyc_wlocked ?b2" "cyc_rlocked ?b2 = cyc_rlocked b"
    by (simp_all add: cyc_wlocked_def cyc_rlocked_def)
  ultimately show ?thesis by blast
qed

lemma cyc_rlock_spec:
  assumes "cyc_ok b" "\<not> cyc_any_locked b" "alloc_ok h (int (ctotal b))"
  shows "\<exists>b'. cyc_rlock True h len b = Some (Some (cblock b', cbeg b'), min len (cyc_size b), b') \<and> cyc_ok b'
    \<and> cyc_contents b' = cyc_contents b \<and> cyc_rlocked b' \<and> \<not> cyc_wlocked b'
    \<and> cyc_look (cblock b', cbeg b') (min len (cyc_size b)) b' = Some (take len (cyc_contents b))
    \<and> min len (cyc_size b) \<le> ctotal b' - cbeg b'"
proof -
  let ?l = "min len (cyc_size b)"
  have w: "\<not> cyc_wlocked b" "\<not> cyc_rlocked b" using assms(2) by (auto simp: cyc_any_locked_def)
  obtain b1 where b1: "(if ctotal b - cbeg b < ?l then map_option (Pair ?l) (cyc_repos h b) else Some (?l, b)) = Some (?l, b1)"
    "cyc_ok b1" "cyc_contents b1 = cyc_contents b" "cstate b1 = cstate b" "?l \<le> ctotal b1 - cbeg b1"
  proof (cases "ctotal b - cbeg b < ?l")
    case True
    obtain b1 where b1: "cyc_repos h b = Some b1" "cyc_ok b1" "cyc_contents b1 = cyc_contents b" "cstate b1 = cstate b" "cyc_flat b1"
      using cyc_repos_spec [OF assms(1,3)] by (auto simp: repos_to_def)
    have "cyc_size b1 = cyc_size b" using cyc_okD(6) [OF assms(1)] cyc_okD(6) [OF b1(2)] b1(3) by simp
    moreover have "cyc_size b1 \<le> ctotal b1 - cbeg b1"
      using b1(5) cyc_okD(3) [OF b1(2)] by (simp add: cyc_flat_def cyc_size_def)
    ultimately show ?thesis using that True b1 by simp
  next
    case False
    show ?thesis by (rule that [of b]) (use False assms(1) in auto)
  qed
  let ?b' = "b1\<lparr>cstate := BT_SET (cstate b1) STATE_READ_LOCKED\<rparr>"
  note ok = cyc_okD [OF b1(2)]
  have l: "?l \<le> length (cyc_contents b1)" using b1(3) cyc_okD(6) [OF assms(1)] by simp
  have "take ?l (drop (cbeg b1) (cdata b1)) = take ?l (cyc_contents b1)"
    using l b1(5) ok(1) by (cases "cbeg b1 \<le> cend b1") (simp_all add: cyc_contents_def)
  also have "\<dots> = take len (cyc_contents b1)" using b1(3) cyc_okD(6) [OF assms(1)] by (simp add: min_def)
  finally have "take ?l (drop (cbeg b1) (cdata b1)) = take len (cyc_contents b1)" .
  moreover have "cyc_rlock True h len b = Some (Some (cblock ?b', cbeg ?b'), ?l, ?b')"
    using w(2) b1(1) by (simp add: cyc_rlock_def Let_def cong: if_cong split del: if_split)
  moreover have "cyc_rlocked ?b'" "\<not> cyc_wlocked ?b'" using w(1) b1(4) by (simp_all add: cyc_wlocked_def cyc_rlocked_def)
  moreover have "cbeg b1 + ?l \<le> length (cdata b1)" using ok(1,2) b1(5) by linarith
  ultimately show ?thesis using b1(2,3,5) by (intro exI [of _ ?b']) (simp add: cyc_look_def mem_load_Some)
qed

lemma cyc_runlock_spec:
  assumes "cyc_ok b" "cyc_rlocked b" "n \<le> cyc_size b" "n \<le> ctotal b - cbeg b"
  shows "\<exists>b'. cyc_runlock (cblock b, cbeg b) n b = (True, b') \<and> cyc_ok b' \<and> cyc_contents b' = drop n (cyc_contents b)
    \<and> \<not> cyc_rlocked b' \<and> cyc_wlocked b' = cyc_wlocked b"
proof -
  note ok = cyc_okD [OF assms(1)]
  let ?b' = "b\<lparr>cbeg := cbeg b + n, cstate := BT_CLEAR (cstate b) STATE_READ_LOCKED\<rparr>"
  have "cyc_runlock (cblock b, cbeg b) n b = (True, ?b')" using assms(2-4) by (simp add: cyc_runlock_def)
  moreover have "cyc_ok ?b'" using ok assms(3,4) by (auto simp: cyc_ok_def cyc_size_def split: if_splits)
  moreover have "cyc_contents ?b' = drop n (cyc_contents b)"
  proof (cases "cbeg b \<le> cend b")
    case True
    then have "cbeg b + n \<le> cend b" using assms(3) by (simp add: cyc_size_def)
    then show ?thesis using True by (simp add: cyc_contents_def drop_take add.commute)
  next
    case False
    then show ?thesis using assms(4) ok(1) by (simp add: cyc_contents_def add.commute)
  qed
  moreover have "\<not> cyc_rlocked ?b'" "cyc_wlocked ?b' = cyc_wlocked b" by (simp_all add: cyc_wlocked_def cyc_rlocked_def)
  ultimately show ?thesis by blast
qed

section \<open>A queue of bytes\<close>

text \<open>
  The contract of both buffers: in states that are sound and not locked, a write that can be
  done appends and a read that can be done takes from the front. Sequences of such calls give
  what a list of bytes gives.
\<close>

datatype queue_op = Write "byte list" | Read nat

fun fifo_run :: "queue_op list \<Rightarrow> byte list \<Rightarrow> byte list list \<times> byte list" where
  "fifo_run [] q = ([], q)"
| "fifo_run (Write bs # ops) q = fifo_run ops (q @ bs)"
| "fifo_run (Read n # ops) q = (let (outs, q') = fifo_run ops (drop n q) in (take n q # outs, q'))"

fun queue_run :: "(byte list \<Rightarrow> 's \<Rightarrow> (nat \<times> 's) option) \<Rightarrow> (nat \<Rightarrow> 's \<Rightarrow> (byte list \<times> 's) option) \<Rightarrow>
    queue_op list \<Rightarrow> 's \<Rightarrow> (byte list list \<times> 's) option" where
  "queue_run wr rd [] s = Some ([], s)"
| "queue_run wr rd (Write bs # ops) s = Option.bind (wr bs s) (\<lambda>(n, s). queue_run wr rd ops s)"
| "queue_run wr rd (Read n # ops) s = Option.bind (rd n s) (\<lambda>(bs, s).
     map_option (\<lambda>(outs, s). (bs # outs, s)) (queue_run wr rd ops s))"

text \<open>The calls can be done, each in the state that the previous ones lead to.\<close>

fun queue_can :: "(byte list \<Rightarrow> 's \<Rightarrow> (nat \<times> 's) option) \<Rightarrow> (nat \<Rightarrow> 's \<Rightarrow> (byte list \<times> 's) option) \<Rightarrow>
    (nat \<Rightarrow> 's \<Rightarrow> bool) \<Rightarrow> (nat \<Rightarrow> 's \<Rightarrow> bool) \<Rightarrow> queue_op list \<Rightarrow> 's \<Rightarrow> bool" where
  "queue_can wr rd cw cr [] s = True"
| "queue_can wr rd cw cr (Write bs # ops) s \<longleftrightarrow>
     cw (length bs) s \<and> (case wr bs s of None \<Rightarrow> True | Some (n, s) \<Rightarrow> queue_can wr rd cw cr ops s)"
| "queue_can wr rd cw cr (Read n # ops) s \<longleftrightarrow>
     cr n s \<and> (case rd n s of None \<Rightarrow> True | Some (bs, s) \<Rightarrow> queue_can wr rd cw cr ops s)"

lemma fifo_run_stream:
  "fifo_run ops q = (outs, q') \<Longrightarrow>
   concat outs @ q' = q @ concat (map (\<lambda>op. case op of Write bs \<Rightarrow> bs | Read _ \<Rightarrow> []) ops)"
  by (induction ops q arbitrary: outs q' rule: fifo_run.induct) (force split: prod.splits)+

locale byte_queue =
  fixes ok :: "'s \<Rightarrow> bool" and contents :: "'s \<Rightarrow> byte list"
    and wr :: "byte list \<Rightarrow> 's \<Rightarrow> (nat \<times> 's) option" and rd :: "nat \<Rightarrow> 's \<Rightarrow> (byte list \<times> 's) option"
    and can_write :: "nat \<Rightarrow> 's \<Rightarrow> bool" and can_read :: "nat \<Rightarrow> 's \<Rightarrow> bool"
  assumes wr_ok: "ok s \<Longrightarrow> can_write (length bs) s \<Longrightarrow>
      \<exists>s'. wr bs s = Some (length bs, s') \<and> ok s' \<and> contents s' = contents s @ bs"
    and rd_ok: "ok s \<Longrightarrow> can_read n s \<Longrightarrow>
      \<exists>s'. rd n s = Some (take n (contents s), s') \<and> ok s' \<and> contents s' = drop n (contents s)"
begin

lemma run_refines:
  "ok s \<Longrightarrow> queue_can wr rd can_write can_read ops s \<Longrightarrow>
   \<exists>outs s'. queue_run wr rd ops s = Some (outs, s') \<and> ok s' \<and> fifo_run ops (contents s) = (outs, contents s')"
proof (induction ops arbitrary: s)
  case (Cons op ops)
  show ?case
  proof (cases op)
    case (Write bs)
    then obtain s1 where s1: "wr bs s = Some (length bs, s1)" "ok s1" "contents s1 = contents s @ bs"
      using wr_ok [of s bs] Cons.prems by auto
    then show ?thesis using Cons.IH [of s1] Cons.prems(2) Write by auto
  next
    case (Read n)
    then obtain s1 where s1: "rd n s = Some (take n (contents s), s1)" "ok s1" "contents s1 = drop n (contents s)"
      using rd_ok [of s n] Cons.prems by auto
    then show ?thesis using Cons.IH [of s1] Cons.prems(2) Read by fastforce
  qed
qed simp

text \<open>Nothing is lost, repeated or reordered: what was read and what is left is what was there and was written.\<close>

lemma run_stream:
  assumes "ok s" "queue_can wr rd can_write can_read ops s"
  shows "\<exists>outs s'. queue_run wr rd ops s = Some (outs, s') \<and> ok s' \<and>
     concat outs @ contents s' = contents s @ concat (map (\<lambda>op. case op of Write bs \<Rightarrow> bs | Read _ \<Rightarrow> []) ops)"
  using run_refines [OF assms] fifo_run_stream by blast

end

definition cyc_idle :: "cyc_buf \<Rightarrow> bool" where
  "cyc_idle b \<longleftrightarrow> cyc_ok b \<and> \<not> cyc_any_locked b"

interpretation cyc: byte_queue cyc_idle cyc_contents "cyc_write h" cyc_read
  "\<lambda>n b. heap_ok h \<and> cyc_fits h n b" cyc_readable for h
proof
  fix s and bs :: "byte list" assume "cyc_idle s" "heap_ok h \<and> cyc_fits h (length bs) s"
  then show "\<exists>s'. cyc_write h bs s = Some (length bs, s') \<and> cyc_idle s' \<and> cyc_contents s' = cyc_contents s @ bs"
    using cyc_write_spec [of s h bs] by (fastforce simp: cyc_idle_def cyc_any_locked_def cyc_wlocked_def cyc_rlocked_def)
next
  fix s n assume "cyc_idle s" "cyc_readable n s"
  then show "\<exists>s'. cyc_read n s = Some (take n (cyc_contents s), s') \<and> cyc_idle s' \<and> cyc_contents s' = drop n (cyc_contents s)"
    using cyc_read_spec [of s n] by (fastforce simp: cyc_idle_def cyc_any_locked_def cyc_wlocked_def cyc_rlocked_def)
qed

section \<open>The flat buffer holds a queue\<close>

definition fixed_contents :: "fixed_buf \<Rightarrow> byte list" where
  "fixed_contents b = take (fpos b) (fdata b)"

definition fixed_ok :: "fixed_buf \<Rightarrow> bool" where
  "fixed_ok b \<longleftrightarrow> length (fdata b) = ftotal b \<and> fpos b \<le> ftotal b \<and> ftotal b < 2 ^ 62"

lemma fixed_okD:
  assumes "fixed_ok b"
  shows "length (fdata b) = ftotal b" "fpos b \<le> ftotal b" "ftotal b < 2 ^ 62"
    "fixed_avail b = ftotal b - fpos b" "length (fixed_contents b) = fpos b"
  using assms by (auto simp: fixed_ok_def fixed_avail_def fixed_capacity_def fixed_size_def size_minus_eq fixed_contents_def)

lemmas fixed_defs = fixed_size_def fixed_capacity_def fixed_wlocked_def fixed_rlocked_def fixed_any_locked_def

lemma fixed_buf_new_spec:
  assumes "heap_ok h" "fixed_buf_new h n = Some b" "n < 2 ^ 63"
  shows "fixed_ok b \<and> fixed_contents b = [] \<and> fstate b = STATE_NONE \<and> n \<le> fixed_capacity b"
proof -
  have "n \<le> DWORDAlign n" using DWORDAlign_bounds(1) [of n] assms(3) by simp
  then show ?thesis using assms(2) heap_okD [OF assms(1)]
    by (auto simp: fixed_buf_new_def new_chars_Some Let_def fixed_ok_def fixed_contents_def fixed_capacity_def split: bind_splits)
qed

definition fixed_grown :: "nat \<Rightarrow> fixed_buf \<Rightarrow> nat" where
  "fixed_grown len b = DWORDAlign (grow_size (fixed_capacity b) (len - fixed_avail b))"

definition fixed_fits :: "heap \<Rightarrow> nat \<Rightarrow> fixed_buf \<Rightarrow> bool" where
  "fixed_fits h len b \<longleftrightarrow> len < 2 ^ 62 \<and>
     (len \<le> fixed_avail b \<or> \<not> fixed_any_locked b \<and> alloc_ok h (int (fixed_grown len b)))"

lemma fixed_grow_fits:
  assumes "fixed_ok b" "heap_ok h" "fixed_avail b < len" "fixed_fits h len b"
  shows "\<exists>b1. fixed_grow h (len - fixed_avail b) b = Some b1 \<and> fixed_ok b1 \<and> fixed_contents b1 = fixed_contents b
    \<and> fstate b1 = fstate b \<and> len \<le> fixed_avail b1"
proof -
  note ok = fixed_okD [OF assms(1)]
  let ?g = "grow_size (fixed_capacity b) (len - fixed_avail b)" and ?n = "fixed_grown len b"
  have l: "\<not> fixed_any_locked b" "alloc_ok h (int ?n)" "len < 2 ^ 62" using assms by (auto simp: fixed_fits_def)
  have g: "fixed_capacity b + (len - fixed_avail b) \<le> ?g" "?g < 2 ^ 64 - 4"
    using grow_size_bounds [of "fixed_capacity b" "len - fixed_avail b"] l(3) ok(3) by (auto simp: fixed_capacity_def)
  have n: "?g \<le> ?n" using DWORDAlign_bounds(1) [of ?g] g(2) by (simp add: fixed_grown_def)
  have big: "ftotal b < ?n" using n g(1) assms(3) by (simp add: fixed_capacity_def)
  let ?b1 = "b\<lparr>fdata := fixed_contents b @ drop (fpos b) (map (junk h) [0..<?n]), fblock := Suc (fblock b), ftotal := ?n, fpos := fpos b\<rparr>"
  have "fixed_grow h (len - fixed_avail b) b = Some ?b1"
    using l big ok(1,2) fixed_okD(5) [OF assms(1)]
    by (simp add: fixed_grow_def fixed_reserve_def fixed_grown_def new_chars_def memcpy_Some Let_def fixed_size_def
        fixed_contents_def del: drop_map)
  moreover have ok1: "fixed_ok ?b1" using big ok heap_okD [OF assms(2) l(2)] by (simp add: fixed_ok_def)
  moreover have "fixed_contents ?b1 = fixed_contents b" using ok(5) by (simp add: fixed_contents_def)
  moreover have "len \<le> fixed_avail ?b1"
    using n g(1) assms(3) ok(2,4) fixed_okD(4) [OF ok1] by (simp add: fixed_capacity_def)
  ultimately show ?thesis by (intro exI [of _ ?b1]) simp
qed

lemma fixed_write_fits:
  assumes "fixed_ok b" "\<not> fixed_wlocked b" "length bs \<le> fixed_avail b"
  shows "\<exists>b'. fixed_write h bs b = Some (length bs, b') \<and> fixed_ok b' \<and> fixed_contents b' = fixed_contents b @ bs
    \<and> fstate b' = fstate b"
proof -
  note ok = fixed_okD [OF assms(1)]
  have le: "fpos b + length bs \<le> ftotal b" using ok(2,4) assms(3) by linarith
  let ?b' = "b\<lparr>fdata := take (fpos b) (fdata b) @ bs @ drop (fpos b + length bs) (fdata b), fpos := fpos b + length bs\<rparr>"
  have "fixed_write h bs b = Some (length bs, ?b')"
    using assms(2,3) le ok(1) by (simp add: fixed_write_def mem_store_Some fixed_avail_def [symmetric] Let_def)
  moreover have "fixed_ok ?b'" using le ok by (simp add: fixed_ok_def)
  moreover have "fixed_contents ?b' = fixed_contents b @ bs" using le ok by (simp add: fixed_contents_def)
  ultimately show ?thesis by (intro exI [of _ ?b']) simp
qed

lemma fixed_write_spec:
  assumes "fixed_ok b" "heap_ok h" "\<not> fixed_wlocked b" "fixed_fits h (length bs) b"
  shows "\<exists>b'. fixed_write h bs b = Some (length bs, b') \<and> fixed_ok b' \<and> fixed_contents b' = fixed_contents b @ bs
    \<and> fstate b' = fstate b"
proof (cases "length bs \<le> fixed_avail b")
  case True
  with fixed_write_fits assms(1,3) show ?thesis by blast
next
  case False
  with fixed_grow_fits [OF assms(1,2) _ assms(4)] obtain b1 where
    b1: "fixed_grow h (length bs - fixed_avail b) b = Some b1" "fixed_ok b1" "fixed_contents b1 = fixed_contents b"
      "fstate b1 = fstate b" "length bs \<le> fixed_avail b1" by auto
  then have w: "\<not> fixed_wlocked b1" using assms(3) by (simp add: fixed_wlocked_def)
  have "fixed_write h bs b = fixed_write h bs b1" using False b1(1,5) w assms(3) by (simp add: fixed_write_def)
  with fixed_write_fits [OF b1(2) w b1(5), of h] show ?thesis using b1(3,4) by auto
qed

lemma fixed_take_front:
  assumes "fixed_ok b" "n \<le> fpos b"
  shows "\<exists>d. memmove (fdata b) 0 n (fixed_size b - n) = Some d \<and> fixed_ok (b\<lparr>fdata := d, fpos := fpos b - n\<rparr>)
    \<and> fixed_contents (b\<lparr>fdata := d, fpos := fpos b - n\<rparr>) = drop n (fixed_contents b)"
  using fixed_okD [OF assms(1)] assms(2) by (simp add: memmove_Some fixed_size_def fixed_ok_def fixed_contents_def drop_take)

lemma fixed_read_spec:
  assumes "fixed_ok b" "\<not> fixed_rlocked b"
  shows "\<exists>b'. fixed_read n b = Some (take n (fixed_contents b), b') \<and> fixed_ok b'
    \<and> fixed_contents b' = drop n (fixed_contents b) \<and> fstate b' = fstate b"
proof -
  note ok = fixed_okD [OF assms(1)]
  let ?n = "min n (fpos b)"
  have "mem_load 0 ?n (fdata b) = Some (take n (fixed_contents b))"
    using mem_load_Some [of 0 ?n "fdata b"] ok(1,2) by (simp add: fixed_contents_def)
  then have p: "fixed_peek n b = Some (take n (fixed_contents b))"
    using assms(2) by (simp add: fixed_peek_def fixed_size_def)
  obtain d where d: "memmove (fdata b) 0 ?n (fixed_size b - ?n) = Some d" "fixed_ok (b\<lparr>fdata := d, fpos := fpos b - ?n\<rparr>)"
      "fixed_contents (b\<lparr>fdata := d, fpos := fpos b - ?n\<rparr>) = drop ?n (fixed_contents b)"
    using fixed_take_front [OF assms(1), of ?n] by auto
  have l: "length (take n (fixed_contents b)) = ?n" using ok(5) by (simp add: min.commute)
  have "drop ?n (fixed_contents b) = drop n (fixed_contents b)" using ok(5) by (simp add: min_def)
  then show ?thesis using d p assms(2) by (simp add: fixed_read_def Let_def l del: length_take)
qed

definition fixed_idle :: "fixed_buf \<Rightarrow> bool" where
  "fixed_idle b \<longleftrightarrow> fixed_ok b \<and> \<not> fixed_any_locked b"

interpretation fixed: byte_queue fixed_idle fixed_contents "fixed_write h" fixed_read
  "\<lambda>n b. heap_ok h \<and> fixed_fits h n b" "\<lambda>_ _. True" for h
proof
  fix s and bs :: "byte list" assume "fixed_idle s" "heap_ok h \<and> fixed_fits h (length bs) s"
  then show "\<exists>s'. fixed_write h bs s = Some (length bs, s') \<and> fixed_idle s' \<and> fixed_contents s' = fixed_contents s @ bs"
    using fixed_write_spec [of s h bs] by (fastforce simp: fixed_idle_def fixed_defs)
next
  fix s n assume "fixed_idle s"
  then show "\<exists>s'. fixed_read n s = Some (take n (fixed_contents s), s') \<and> fixed_idle s' \<and> fixed_contents s' = drop n (fixed_contents s)"
    using fixed_read_spec [of s n] by (fastforce simp: fixed_idle_def fixed_defs)
qed

text \<open>The locks of the flat buffer, and clearing.\<close>

lemma fixed_locked_write:
  assumes "fixed_idle b" "heap_ok h" "fixed_fits h len b" "length bs \<le> len"
  shows "\<exists>b1 d b3. fixed_wlock h len b = Some (Some (fblock b1, fpos b1), len, b1)
    \<and> mem_store (int (fpos b1)) bs (fdata b1) = Some d
    \<and> fixed_wunlock (fblock b1, fpos b1) (length bs) (b1\<lparr>fdata := d\<rparr>) = (True, b3)
    \<and> fixed_idle b3 \<and> fixed_contents b3 = fixed_contents b @ bs"
proof -
  have i: "fixed_ok b" "\<not> fixed_wlocked b" "\<not> fixed_rlocked b"
    using assms(1) by (auto simp: fixed_idle_def fixed_any_locked_def)
  obtain b1 where b1: "(if fixed_avail b < len then fixed_grow h (len - fixed_avail b) b else Some b) = Some b1"
    "fixed_ok b1" "fixed_contents b1 = fixed_contents b" "fstate b1 = fstate b" "len \<le> fixed_avail b1"
    using fixed_grow_fits [OF i(1) assms(2) _ assms(3)] i(1) by (cases "fixed_avail b < len") auto
  note ok = fixed_okD [OF b1(2)]
  let ?l = "b1\<lparr>fstate := BT_SET (fstate b1) STATE_WRITE_LOCKED\<rparr>"
  let ?d = "take (fpos b1) (fdata b1) @ bs @ drop (fpos b1 + length bs) (fdata b1)"
  let ?r = "?l\<lparr>fdata := ?d, fpos := fpos b1 + length bs, fstate := BT_CLEAR (fstate ?l) STATE_WRITE_LOCKED\<rparr>"
  have le: "fpos b1 + length bs \<le> ftotal b1" using ok(2,4) b1(5) assms(4) by linarith
  have a: "fixed_avail (?l\<lparr>fdata := ?d\<rparr>) = fixed_avail b1" by (simp add: fixed_avail_def fixed_capacity_def fixed_size_def)
  have "fixed_wlock h len b = Some (Some (fblock ?l, fpos ?l), len, ?l)"
    using i(2) b1(1) by (simp add: fixed_wlock_def split del: if_split)
  moreover have "mem_store (int (fpos ?l)) bs (fdata ?l) = Some ?d" using le ok(1) by (simp add: mem_store_Some)
  moreover have "fixed_wunlock (fblock ?l, fpos ?l) (length bs) (?l\<lparr>fdata := ?d\<rparr>) = (True, ?r)"
    using a b1(5) assms(4) by (simp add: fixed_wunlock_def fixed_wlocked_def)
  moreover have "fixed_idle ?r" using le ok(1,3) i(3) b1(4) by (simp add: fixed_idle_def fixed_ok_def fixed_defs)
  moreover have "fixed_contents ?r = fixed_contents b @ bs"
    using le ok(1) by (simp only: b1(3) [symmetric]) (simp add: fixed_contents_def)
  ultimately show ?thesis by blast
qed

lemma fixed_locked_read:
  assumes "fixed_idle b" "n \<le> min len (fpos b)"
  shows "\<exists>b1 b2. fixed_rlock len b = (Some (fblock b1, 0), min len (fpos b), b1)
    \<and> mem_load 0 (min len (fpos b)) (fdata b1) = Some (take len (fixed_contents b))
    \<and> fixed_runlock (fblock b1, 0) n b1 = Some (True, b2)
    \<and> fixed_idle b2 \<and> fixed_contents b2 = drop n (fixed_contents b)"
proof -
  have i: "fixed_ok b" "\<not> fixed_wlocked b" "\<not> fixed_rlocked b"
    using assms(1) by (auto simp: fixed_idle_def fixed_any_locked_def)
  note ok = fixed_okD [OF i(1)]
  let ?l = "b\<lparr>fstate := BT_SET (fstate b) STATE_READ_LOCKED\<rparr>"
  have "n \<le> fpos b" using assms(2) by simp
  from fixed_take_front [OF i(1) this] obtain d where
    d: "memmove (fdata b) 0 n (fixed_size b - n) = Some d" "fixed_ok (b\<lparr>fdata := d, fpos := fpos b - n\<rparr>)"
      "fixed_contents (b\<lparr>fdata := d, fpos := fpos b - n\<rparr>) = drop n (fixed_contents b)" by blast
  let ?r = "?l\<lparr>fdata := d, fpos := fpos b - n, fstate := BT_CLEAR (fstate ?l) STATE_READ_LOCKED\<rparr>"
  have "fixed_rlock len b = (Some (fblock ?l, 0), min len (fpos b), ?l)"
    using i(3) by (simp add: fixed_rlock_def fixed_size_def min.commute)
  moreover have "mem_load 0 (min len (fpos b)) (fdata ?l) = Some (take len (fixed_contents b))"
    using mem_load_Some [of 0 "min len (fpos b)" "fdata b"] ok(1,2) by (simp add: fixed_contents_def)
  moreover have "fixed_runlock (fblock ?l, 0) n ?l = Some (True, ?r)"
    using d(1) i(2) \<open>n \<le> fpos b\<close> by (simp add: fixed_runlock_def fixed_wlocked_def fixed_rlocked_def fixed_size_def)
  moreover have "fixed_idle ?r" using d(2) i(2) by (simp add: fixed_idle_def fixed_ok_def fixed_defs)
  moreover have "fixed_contents ?r = drop n (fixed_contents b)" using d(3) by (simp add: fixed_contents_def)
  ultimately show ?thesis by blast
qed

lemma clear_empties:
  assumes "cyc_idle c" "fixed_idle f"
  shows "\<exists>c'. cyc_clear c = (True, c') \<and> cyc_idle c' \<and> cyc_empty c' \<and> cyc_contents c' = []"
    "\<exists>f'. fixed_clear f = (True, f') \<and> fixed_idle f' \<and> fixed_empty f' \<and> fixed_contents f' = []"
  using assms
  by (auto simp: cyc_idle_def cyc_clear_def cyc_ok_def cyc_size_def cyc_empty_def cyc_contents_def cyc_any_locked_def
      cyc_wlocked_def cyc_rlocked_def fixed_idle_def fixed_clear_def fixed_ok_def fixed_empty_def fixed_contents_def fixed_defs)

section \<open>Properties\<close>


definition demo_heap :: heap where
  "demo_heap = \<lparr>alloc_ok = (\<lambda>n. n \<le> 100), junk = (\<lambda>_. 0)\<rparr>"

definition demo_cyc :: cyc_buf where
  "demo_cyc = \<lparr>cdata = [0, 0, 0, 0], cblock = 0, ctotal = 4, cbeg = 0, cend = 0, cstate = 0\<rparr>"

definition demo_fixed :: fixed_buf where
  "demo_fixed = \<lparr>fdata = [0, 0, 0, 0], fblock = 0, ftotal = 4, fpos = 0, fstate = 0\<rparr>"

lemma heap_ok_demo [simp]: "heap_ok demo_heap"
  by (simp add: heap_ok_def demo_heap_def)

lemmas queue_eval = cyc_write_def cyc_read_def cyc_peek_def cyc_fits_def cyc_readable_def cyc_grow_def cyc_grown_def
  cyc_reserve_def cyc_avail_def cyc_capacity_def cyc_size_def cyc_any_locked_def cyc_wlocked_def cyc_rlocked_def
  fixed_write_def fixed_read_def fixed_peek_def fixed_fits_def fixed_grow_def fixed_grown_def fixed_reserve_def
  fixed_avail_def fixed_defs size_minus_def size_succ_def grow_size_def DWORDAlign_def BT_IS_SET_def
  new_chars_def memmove_def memcpy_def mem_load_def mem_store_def


text \<open>
  (C26) Whatever the layout of a cyclic buffer, \<open>_repos\<close> stays inside the block and ends with the
  same contents in one piece, in a block of the same size and with the locks unchanged. The
  buffer is allocated anew only when neither part fits twice into the unused bytes.
\<close>

theorem cyc_repos_contiguous:
  assumes "cyc_ok b" "alloc_ok h (int (ctotal b))"
  shows "\<exists>b'. cyc_repos h b = Some b' \<and> cyc_ok b' \<and> cyc_contents b' = cyc_contents b
    \<and> cyc_contents b' = take (cyc_size b) (drop (cbeg b') (cdata b')) \<and> ctotal b' = ctotal b \<and> cstate b' = cstate b"
proof -
  obtain b' where b': "cyc_repos h b = Some b'" "cyc_ok b'" "cyc_contents b' = cyc_contents b" "ctotal b' = ctotal b"
    "cstate b' = cstate b" "cyc_flat b'" using cyc_repos_spec [OF assms] by (auto simp: repos_to_def)
  have "cyc_size b' = cyc_size b" using cyc_okD(6) [OF assms(1)] cyc_okD(6) [OF b'(2)] b'(3) by simp
  with b' show ?thesis by (auto simp: cyc_flat_def cyc_size_def cyc_contents_def)
qed

theorem cyc_repos_contiguous_witness:
  "\<exists>b'. cyc_repos demo_heap \<lparr>cdata = [4, 5, 6, 0, 0, 1, 2, 3], cblock = 0, ctotal = 8, cbeg = 5, cend = 3, cstate = 0\<rparr> = Some b'
     \<and> cyc_contents b' = [1, 2, 3, 4, 5, 6]"
proof -
  let ?b = "\<lparr>cdata = [4, 5, 6, 0, 0, 1, 2, 3], cblock = 0, ctotal = 8, cbeg = 5, cend = 3, cstate = 0\<rparr>"
  have "cyc_ok ?b" "alloc_ok demo_heap (int (ctotal ?b))" by (simp_all add: cyc_ok_def cyc_size_def demo_heap_def)
  from cyc_repos_contiguous [OF this] show ?thesis by (auto simp: cyc_contents_def)
qed

lemma cyc_locked_write:
  assumes "cyc_idle b" "heap_ok h" "cyc_fits h len b" "length bs \<le> len"
  shows "\<exists>p b1 b2 b3. cyc_wlock True h len b = Some (Some p, len, b1) \<and> cyc_contents b1 = cyc_contents b
        \<and> cyc_poke p bs b1 = Some b2 \<and> cyc_wunlock p (length bs) b2 = (True, b3)
        \<and> cyc_idle b3 \<and> cyc_contents b3 = cyc_contents b @ bs"
proof -
  have ok: "cyc_ok b" "\<not> cyc_any_locked b" using assms(1) by (auto simp: cyc_idle_def)
  obtain b1 where b1: "cyc_wlock True h len b = Some (Some (cblock b1, cend b1), len, b1)" "cyc_ok b1"
    "cyc_contents b1 = cyc_contents b" "cyc_wlocked b1" "\<not> cyc_rlocked b1" "len \<le> cyc_avail b1" "len \<le> ctotal b1 - cend b1"
    using cyc_wlock_spec [OF ok(1) assms(2) ok(2) assms(3)] by blast
  then show ?thesis
    using cyc_poke_wunlock [OF b1(2,4), of bs] assms(4) by (fastforce simp: cyc_idle_def cyc_any_locked_def)
qed

lemma cyc_locked_read:
  assumes "cyc_idle b" "alloc_ok h (int (ctotal b))" "n \<le> min len (cyc_size b)"
  shows "\<exists>p b1 b2. cyc_rlock True h len b = Some (Some p, min len (cyc_size b), b1)
        \<and> cyc_look p (min len (cyc_size b)) b1 = Some (take len (cyc_contents b))
        \<and> cyc_runlock p n b1 = (True, b2) \<and> cyc_idle b2 \<and> cyc_contents b2 = drop n (cyc_contents b)"
proof -
  have ok: "cyc_ok b" "\<not> cyc_any_locked b" using assms(1) by (auto simp: cyc_idle_def)
  obtain b1 where b1: "cyc_rlock True h len b = Some (Some (cblock b1, cbeg b1), min len (cyc_size b), b1)" "cyc_ok b1"
    "cyc_contents b1 = cyc_contents b" "cyc_rlocked b1" "\<not> cyc_wlocked b1"
    "cyc_look (cblock b1, cbeg b1) (min len (cyc_size b)) b1 = Some (take len (cyc_contents b))"
    "min len (cyc_size b) \<le> ctotal b1 - cbeg b1"
    using cyc_rlock_spec [OF ok assms(2)] by blast
  have "cyc_size b1 = cyc_size b" using cyc_okD(6) [OF ok(1)] cyc_okD(6) [OF b1(2)] b1(3) by simp
  then have "n \<le> cyc_size b1" "n \<le> ctotal b1 - cbeg b1" using assms(3) b1(7) by linarith+
  from cyc_runlock_spec [OF b1(2,4) this] show ?thesis
    using b1 by (fastforce simp: cyc_idle_def cyc_any_locked_def)
qed

text \<open>
  (C27) The locking interface moves the same bytes as the copying one: on an unlocked elastic
  buffer \<open>wlock(len)\<close> gives a pointer to \<open>len\<close> bytes inside the block, which the client may fill, and
  \<open>wunlock\<close> of the number of bytes filled appends them; \<open>rlock(len)\<close> gives a pointer to the next
  bytes of the contents, and \<open>runlock\<close> of any number of them removes so many. The locks are
  free again afterwards.
\<close>

theorem cyc_locked_transfer:
  assumes "cyc_idle b" "heap_ok h" "cyc_fits h len b" "length bs \<le> len"
    "alloc_ok h (int (ctotal b))" "n \<le> min len (cyc_size b)"
  shows "(\<exists>p b1 b2 b3. cyc_wlock True h len b = Some (Some p, len, b1) \<and> cyc_contents b1 = cyc_contents b
        \<and> cyc_poke p bs b1 = Some b2 \<and> cyc_wunlock p (length bs) b2 = (True, b3)
        \<and> cyc_idle b3 \<and> cyc_contents b3 = cyc_contents b @ bs)
    \<and> (\<exists>p b1 b2. cyc_rlock True h len b = Some (Some p, min len (cyc_size b), b1)
        \<and> cyc_look p (min len (cyc_size b)) b1 = Some (take len (cyc_contents b))
        \<and> cyc_runlock p n b1 = (True, b2) \<and> cyc_idle b2 \<and> cyc_contents b2 = drop n (cyc_contents b))"
  using cyc_locked_write [OF assms(1-4)] cyc_locked_read [OF assms(1,5,6)] by (rule conjI)

theorem cyc_locked_transfer_witness:
  "\<exists>p b1 b2 b3. cyc_wlock True demo_heap 3 \<lparr>cdata = [3, 0, 1, 2], cblock = 0, ctotal = 4, cbeg = 2, cend = 1, cstate = 0\<rparr> = Some (Some p, 3, b1)
     \<and> cyc_poke p [4, 5] b1 = Some b2 \<and> cyc_wunlock p 2 b2 = (True, b3) \<and> cyc_contents b3 = [1, 2, 3, 4, 5]"
proof -
  let ?b = "\<lparr>cdata = [3, 0, 1, 2], cblock = 0, ctotal = 4, cbeg = 2, cend = 1, cstate = 0\<rparr>"
  have i: "cyc_idle ?b" by (simp add: cyc_idle_def cyc_ok_def queue_eval)
  have f: "cyc_fits demo_heap 3 ?b" by (simp add: queue_eval demo_heap_def)
  have l: "length [4, 5 :: byte] \<le> 3" "alloc_ok demo_heap (int (ctotal ?b))" "3 \<le> min 3 (cyc_size ?b)"
    by (simp_all add: demo_heap_def cyc_size_def)
  have c: "cyc_contents ?b @ [4, 5] = [1, 2, 3, 4, 5]" by (simp add: cyc_contents_def)
  have n: "length [4, 5 :: byte] = 2" by simp
  from cyc_locked_transfer [OF i heap_ok_demo f l] show ?thesis unfolding c n by blast
qed

text \<open>
  (C28) Two calls of the cyclic buffer break it. A read that empties the buffer while its end
  pointer stands behind the last byte leaves a buffer that counts one byte more than it can hold,
  has an available space of \<open>2^64 - 1\<close> and returns the whole block again. A write under a read lock
  that does not fit is not refused although the buffer cannot grow: it reports all bytes as
  written, but the result is not a buffer with these bytes appended.
\<close>

theorem cyc_buf_faults:
  assumes "cyc_ok b"
  shows "(\<not> cyc_rlocked b \<and> cend b = ctotal b \<and> cyc_size b \<le> len \<longrightarrow>
      (\<exists>b'. cyc_read len b = Some (cyc_contents b, b') \<and> cyc_size b' = cyc_capacity b' + 1
        \<and> cyc_avail b' = 2 ^ 64 - 1 \<and> cyc_peek (ctotal b) b' = Some (cdata b)))
    \<and> (cyc_rlocked b \<and> \<not> cyc_wlocked b \<and> cyc_avail b < length bs \<longrightarrow>
      (\<forall>n b'. cyc_write h bs b = Some (n, b') \<longrightarrow>
         n = length bs \<and> \<not> (cyc_ok b' \<and> cyc_contents b' = cyc_contents b @ bs)))"
proof (intro conjI impI allI; (elim conjE)?)
  note ok = cyc_okD [OF assms]
  assume a: "\<not> cyc_rlocked b" "cend b = ctotal b" "cyc_size b \<le> len"
  have s: "cyc_size b = ctotal b - cbeg b" "0 < ctotal b" using a(2) ok(2,4) by (auto simp: cyc_size_def)
  let ?b' = "b\<lparr>cbeg := 0\<rparr>"
  have "cyc_read len b = Some (cyc_contents b, ?b')"
    using a cyc_peek_spec [OF assms a(1)] ok(2,6) s(1) by (auto simp: cyc_read_def Let_def)
  moreover have "cyc_size ?b' = ctotal b" "cyc_capacity ?b' = ctotal b - 1"
    using a(2) ok(5,7) by (simp_all add: cyc_size_def cyc_capacity_def)
  moreover from this have "cyc_avail ?b' = 2 ^ 64 - 1" using s(2) by (simp add: cyc_avail_def size_minus_def)
  moreover have "cyc_peek (ctotal b) ?b' = Some (cdata b)"
    using a ok(1) mem_load_Some [of 0 "ctotal b" "cdata b"] by (simp add: cyc_peek_def cyc_rlocked_def cyc_size_def)
  ultimately show "\<exists>b'. cyc_read len b = Some (cyc_contents b, b') \<and> cyc_size b' = cyc_capacity b' + 1
        \<and> cyc_avail b' = 2 ^ 64 - 1 \<and> cyc_peek (ctotal b) b' = Some (cdata b)"
    using s(2) by (intro exI [of _ ?b']) simp
next
  note ok = cyc_okD [OF assms]
  fix n b' assume a: "cyc_rlocked b" "\<not> cyc_wlocked b" "cyc_avail b < length bs" "cyc_write h bs b = Some (n, b')"
  have g: "cyc_grow h k b = Some b" for k using a(1) by (simp add: cyc_grow_def cyc_reserve_def cyc_any_locked_def Let_def)
  have n: "n = length bs \<and> ctotal b' = ctotal b"
    using a(2-4) by (auto simp: cyc_write_def g Let_def split: if_splits bind_splits)
  moreover have False if "cyc_ok b'" "cyc_contents b' = cyc_contents b @ bs"
    using cyc_okD(4,6) [OF that(1)] that(2) n a(3) ok(6,8) by simp
  ultimately show "n = length bs" "\<not> (cyc_ok b' \<and> cyc_contents b' = cyc_contents b @ bs)" by blast+
qed

text \<open>The state of the first fault is reached from a new buffer of three bytes in four calls.\<close>

theorem cyc_buf_faults_witness:
  "\<exists>outs b b'. cyc_buf_new demo_heap 3 = Some b
     \<and> queue_run (cyc_write demo_heap) cyc_read [Write [1, 2, 3], Read 3, Write [4], Read 1] b = Some (outs, b')
     \<and> cyc_size b' = 4 \<and> cyc_peek 4 b' = Some [1, 2, 3, 4]"
proof -
  let ?b = "\<lparr>cdata = [1, 2, 3, 4], cblock = 0, ctotal = 4, cbeg = 3, cend = 4, cstate = 0\<rparr>"
  have "cyc_ok ?b" by (simp add: cyc_ok_def queue_eval)
  from cyc_buf_faults [OF this, of 1] obtain b' where
    b': "cyc_read 1 ?b = Some ([4], b')" "cyc_size b' = cyc_capacity b' + 1" "cyc_peek 4 b' = Some [1, 2, 3, 4]"
    by (auto simp: cyc_rlocked_def BT_IS_SET_def cyc_size_def cyc_contents_def)
  have c: "cyc_capacity b' = 3" using b'(1) by (auto simp: queue_eval)
  have "cyc_buf_new demo_heap 3 = Some demo_cyc"
    by (simp add: cyc_buf_new_def queue_eval demo_heap_def demo_cyc_def upt_rec)
  moreover have "queue_run (cyc_write demo_heap) cyc_read [Write [1, 2, 3], Read 3, Write [4]] demo_cyc = Some ([[1, 2, 3]], ?b)"
    by (simp add: queue_eval demo_heap_def demo_cyc_def)
  ultimately show ?thesis using b' c by (simp add: queue_eval demo_cyc_def) 
qed

end
