(* ===== verification/Base64.thy ===== *)
theory Base64
  imports Prelude
begin

text \<open>
  \<^verbatim>\<open>public/basic/base64.cc\<close> and \<^verbatim>\<open>base64.h\<close>: two encoders and two decoders, one of each
  driven by tables. Both encoders are shown equal to the encoding of RFC 4648 written with
  numbers (\<open>b64_text\<close>), and both decoders are shown to read it.
\<close>

section \<open>Tables\<close>

text \<open>The tables of \<^verbatim>\<open>base64.h\<close>, those of little-endian machines for decoding.\<close>

definition e0 :: cstring where
  "e0 = str (''AAAABBBBCCCCDDDDEEEEFFFFGGGGHHHHIIIIJJJJKKKKLLLLMMMMNNNNOOOOPPPP'' @
     ''QQQQRRRRSSSSTTTTUUUUVVVVWWWWXXXXYYYYZZZZaaaabbbbccccddddeeeeffff'' @
     ''gggghhhhiiiijjjjkkkkllllmmmmnnnnooooppppqqqqrrrrssssttttuuuuvvvv'' @
     ''wwwwxxxxyyyyzzzz0000111122223333444455556666777788889999++++////'')"

definition e1 :: cstring where
  "e1 = str (''ABCDEFGHIJKLMNOPQRSTUVWXYZabcdefghijklmnopqrstuvwxyz0123456789+/'' @
     ''ABCDEFGHIJKLMNOPQRSTUVWXYZabcdefghijklmnopqrstuvwxyz0123456789+/'' @
     ''ABCDEFGHIJKLMNOPQRSTUVWXYZabcdefghijklmnopqrstuvwxyz0123456789+/'' @
     ''ABCDEFGHIJKLMNOPQRSTUVWXYZabcdefghijklmnopqrstuvwxyz0123456789+/'')"

definition e2 :: cstring where
  "e2 = str (''ABCDEFGHIJKLMNOPQRSTUVWXYZabcdefghijklmnopqrstuvwxyz0123456789+/'' @
     ''ABCDEFGHIJKLMNOPQRSTUVWXYZabcdefghijklmnopqrstuvwxyz0123456789+/'' @
     ''ABCDEFGHIJKLMNOPQRSTUVWXYZabcdefghijklmnopqrstuvwxyz0123456789+/'' @
     ''ABCDEFGHIJKLMNOPQRSTUVWXYZabcdefghijklmnopqrstuvwxyz0123456789+/'')"

definition d0 :: "u32 list" where
  "d0 = [
    0x1ffffff, 0x1ffffff, 0x1ffffff, 0x1ffffff, 0x1ffffff, 0x1ffffff, 0x1ffffff, 0x1ffffff,
    0x1ffffff, 0x1ffffff, 0x1ffffff, 0x1ffffff, 0x1ffffff, 0x1ffffff, 0x1ffffff, 0x1ffffff,
    0x1ffffff, 0x1ffffff, 0x1ffffff, 0x1ffffff, 0x1ffffff, 0x1ffffff, 0x1ffffff, 0x1ffffff,
    0x1ffffff, 0x1ffffff, 0x1ffffff, 0x1ffffff, 0x1ffffff, 0x1ffffff, 0x1ffffff, 0x1ffffff,
    0x1ffffff, 0x1ffffff, 0x1ffffff, 0x1ffffff, 0x1ffffff, 0x1ffffff, 0x1ffffff, 0x1ffffff,
    0x1ffffff, 0x1ffffff, 0x1ffffff, 0xf8, 0x1ffffff, 0x1ffffff, 0x1ffffff, 0xfc,
    0xd0, 0xd4, 0xd8, 0xdc, 0xe0, 0xe4, 0xe8, 0xec,
    0xf0, 0xf4, 0x1ffffff, 0x1ffffff, 0x1ffffff, 0x1ffffff, 0x1ffffff, 0x1ffffff,
    0x1ffffff, 0, 0x4, 0x8, 0xc, 0x10, 0x14, 0x18,
    0x1c, 0x20, 0x24, 0x28, 0x2c, 0x30, 0x34, 0x38,
    0x3c, 0x40, 0x44, 0x48, 0x4c, 0x50, 0x54, 0x58,
    0x5c, 0x60, 0x64, 0x1ffffff, 0x1ffffff, 0x1ffffff, 0x1ffffff, 0x1ffffff,
    0x1ffffff, 0x68, 0x6c, 0x70, 0x74, 0x78, 0x7c, 0x80,
    0x84, 0x88, 0x8c, 0x90, 0x94, 0x98, 0x9c, 0xa0,
    0xa4, 0xa8, 0xac, 0xb0, 0xb4, 0xb8, 0xbc, 0xc0,
    0xc4, 0xc8, 0xcc, 0x1ffffff, 0x1ffffff, 0x1ffffff, 0x1ffffff, 0x1ffffff,
    0x1ffffff, 0x1ffffff, 0x1ffffff, 0x1ffffff, 0x1ffffff, 0x1ffffff, 0x1ffffff, 0x1ffffff,
    0x1ffffff, 0x1ffffff, 0x1ffffff, 0x1ffffff, 0x1ffffff, 0x1ffffff, 0x1ffffff, 0x1ffffff,
    0x1ffffff, 0x1ffffff, 0x1ffffff, 0x1ffffff, 0x1ffffff, 0x1ffffff, 0x1ffffff, 0x1ffffff,
    0x1ffffff, 0x1ffffff, 0x1ffffff, 0x1ffffff, 0x1ffffff, 0x1ffffff, 0x1ffffff, 0x1ffffff,
    0x1ffffff, 0x1ffffff, 0x1ffffff, 0x1ffffff, 0x1ffffff, 0x1ffffff, 0x1ffffff, 0x1ffffff,
    0x1ffffff, 0x1ffffff, 0x1ffffff, 0x1ffffff, 0x1ffffff, 0x1ffffff, 0x1ffffff, 0x1ffffff,
    0x1ffffff, 0x1ffffff, 0x1ffffff, 0x1ffffff, 0x1ffffff, 0x1ffffff, 0x1ffffff, 0x1ffffff,
    0x1ffffff, 0x1ffffff, 0x1ffffff, 0x1ffffff, 0x1ffffff, 0x1ffffff, 0x1ffffff, 0x1ffffff,
    0x1ffffff, 0x1ffffff, 0x1ffffff, 0x1ffffff, 0x1ffffff, 0x1ffffff, 0x1ffffff, 0x1ffffff,
    0x1ffffff, 0x1ffffff, 0x1ffffff, 0x1ffffff, 0x1ffffff, 0x1ffffff, 0x1ffffff, 0x1ffffff,
    0x1ffffff, 0x1ffffff, 0x1ffffff, 0x1ffffff, 0x1ffffff, 0x1ffffff, 0x1ffffff, 0x1ffffff,
    0x1ffffff, 0x1ffffff, 0x1ffffff, 0x1ffffff, 0x1ffffff, 0x1ffffff, 0x1ffffff, 0x1ffffff,
    0x1ffffff, 0x1ffffff, 0x1ffffff, 0x1ffffff, 0x1ffffff, 0x1ffffff, 0x1ffffff, 0x1ffffff,
    0x1ffffff, 0x1ffffff, 0x1ffffff, 0x1ffffff, 0x1ffffff, 0x1ffffff, 0x1ffffff, 0x1ffffff,
    0x1ffffff, 0x1ffffff, 0x1ffffff, 0x1ffffff, 0x1ffffff, 0x1ffffff, 0x1ffffff, 0x1ffffff,
    0x1ffffff, 0x1ffffff, 0x1ffffff, 0x1ffffff, 0x1ffffff, 0x1ffffff, 0x1ffffff, 0x1ffffff]"

definition d1 :: "u32 list" where
  "d1 = [
    0x1ffffff, 0x1ffffff, 0x1ffffff, 0x1ffffff, 0x1ffffff, 0x1ffffff, 0x1ffffff, 0x1ffffff,
    0x1ffffff, 0x1ffffff, 0x1ffffff, 0x1ffffff, 0x1ffffff, 0x1ffffff, 0x1ffffff, 0x1ffffff,
    0x1ffffff, 0x1ffffff, 0x1ffffff, 0x1ffffff, 0x1ffffff, 0x1ffffff, 0x1ffffff, 0x1ffffff,
    0x1ffffff, 0x1ffffff, 0x1ffffff, 0x1ffffff, 0x1ffffff, 0x1ffffff, 0x1ffffff, 0x1ffffff,
    0x1ffffff, 0x1ffffff, 0x1ffffff, 0x1ffffff, 0x1ffffff, 0x1ffffff, 0x1ffffff, 0x1ffffff,
    0x1ffffff, 0x1ffffff, 0x1ffffff, 0xe003, 0x1ffffff, 0x1ffffff, 0x1ffffff, 0xf003,
    0x4003, 0x5003, 0x6003, 0x7003, 0x8003, 0x9003, 0xa003, 0xb003,
    0xc003, 0xd003, 0x1ffffff, 0x1ffffff, 0x1ffffff, 0x1ffffff, 0x1ffffff, 0x1ffffff,
    0x1ffffff, 0, 0x1000, 0x2000, 0x3000, 0x4000, 0x5000, 0x6000,
    0x7000, 0x8000, 0x9000, 0xa000, 0xb000, 0xc000, 0xd000, 0xe000,
    0xf000, 0x1, 0x1001, 0x2001, 0x3001, 0x4001, 0x5001, 0x6001,
    0x7001, 0x8001, 0x9001, 0x1ffffff, 0x1ffffff, 0x1ffffff, 0x1ffffff, 0x1ffffff,
    0x1ffffff, 0xa001, 0xb001, 0xc001, 0xd001, 0xe001, 0xf001, 0x2,
    0x1002, 0x2002, 0x3002, 0x4002, 0x5002, 0x6002, 0x7002, 0x8002,
    0x9002, 0xa002, 0xb002, 0xc002, 0xd002, 0xe002, 0xf002, 0x3,
    0x1003, 0x2003, 0x3003, 0x1ffffff, 0x1ffffff, 0x1ffffff, 0x1ffffff, 0x1ffffff,
    0x1ffffff, 0x1ffffff, 0x1ffffff, 0x1ffffff, 0x1ffffff, 0x1ffffff, 0x1ffffff, 0x1ffffff,
    0x1ffffff, 0x1ffffff, 0x1ffffff, 0x1ffffff, 0x1ffffff, 0x1ffffff, 0x1ffffff, 0x1ffffff,
    0x1ffffff, 0x1ffffff, 0x1ffffff, 0x1ffffff, 0x1ffffff, 0x1ffffff, 0x1ffffff, 0x1ffffff,
    0x1ffffff, 0x1ffffff, 0x1ffffff, 0x1ffffff, 0x1ffffff, 0x1ffffff, 0x1ffffff, 0x1ffffff,
    0x1ffffff, 0x1ffffff, 0x1ffffff, 0x1ffffff, 0x1ffffff, 0x1ffffff, 0x1ffffff, 0x1ffffff,
    0x1ffffff, 0x1ffffff, 0x1ffffff, 0x1ffffff, 0x1ffffff, 0x1ffffff, 0x1ffffff, 0x1ffffff,
    0x1ffffff, 0x1ffffff, 0x1ffffff, 0x1ffffff, 0x1ffffff, 0x1ffffff, 0x1ffffff, 0x1ffffff,
    0x1ffffff, 0x1ffffff, 0x1ffffff, 0x1ffffff, 0x1ffffff, 0x1ffffff, 0x1ffffff, 0x1ffffff,
    0x1ffffff, 0x1ffffff, 0x1ffffff, 0x1ffffff, 0x1ffffff, 0x1ffffff, 0x1ffffff, 0x1ffffff,
    0x1ffffff, 0x1ffffff, 0x1ffffff, 0x1ffffff, 0x1ffffff, 0x1ffffff, 0x1ffffff, 0x1ffffff,
    0x1ffffff, 0x1ffffff, 0x1ffffff, 0x1ffffff, 0x1ffffff, 0x1ffffff, 0x1ffffff, 0x1ffffff,
    0x1ffffff, 0x1ffffff, 0x1ffffff, 0x1ffffff, 0x1ffffff, 0x1ffffff, 0x1ffffff, 0x1ffffff,
    0x1ffffff, 0x1ffffff, 0x1ffffff, 0x1ffffff, 0x1ffffff, 0x1ffffff, 0x1ffffff, 0x1ffffff,
    0x1ffffff, 0x1ffffff, 0x1ffffff, 0x1ffffff, 0x1ffffff, 0x1ffffff, 0x1ffffff, 0x1ffffff,
    0x1ffffff, 0x1ffffff, 0x1ffffff, 0x1ffffff, 0x1ffffff, 0x1ffffff, 0x1ffffff, 0x1ffffff,
    0x1ffffff, 0x1ffffff, 0x1ffffff, 0x1ffffff, 0x1ffffff, 0x1ffffff, 0x1ffffff, 0x1ffffff]"

definition d2 :: "u32 list" where
  "d2 = [
    0x1ffffff, 0x1ffffff, 0x1ffffff, 0x1ffffff, 0x1ffffff, 0x1ffffff, 0x1ffffff, 0x1ffffff,
    0x1ffffff, 0x1ffffff, 0x1ffffff, 0x1ffffff, 0x1ffffff, 0x1ffffff, 0x1ffffff, 0x1ffffff,
    0x1ffffff, 0x1ffffff, 0x1ffffff, 0x1ffffff, 0x1ffffff, 0x1ffffff, 0x1ffffff, 0x1ffffff,
    0x1ffffff, 0x1ffffff, 0x1ffffff, 0x1ffffff, 0x1ffffff, 0x1ffffff, 0x1ffffff, 0x1ffffff,
    0x1ffffff, 0x1ffffff, 0x1ffffff, 0x1ffffff, 0x1ffffff, 0x1ffffff, 0x1ffffff, 0x1ffffff,
    0x1ffffff, 0x1ffffff, 0x1ffffff, 0x800f00, 0x1ffffff, 0x1ffffff, 0x1ffffff, 0xc00f00,
    0xd00, 0x400d00, 0x800d00, 0xc00d00, 0xe00, 0x400e00, 0x800e00, 0xc00e00,
    0xf00, 0x400f00, 0x1ffffff, 0x1ffffff, 0x1ffffff, 0x1ffffff, 0x1ffffff, 0x1ffffff,
    0x1ffffff, 0, 0x400000, 0x800000, 0xc00000, 0x100, 0x400100, 0x800100,
    0xc00100, 0x200, 0x400200, 0x800200, 0xc00200, 0x300, 0x400300, 0x800300,
    0xc00300, 0x400, 0x400400, 0x800400, 0xc00400, 0x500, 0x400500, 0x800500,
    0xc00500, 0x600, 0x400600, 0x1ffffff, 0x1ffffff, 0x1ffffff, 0x1ffffff, 0x1ffffff,
    0x1ffffff, 0x800600, 0xc00600, 0x700, 0x400700, 0x800700, 0xc00700, 0x800,
    0x400800, 0x800800, 0xc00800, 0x900, 0x400900, 0x800900, 0xc00900, 0xa00,
    0x400a00, 0x800a00, 0xc00a00, 0xb00, 0x400b00, 0x800b00, 0xc00b00, 0xc00,
    0x400c00, 0x800c00, 0xc00c00, 0x1ffffff, 0x1ffffff, 0x1ffffff, 0x1ffffff, 0x1ffffff,
    0x1ffffff, 0x1ffffff, 0x1ffffff, 0x1ffffff, 0x1ffffff, 0x1ffffff, 0x1ffffff, 0x1ffffff,
    0x1ffffff, 0x1ffffff, 0x1ffffff, 0x1ffffff, 0x1ffffff, 0x1ffffff, 0x1ffffff, 0x1ffffff,
    0x1ffffff, 0x1ffffff, 0x1ffffff, 0x1ffffff, 0x1ffffff, 0x1ffffff, 0x1ffffff, 0x1ffffff,
    0x1ffffff, 0x1ffffff, 0x1ffffff, 0x1ffffff, 0x1ffffff, 0x1ffffff, 0x1ffffff, 0x1ffffff,
    0x1ffffff, 0x1ffffff, 0x1ffffff, 0x1ffffff, 0x1ffffff, 0x1ffffff, 0x1ffffff, 0x1ffffff,
    0x1ffffff, 0x1ffffff, 0x1ffffff, 0x1ffffff, 0x1ffffff, 0x1ffffff, 0x1ffffff, 0x1ffffff,
    0x1ffffff, 0x1ffffff, 0x1ffffff, 0x1ffffff, 0x1ffffff, 0x1ffffff, 0x1ffffff, 0x1ffffff,
    0x1ffffff, 0x1ffffff, 0x1ffffff, 0x1ffffff, 0x1ffffff, 0x1ffffff, 0x1ffffff, 0x1ffffff,
    0x1ffffff, 0x1ffffff, 0x1ffffff, 0x1ffffff, 0x1ffffff, 0x1ffffff, 0x1ffffff, 0x1ffffff,
    0x1ffffff, 0x1ffffff, 0x1ffffff, 0x1ffffff, 0x1ffffff, 0x1ffffff, 0x1ffffff, 0x1ffffff,
    0x1ffffff, 0x1ffffff, 0x1ffffff, 0x1ffffff, 0x1ffffff, 0x1ffffff, 0x1ffffff, 0x1ffffff,
    0x1ffffff, 0x1ffffff, 0x1ffffff, 0x1ffffff, 0x1ffffff, 0x1ffffff, 0x1ffffff, 0x1ffffff,
    0x1ffffff, 0x1ffffff, 0x1ffffff, 0x1ffffff, 0x1ffffff, 0x1ffffff, 0x1ffffff, 0x1ffffff,
    0x1ffffff, 0x1ffffff, 0x1ffffff, 0x1ffffff, 0x1ffffff, 0x1ffffff, 0x1ffffff, 0x1ffffff,
    0x1ffffff, 0x1ffffff, 0x1ffffff, 0x1ffffff, 0x1ffffff, 0x1ffffff, 0x1ffffff, 0x1ffffff,
    0x1ffffff, 0x1ffffff, 0x1ffffff, 0x1ffffff, 0x1ffffff, 0x1ffffff, 0x1ffffff, 0x1ffffff]"

definition d3 :: "u32 list" where
  "d3 = [
    0x1ffffff, 0x1ffffff, 0x1ffffff, 0x1ffffff, 0x1ffffff, 0x1ffffff, 0x1ffffff, 0x1ffffff,
    0x1ffffff, 0x1ffffff, 0x1ffffff, 0x1ffffff, 0x1ffffff, 0x1ffffff, 0x1ffffff, 0x1ffffff,
    0x1ffffff, 0x1ffffff, 0x1ffffff, 0x1ffffff, 0x1ffffff, 0x1ffffff, 0x1ffffff, 0x1ffffff,
    0x1ffffff, 0x1ffffff, 0x1ffffff, 0x1ffffff, 0x1ffffff, 0x1ffffff, 0x1ffffff, 0x1ffffff,
    0x1ffffff, 0x1ffffff, 0x1ffffff, 0x1ffffff, 0x1ffffff, 0x1ffffff, 0x1ffffff, 0x1ffffff,
    0x1ffffff, 0x1ffffff, 0x1ffffff, 0x3e0000, 0x1ffffff, 0x1ffffff, 0x1ffffff, 0x3f0000,
    0x340000, 0x350000, 0x360000, 0x370000, 0x380000, 0x390000, 0x3a0000, 0x3b0000,
    0x3c0000, 0x3d0000, 0x1ffffff, 0x1ffffff, 0x1ffffff, 0x1ffffff, 0x1ffffff, 0x1ffffff,
    0x1ffffff, 0, 0x10000, 0x20000, 0x30000, 0x40000, 0x50000, 0x60000,
    0x70000, 0x80000, 0x90000, 0xa0000, 0xb0000, 0xc0000, 0xd0000, 0xe0000,
    0xf0000, 0x100000, 0x110000, 0x120000, 0x130000, 0x140000, 0x150000, 0x160000,
    0x170000, 0x180000, 0x190000, 0x1ffffff, 0x1ffffff, 0x1ffffff, 0x1ffffff, 0x1ffffff,
    0x1ffffff, 0x1a0000, 0x1b0000, 0x1c0000, 0x1d0000, 0x1e0000, 0x1f0000, 0x200000,
    0x210000, 0x220000, 0x230000, 0x240000, 0x250000, 0x260000, 0x270000, 0x280000,
    0x290000, 0x2a0000, 0x2b0000, 0x2c0000, 0x2d0000, 0x2e0000, 0x2f0000, 0x300000,
    0x310000, 0x320000, 0x330000, 0x1ffffff, 0x1ffffff, 0x1ffffff, 0x1ffffff, 0x1ffffff,
    0x1ffffff, 0x1ffffff, 0x1ffffff, 0x1ffffff, 0x1ffffff, 0x1ffffff, 0x1ffffff, 0x1ffffff,
    0x1ffffff, 0x1ffffff, 0x1ffffff, 0x1ffffff, 0x1ffffff, 0x1ffffff, 0x1ffffff, 0x1ffffff,
    0x1ffffff, 0x1ffffff, 0x1ffffff, 0x1ffffff, 0x1ffffff, 0x1ffffff, 0x1ffffff, 0x1ffffff,
    0x1ffffff, 0x1ffffff, 0x1ffffff, 0x1ffffff, 0x1ffffff, 0x1ffffff, 0x1ffffff, 0x1ffffff,
    0x1ffffff, 0x1ffffff, 0x1ffffff, 0x1ffffff, 0x1ffffff, 0x1ffffff, 0x1ffffff, 0x1ffffff,
    0x1ffffff, 0x1ffffff, 0x1ffffff, 0x1ffffff, 0x1ffffff, 0x1ffffff, 0x1ffffff, 0x1ffffff,
    0x1ffffff, 0x1ffffff, 0x1ffffff, 0x1ffffff, 0x1ffffff, 0x1ffffff, 0x1ffffff, 0x1ffffff,
    0x1ffffff, 0x1ffffff, 0x1ffffff, 0x1ffffff, 0x1ffffff, 0x1ffffff, 0x1ffffff, 0x1ffffff,
    0x1ffffff, 0x1ffffff, 0x1ffffff, 0x1ffffff, 0x1ffffff, 0x1ffffff, 0x1ffffff, 0x1ffffff,
    0x1ffffff, 0x1ffffff, 0x1ffffff, 0x1ffffff, 0x1ffffff, 0x1ffffff, 0x1ffffff, 0x1ffffff,
    0x1ffffff, 0x1ffffff, 0x1ffffff, 0x1ffffff, 0x1ffffff, 0x1ffffff, 0x1ffffff, 0x1ffffff,
    0x1ffffff, 0x1ffffff, 0x1ffffff, 0x1ffffff, 0x1ffffff, 0x1ffffff, 0x1ffffff, 0x1ffffff,
    0x1ffffff, 0x1ffffff, 0x1ffffff, 0x1ffffff, 0x1ffffff, 0x1ffffff, 0x1ffffff, 0x1ffffff,
    0x1ffffff, 0x1ffffff, 0x1ffffff, 0x1ffffff, 0x1ffffff, 0x1ffffff, 0x1ffffff, 0x1ffffff,
    0x1ffffff, 0x1ffffff, 0x1ffffff, 0x1ffffff, 0x1ffffff, 0x1ffffff, 0x1ffffff, 0x1ffffff,
    0x1ffffff, 0x1ffffff, 0x1ffffff, 0x1ffffff, 0x1ffffff, 0x1ffffff, 0x1ffffff, 0x1ffffff]"

definition BADCHAR :: u32 where
  "BADCHAR = 0x01FFFFFF"

abbreviation CHARPAD :: byte where
  "CHARPAD \<equiv> bc CHR ''=''"

definition base64_chars :: cstring where
  "base64_chars = str (''ABCDEFGHIJKLMNOPQRSTUVWXYZ'' @ ''abcdefghijklmnopqrstuvwxyz'' @ ''0123456789+/'')"

section \<open>Encoders\<close>

definition modp_b64_encode_len :: "nat \<Rightarrow> nat" where
  "modp_b64_encode_len A = (A + 2) div 3 * 4 + 1"

text \<open>The loop over full groups, and the switch over what is left of the input.\<close>

fun modp_encode_groups :: "cstring \<Rightarrow> cstring \<times> cstring" where
  "modp_encode_groups (t1 # t2 # t3 # s) =
     (case modp_encode_groups s of (p, rest) \<Rightarrow>
        ([e0 ! unat t1,
          e1 ! unat (push_bit 4 (t1 AND 0x03) OR (drop_bit 4 t2 AND 0x0F)),
          e1 ! unat (push_bit 2 (t2 AND 0x0F) OR (drop_bit 6 t3 AND 0x03)),
          e2 ! unat t3] @ p, rest))"
| "modp_encode_groups s = ([], s)"

definition modp_encode_rest :: "cstring \<Rightarrow> cstring" where
  "modp_encode_rest s =
     (case s of
        [] \<Rightarrow> []
      | [t1] \<Rightarrow> [e0 ! unat t1, e1 ! unat (push_bit 4 (t1 AND 0x03)), CHARPAD, CHARPAD]
      | t1 # t2 # _ \<Rightarrow>
          [e0 ! unat t1,
           e1 ! unat (push_bit 4 (t1 AND 0x03) OR (drop_bit 4 t2 AND 0x0F)),
           e2 ! unat (push_bit 2 (t2 AND 0x0F)), CHARPAD])"

text \<open>What is written to \<open>dest\<close>, the terminating NUL included, and the returned count.\<close>

definition modp_b64_encode :: "cstring \<Rightarrow> cstring \<times> nat" where
  "modp_b64_encode s =
     (case modp_encode_groups s of (p, rest) \<Rightarrow>
        let out = p @ modp_encode_rest rest in (out @ [0], length out))"

text \<open>
  The size is cast to \<open>int\<close> first. \<open>None\<close> is the undefined case of a negative size, which
  the callee takes for a huge one.
\<close>

definition Base64Encode :: "cstring \<Rightarrow> cstring \<Rightarrow> (bool \<times> cstring) option" where
  "Base64Encode input output =
     (let input_size = sint (word_of_nat (length input) :: u32) in
      if input_size < 0 then None
      else case modp_b64_encode (take (nat input_size) input) of (dest, output_size) \<Rightarrow>
        if output_size = 2 ^ 64 - 1 then Some (False, output)
        else Some (True, take output_size dest))"

text \<open>
  \<open>base64_encode\<close> collects the bytes in \<open>char_array_3\<close>, of which the list holds the first
  \<open>i\<close> entries, the only ones that are read.
\<close>

definition enc_group :: "byte list \<Rightarrow> byte list" where
  "enc_group a =
     [drop_bit 2 (a ! 0 AND 0xfc),
      push_bit 4 (a ! 0 AND 0x03) + drop_bit 4 (a ! 1 AND 0xf0),
      push_bit 2 (a ! 1 AND 0x0f) + drop_bit 6 (a ! 2 AND 0xc0),
      a ! 2 AND 0x3f]"

definition enc_chars :: "byte list \<Rightarrow> cstring" where
  "enc_chars a = map (\<lambda>k. base64_chars ! unat k) a"

fun base64_encode_loop :: "byte list \<Rightarrow> byte list \<Rightarrow> cstring \<Rightarrow> byte list \<times> cstring" where
  "base64_encode_loop [] char_array_3 ret = (char_array_3, ret)"
| "base64_encode_loop (c # bytes) char_array_3 ret =
     (let char_array_3 = char_array_3 @ [c] in
      if length char_array_3 = 3
      then base64_encode_loop bytes [] (ret @ enc_chars (enc_group char_array_3))
      else base64_encode_loop bytes char_array_3 ret)"

definition base64_encode :: "byte list \<Rightarrow> u32 \<Rightarrow> cstring" where
  "base64_encode bytes_to_encode in_len =
     (case base64_encode_loop (take (unat in_len) bytes_to_encode) [] [] of (char_array_3, ret) \<Rightarrow>
        let i = length char_array_3 in
        if i \<noteq> 0 then
          ret @ enc_chars (take (i + 1) (enc_group (char_array_3 @ replicate (3 - i) 0))) @
          replicate (3 - i) CHARPAD
        else ret)"

section \<open>Decoders\<close>

definition isalnum :: "byte \<Rightarrow> bool" where
  "isalnum c \<longleftrightarrow> (bc CHR ''0'' \<le> c \<and> c \<le> bc CHR ''9'') \<or> (bc CHR ''A'' \<le> c \<and> c \<le> bc CHR ''Z'') \<or>
     (bc CHR ''a'' \<le> c \<and> c \<le> bc CHR ''z'')"

definition is_base64 :: "byte \<Rightarrow> bool" where
  "is_base64 c \<longleftrightarrow> isalnum c \<or> c = bc CHR ''+'' \<or> c = bc CHR ''/''"

text \<open>\<open>base64_chars.find(c)\<close> stored in an \<open>unsigned char\<close>: \<open>npos\<close> becomes 255.\<close>

definition base64_find :: "byte \<Rightarrow> byte" where
  "base64_find c =
     (if c \<in> set base64_chars then word_of_nat (length (takeWhile (\<lambda>d. d \<noteq> c) base64_chars)) else 255)"

definition dec_group :: "byte list \<Rightarrow> byte list" where
  "dec_group a =
     [push_bit 2 (a ! 0) + drop_bit 4 (a ! 1 AND 0x30),
      push_bit 4 (a ! 1 AND 0xf) + drop_bit 2 (a ! 2 AND 0x3c),
      push_bit 6 (a ! 2 AND 0x3) + a ! 3]"

fun base64_decode_loop :: "cstring \<Rightarrow> byte list \<Rightarrow> cstring \<Rightarrow> byte list \<times> cstring" where
  "base64_decode_loop [] char_array_4 ret = (char_array_4, ret)"
| "base64_decode_loop (c # s) char_array_4 ret =
     (if c \<noteq> CHARPAD \<and> is_base64 c then
        (let char_array_4 = char_array_4 @ [c] in
         if length char_array_4 = 4
         then base64_decode_loop s [] (ret @ dec_group (map base64_find char_array_4))
         else base64_decode_loop s char_array_4 ret)
      else (char_array_4, ret))"

text \<open>
  The count is an \<open>int\<close>; a negative one does not end the loop before the NUL after the
  string does.
\<close>

definition base64_decode :: "cstring \<Rightarrow> cstring" where
  "base64_decode encoded_string =
     (let in_len = sint (word_of_nat (length encoded_string) :: u32);
          input = (if in_len < 0 then encoded_string else take (nat in_len) encoded_string)
      in case base64_decode_loop input [] [] of (char_array_4, ret) \<Rightarrow>
        let i = length char_array_4 in
        if i \<noteq> 0 then ret @ take (i - 1) (dec_group (map base64_find (char_array_4 @ replicate (4 - i) 0)))
        else ret)"

definition Base64Decode :: "cstring \<Rightarrow> bool \<times> cstring" where
  "Base64Decode input = (True, base64_decode input)"

text \<open>
  \<open>modp_b64_decode\<close>, compiled without \<open>DOPAD\<close>: four characters are loaded as one word. A
  load past the end uses only the bytes before it (those after it read as zero here). The
  fourth byte of each store is overwritten by the next one. \<open>None\<close> is \<open>MODP_B64_ERROR\<close>.
\<close>

definition load32 :: "cstring \<Rightarrow> u32" where
  "load32 p = ucast (peek p) OR push_bit 8 (ucast (peek (drop 1 p))) OR
     push_bit 16 (ucast (peek (drop 2 p))) OR push_bit 24 (ucast (peek (drop 3 p)))"

definition modp_group :: "u32 \<Rightarrow> u32" where
  "modp_group y = d0 ! unat (y AND 0xff) OR d1 ! unat (drop_bit 8 y AND 0xff) OR
     d2 ! unat (drop_bit 16 y AND 0xff) OR d3 ! unat (drop_bit 24 y AND 0xff)"

definition store_bytes :: "u32 \<Rightarrow> byte list" where
  "store_bytes x = [ucast x, ucast (drop_bit 8 x), ucast (drop_bit 16 x)]"

fun modp_decode_chunks :: "nat \<Rightarrow> cstring \<Rightarrow> cstring \<Rightarrow> (cstring \<times> cstring) option" where
  "modp_decode_chunks 0 src dest = Some (src, dest)"
| "modp_decode_chunks (Suc chunks) src dest =
     (let x = modp_group (load32 src) in
      if x \<ge> BADCHAR then None else modp_decode_chunks chunks (drop 4 src) (dest @ store_bytes x))"

definition modp_b64_decode :: "cstring \<Rightarrow> cstring option" where
  "modp_b64_decode src =
     (if src = [] then Some []
      else
        let leftover = length src mod 4;
            chunks = (if leftover = 0 then length src div 4 - 1 else length src div 4)
        in case modp_decode_chunks chunks src [] of
             None \<Rightarrow> None
           | Some (src, dest) \<Rightarrow>
               let y = load32 src in
               if leftover = 0 then
                 (let x = modp_group y in if x \<ge> BADCHAR then None else Some (dest @ store_bytes x))
               else if leftover = 1 then
                 (let x = d0 ! unat (y AND 0xff) in if x \<ge> BADCHAR then None else Some dest)
               else if leftover = 2 then
                 (let x = d0 ! unat (y AND 0xff) OR d1 ! unat (drop_bit 8 y AND 0xff)
                  in if x \<ge> BADCHAR then None else Some (dest @ take 1 (store_bytes x)))
               else
                 (let x = d0 ! unat (y AND 0xff) OR d1 ! unat (drop_bit 8 y AND 0xff) OR
                        d2 ! unat (drop_bit 16 y AND 0xff)
                  in if x \<ge> BADCHAR then None else Some (dest @ take 2 (store_bytes x))))"

section \<open>Tables and groups\<close>

text \<open>The character of a sextet, and the reference encoding of RFC 4648 in numbers.\<close>

definition b64 :: "nat \<Rightarrow> byte" where
  "b64 k = base64_chars ! k"

fun b64_text :: "byte list \<Rightarrow> cstring" where
  "b64_text [] = []"
| "b64_text [x] =
     (let a = unat x in [b64 (a div 4), b64 (a mod 4 * 16), CHARPAD, CHARPAD])"
| "b64_text [x, y] =
     (let a = unat x; b = unat y in
      [b64 (a div 4), b64 (a mod 4 * 16 + b div 16), b64 (b mod 16 * 4), CHARPAD])"
| "b64_text (x # y # z # s) =
     (let a = unat x; b = unat y; c = unat z in
      [b64 (a div 4), b64 (a mod 4 * 16 + b div 16), b64 (b mod 16 * 4 + c div 64), b64 (c mod 64)]) @
     b64_text s"

lemma base64_chars_list [code]: "base64_chars =
  [65, 66, 67, 68, 69, 70, 71, 72, 73, 74, 75, 76, 77, 78, 79, 80, 81, 82, 83, 84, 85, 86,
   87, 88, 89, 90, 97, 98, 99, 100, 101, 102, 103, 104, 105, 106, 107, 108, 109, 110, 111,
   112, 113, 114, 115, 116, 117, 118, 119, 120, 121, 122, 48, 49, 50, 51, 52, 53, 54, 55, 56,
   57, 43, 47]"
  by code_simp

lemma table_lists:
  "e0 = map (\<lambda>k. b64 (k div 4)) [0..<256]" "e1 = map (\<lambda>k. b64 (k mod 64)) [0..<256]"
  "e2 = map (\<lambda>k. b64 (k mod 64)) [0..<256]"
  by code_simp+

lemma table_e0: "e0 ! unat c = b64 (unat (c :: byte) div 4)"
  using unat_byte_bound [of c] by (simp add: table_lists)

lemma table_small: "k < 64 \<Longrightarrow> e1 ! k = b64 k" "k < 64 \<Longrightarrow> e2 ! k = b64 k"
  by (simp_all add: table_lists)

lemma table_e12: "e1 ! unat c = b64 (unat (c :: byte) mod 64)" "e2 ! unat c = b64 (unat c mod 64)"
  using unat_byte_bound [of c] by (simp_all add: table_lists)

lemma byte_div: "unat (c :: byte) div 16 < 16" "unat c div 64 < 4" "unat c div 4 < 64"
  using unat_byte_bound [of c] by simp_all

lemma unat_and_masks:
  "unat (w AND 0x03) = unat w mod 4" "unat (w AND 0x0F) = unat w mod 16" "unat (w AND 0x3f) = unat w mod 64"
  "unat (w AND 0xff) = unat w mod 256" for w :: "'a::len word"
  using unat_and_mask [of w 2] unat_and_mask [of w 4] unat_and_mask [of w 6] unat_and_mask [of w 8]
  by (simp_all add: mask_eq_exp_minus_1)

lemma byte_parts:
  fixes c :: byte
  shows "unat (push_bit 4 (c AND 0x03)) = unat c mod 4 * 16"
    and "unat (push_bit 2 (c AND 0x0F)) = unat c mod 16 * 4"
    and "unat (drop_bit 4 c AND 0x0F) = unat c div 16"
    and "unat (drop_bit 6 c AND 0x03) = unat c div 64"
    and "unat (drop_bit 2 (c AND 0xfc)) = unat c div 4"
    and "unat (drop_bit 4 (c AND 0xf0)) = unat c div 16"
    and "unat (drop_bit 6 (c AND 0xc0)) = unat c div 64"
    and "unat (c AND 0x3f) = unat c mod 64"
proof -
  have m: "unat c mod 4 \<le> 3" "unat c mod 16 \<le> 15" by simp_all
  note small = unat_byte_bound [of c] byte_div [of c]
  show "unat (push_bit 4 (c AND 0x03)) = unat c mod 4 * 16" "unat (push_bit 2 (c AND 0x0F)) = unat c mod 16 * 4"
    by (subst unat_push_bit_mult; use m in \<open>simp add: unat_and_masks\<close>)+
  show "unat (drop_bit 4 c AND 0x0F) = unat c div 16" "unat (drop_bit 6 c AND 0x03) = unat c div 64"
    "unat (drop_bit 2 (c AND 0xfc)) = unat c div 4" "unat (drop_bit 4 (c AND 0xf0)) = unat c div 16"
    "unat (drop_bit 6 (c AND 0xc0)) = unat c div 64" "unat (c AND 0x3f) = unat c mod 64"
    using small by (simp_all add: unat_and_masks unat_drop_bit_div drop_bit_and)
qed

lemma byte_joins:
  fixes c d :: byte
  shows "unat (push_bit 4 (c AND 0x03) OR (drop_bit 4 d AND 0x0F)) = unat c mod 4 * 16 + unat d div 16"
    and "unat (push_bit 2 (c AND 0x0F) OR (drop_bit 6 d AND 0x03)) = unat c mod 16 * 4 + unat d div 64"
    and "unat (push_bit 4 (c AND 0x03) + drop_bit 4 (d AND 0xf0)) = unat c mod 4 * 16 + unat d div 16"
    and "unat (push_bit 2 (c AND 0x0F) + drop_bit 6 (d AND 0xc0)) = unat c mod 16 * 4 + unat d div 64"
proof -
  note u = byte_div [of d] unat_or_add' [of 4 "push_bit 4 (c AND 0x03)"] unat_or_add' [of 2 "push_bit 2 (c AND 0x0F)"]
  show "unat (push_bit 4 (c AND 0x03) OR (drop_bit 4 d AND 0x0F)) = unat c mod 4 * 16 + unat d div 16"
    "unat (push_bit 2 (c AND 0x0F) OR (drop_bit 6 d AND 0x03)) = unat c mod 16 * 4 + unat d div 64"
    using u by (simp_all add: byte_parts del: push_bit_and drop_bit_and)
  have "unat c mod 4 \<le> 3" "unat c mod 16 \<le> 15" by simp_all
  then have "unat c mod 4 * 16 + unat d div 16 < 256" "unat c mod 16 * 4 + unat d div 64 < 256"
    using byte_div [of d] by linarith+
  then show "unat (push_bit 4 (c AND 0x03) + drop_bit 4 (d AND 0xf0)) = unat c mod 4 * 16 + unat d div 16"
    "unat (push_bit 2 (c AND 0x0F) + drop_bit 6 (d AND 0xc0)) = unat c mod 16 * 4 + unat d div 64"
    by (simp_all add: unat_word_ariths byte_parts del: push_bit_and drop_bit_and)
qed

lemma sextet_small:
  "a mod 4 * 16 + unat (c :: byte) div 16 < 64" "a mod 16 * 4 + unat c div 64 < 64"
  "a mod 4 * 16 < 64" "a mod 16 * 4 < 64"
proof -
  have "a mod 4 \<le> 3" "a mod 16 \<le> 15" by simp_all
  then show "a mod 4 * 16 + unat (c :: byte) div 16 < 64" "a mod 16 * 4 + unat c div 64 < 64"
    "a mod 4 * 16 < 64" "a mod 16 * 4 < 64"
    using byte_div [of c] by linarith+
qed

section \<open>Both encoders are the reference\<close>

lemma modp_b64_encode_text: "modp_b64_encode s = (b64_text s @ [0], length (b64_text s))"
proof -
  have "(case modp_encode_groups s of (p, rest) \<Rightarrow> p @ modp_encode_rest rest) = b64_text s"
    by (induction s rule: b64_text.induct)
      (simp_all add: modp_encode_rest_def Let_def table_e0 table_small table_e12 byte_joins byte_parts sextet_small
        del: push_bit_and drop_bit_and split: prod.splits)
  then show ?thesis
    by (auto simp: modp_b64_encode_def Let_def simp flip: length_append split: prod.splits)
qed

lemma enc_chars_group:
  "enc_chars (enc_group [x, y, z]) =
     [b64 (unat x div 4), b64 (unat x mod 4 * 16 + unat y div 16), b64 (unat y mod 16 * 4 + unat z div 64), b64 (unat z mod 64)]"
  by (simp add: enc_chars_def enc_group_def b64_def byte_parts byte_joins del: push_bit_and drop_bit_and)

lemma enc_chars_rest:
  "enc_chars (take (Suc (Suc 0)) (enc_group [x, 0, 0])) @ [CHARPAD, CHARPAD] = b64_text [x]"
  "enc_chars (take (Suc (Suc (Suc 0))) (enc_group [x, y, 0])) @ [CHARPAD] = b64_text [x, y]"
  using enc_chars_group [of x 0 0] enc_chars_group [of x y 0]
  by (simp_all add: enc_chars_def enc_group_def Let_def del: push_bit_and drop_bit_and)

lemma base64_encode_text:
  assumes "unat n = length s"
  shows "base64_encode s n = b64_text s"
proof -
  define fin where "fin = (\<lambda>(a, ret). if length a \<noteq> 0 then
          ret @ enc_chars (take (length a + 1) (enc_group (a @ replicate (3 - length a) 0))) @
          replicate (3 - length a) CHARPAD
        else ret)"
  have fin: "fin ([], ret) = ret" "fin ([x], ret) = ret @ b64_text [x]" "fin ([x, y], ret) = ret @ b64_text [x, y]" for x y ret
    using enc_chars_rest [of x] by (simp_all add: fin_def numeral_2_eq_2)
  have "fin (base64_encode_loop s [] ret) = ret @ b64_text s" for ret
    by (induction s arbitrary: ret rule: b64_text.induct)
      (simp_all add: Let_def fin enc_chars_group del: b64_text.simps(2,3))
  from this [of "[]"] assms show ?thesis
    by (simp add: base64_encode_def Let_def fin_def)
qed

lemma length_b64_text: "length (b64_text s) = (length s + 2) div 3 * 4"
  by (induction s rule: b64_text.induct) (simp_all add: Let_def, presburger)

section \<open>Decoding the reference\<close>

lemma takeWhile_nth_distinct:
  "distinct xs \<Longrightarrow> k < length xs \<Longrightarrow> takeWhile (\<lambda>x. x \<noteq> xs ! k) xs = take k xs"
proof (induction xs arbitrary: k)
  case (Cons x xs)
  then show ?case by (cases k) auto
qed simp

lemma table_find:
  assumes "k < 64"
  shows "base64_find (b64 k) = word_of_nat k" "is_base64 (b64 k)" "b64 k \<noteq> CHARPAD"
proof -
  have l: "k < length base64_chars" using assms by (simp add: base64_chars_list)
  have "distinct base64_chars" by (simp add: base64_chars_list)
  from takeWhile_nth_distinct [OF this l] l show "base64_find (b64 k) = word_of_nat k"
    by (simp add: base64_find_def b64_def)
  have "list_all (\<lambda>c. is_base64 c \<and> c \<noteq> CHARPAD) base64_chars" by code_simp
  with l show "is_base64 (b64 k)" "b64 k \<noteq> CHARPAD"
    by (simp_all add: list_all_length b64_def)
qed

text \<open>A sextet in a byte.\<close>

abbreviation sx :: "nat \<Rightarrow> byte" where
  "sx k \<equiv> word_of_nat k"

lemma unat_sx: "k < 64 \<Longrightarrow> unat (sx k) = k"
  by (simp add: unat_of_nat take_bit_nat_eq_self)

lemma dec_group_unat:
  assumes "p < 64" "q < 64" "r < 64" "t < 64"
  shows "map unat (dec_group [sx p, sx q, sx r, sx t]) =
    [p * 4 + q div 16, q mod 16 * 16 + r div 4, r mod 4 * 64 + t]"
proof -
  have m: "q mod 16 \<le> 15" "r mod 4 \<le> 3" "q div 16 \<le> 3" "r div 4 \<le> 15" using assms by auto
  have a: "unat (push_bit 2 (sx p)) = p * 4" "unat (push_bit 4 (sx q AND 0xf)) = q mod 16 * 16"
    "unat (push_bit 6 (sx r AND 0x3)) = r mod 4 * 64"
    by (subst unat_push_bit_mult; use m assms in \<open>simp add: unat_and_masks unat_sx\<close>)+
  have b: "unat (drop_bit 4 (sx q AND 0x30)) = q div 16" "unat (drop_bit 2 (sx r AND 0x3c)) = r div 4"
    using m assms by (simp_all add: unat_and_masks unat_drop_bit_div drop_bit_and unat_sx)
  show ?thesis
    using m assms
    by (simp add: dec_group_def unat_word_ariths a b unat_sx del: push_bit_and drop_bit_and)
qed

lemma dec_group_bytes:
  assumes "p < 64" "q < 64" "r < 64" "t < 64"
    and "unat x = p * 4 + q div 16" "unat y = q mod 16 * 16 + r div 4" "unat z = r mod 4 * 64 + t"
  shows "dec_group [sx p, sx q, sx r, sx t] = [x, y, z]"
  using dec_group_unat [OF assms(1-4)] assms(5-7) by (intro bytes_eqI) simp

lemma sextet_join:
  fixes a b c :: nat
  assumes "a < 256" "b < 256" "c < 256"
  shows "a div 4 * 4 + (a mod 4 * 16 + b div 16) div 16 = a"
    and "(a mod 4 * 16 + b div 16) mod 16 * 16 + (b mod 16 * 4 + c div 64) div 4 = b"
    and "(b mod 16 * 4 + c div 64) mod 4 * 64 + c mod 64 = c"
proof -
  have "b div 16 < 16" "c div 64 < 4" using assms by simp_all
  then show "a div 4 * 4 + (a mod 4 * 16 + b div 16) div 16 = a"
    "(a mod 4 * 16 + b div 16) mod 16 * 16 + (b mod 16 * 4 + c div 64) div 4 = b"
    "(b mod 16 * 4 + c div 64) mod 4 * 64 + c mod 64 = c"
    by simp_all
qed

lemma dec_group_sextets:
  "dec_group [sx (unat x div 4), sx (unat x mod 4 * 16 + unat y div 16),
     sx (unat y mod 16 * 4 + unat z div 64), sx (unat z mod 64)] = [x, y, z]"
  using sextet_join [OF unat_byte_bound [of x] unat_byte_bound [of y] unat_byte_bound [of z]]
  by (intro dec_group_bytes) (simp_all add: sextet_small byte_div)

text \<open>The last group: what stands in the entries for the padding does not matter.\<close>

lemma dec_group_rest:
  "take 1 (dec_group [sx (unat x div 4), sx (unat x mod 4 * 16), v, w]) = [x]"
  "take 2 (dec_group [sx (unat x div 4), sx (unat x mod 4 * 16 + unat y div 16), sx (unat y mod 16 * 4), w]) = [x, y]"
  using dec_group_sextets [of x 0 0] dec_group_sextets [of x y 0]
  by (simp_all add: dec_group_def del: push_bit_and drop_bit_and)

lemma b64_pad: "k < 64 \<Longrightarrow> b64 k \<noteq> 61"
  using table_find(3) [of k] by simp

lemma sint_of_nat_u32: "n < 2 ^ 31 \<Longrightarrow> sint (word_of_nat n :: u32) = int n"
  by (simp add: signed_of_nat signed_take_bit_int_eq_self)

lemma base64_decode_text:
  assumes "length (b64_text s) < 2 ^ 31"
  shows "base64_decode (b64_text s) = s"
proof -
  define fin where "fin = (\<lambda>(a, ret). if length a \<noteq> 0 then
      ret @ take (length a - 1) (dec_group (map base64_find (a @ replicate (4 - length a) 0))) else ret)"
  have fin: "fin ([], ret) = ret" "fin ([b64 (unat x div 4), b64 (unat x mod 4 * 16)], ret) = ret @ [x]"
    "fin ([b64 (unat x div 4), b64 (unat x mod 4 * 16 + unat y div 16), b64 (unat y mod 16 * 4)], ret) = ret @ [x, y]"
    for x y ret
    using dec_group_rest [of x] by (simp_all add: fin_def table_find sextet_small byte_div numeral_2_eq_2
        del: of_nat_add of_nat_mult)
  have "fin (base64_decode_loop (b64_text s) [] ret) = ret @ s" for ret
    by (induction s arbitrary: ret rule: b64_text.induct)
      (simp_all add: Let_def fin table_find b64_pad sextet_small byte_div dec_group_sextets del: of_nat_add of_nat_mult)
  then show ?thesis
    using assms by (simp add: base64_decode_def Let_def fin_def sint_of_nat_u32)
qed

section \<open>The table-driven decoder\<close>

text \<open>What the four tables contribute for a sextet.\<close>

definition w0 :: "byte \<Rightarrow> u32" where "w0 k = push_bit 2 (ucast k)"
definition w1 :: "byte \<Rightarrow> u32" where "w1 k = drop_bit 4 (ucast k) OR push_bit 12 (ucast k AND 15)"
definition w2 :: "byte \<Rightarrow> u32" where "w2 k = push_bit 8 (drop_bit 2 (ucast k)) OR push_bit 22 (ucast k AND 3)"
definition w3 :: "byte \<Rightarrow> u32" where "w3 k = push_bit 16 (ucast k)"

lemma tables_d:
  assumes "k < 64"
  shows "d0 ! unat (b64 k) = w0 (sx k)" "d1 ! unat (b64 k) = w1 (sx k)" "d2 ! unat (b64 k) = w2 (sx k)"
    "d3 ! unat (b64 k) = w3 (sx k)"
proof -
  have "list_all (\<lambda>k. d0 ! unat (b64 k) = w0 (sx k)) [0..<64]" "list_all (\<lambda>k. d1 ! unat (b64 k) = w1 (sx k)) [0..<64]"
    "list_all (\<lambda>k. d2 ! unat (b64 k) = w2 (sx k)) [0..<64]" "list_all (\<lambda>k. d3 ! unat (b64 k) = w3 (sx k)) [0..<64]"
    by code_simp+
  with assms show "d0 ! unat (b64 k) = w0 (sx k)" "d1 ! unat (b64 k) = w1 (sx k)" "d2 ! unat (b64 k) = w2 (sx k)"
    "d3 ! unat (b64 k) = w3 (sx k)" by (simp_all add: list_all_iff)
qed

lemma tables_pad: "d2 ! unat CHARPAD = BADCHAR" "d3 ! unat CHARPAD = BADCHAR"
  by code_simp+

lemma bit_byte_ucast: "bit (ucast (b :: byte) :: u32) n \<longleftrightarrow> bit b n"
  by (auto simp: bit_simps dest: bit_imp_le_length)

lemma byte_bit_high: "8 \<le> n \<Longrightarrow> \<not> bit (b :: byte) n"
  using bit_imp_le_length [of b n] by auto

lemma load32_bytes:
  "ucast (load32 p) = peek p" "ucast (drop_bit 8 (load32 p)) = peek (drop 1 p)"
  "ucast (drop_bit 16 (load32 p)) = peek (drop 2 p)" "ucast (drop_bit 24 (load32 p)) = peek (drop 3 p)"
  by (rule bit_word_eqI; auto simp: load32_def bit_simps bit_byte_ucast byte_bit_high)+

lemma unat_and_ff: "unat (w AND 0xff) = unat (ucast w :: byte)" for w :: u32
  by (simp add: unat_and_masks unat_ucast_mod)

lemma bit_sextet: 
  assumes "k < 64" "6 \<le> n"
  shows "\<not> bit (sx k) n"
proof -
  have "take_bit 6 (sx k) = sx k" using assms(1) by (simp add: take_bit_of_nat take_bit_nat_eq_self)
  then show ?thesis using assms(2) by (metis bit_take_bit_iff not_less)
qed

definition sextet :: "byte \<Rightarrow> bool" where
  "sextet b \<longleftrightarrow> \<not> bit b 6 \<and> \<not> bit b 7"

lemma store_group:
  assumes "sextet p" "sextet q" "sextet r" "sextet t"
  shows "store_bytes (w0 p OR w1 q OR w2 r OR w3 t) = dec_group [p, q, r, t]"
proof -
  note s = assms [unfolded sextet_def]
  have "push_bit 2 p AND drop_bit 4 (q AND 0x30) = 0" "push_bit 4 (q AND 0xf) AND drop_bit 2 (r AND 0x3c) = 0"
    "push_bit 6 (r AND 0x3) AND t = 0"
    by (rule byte_bitI; use s in \<open>simp add: bit_simps\<close>)+
  note d = this [THEN disjunctive_add_eq_or]
  have e: "dec_group [p, q, r, t] =
     [push_bit 2 p OR drop_bit 4 (q AND 0x30), push_bit 4 (q AND 0xf) OR drop_bit 2 (r AND 0x3c), push_bit 6 (r AND 0x3) OR t]"
    by (simp add: dec_group_def d del: push_bit_and drop_bit_and)
  show ?thesis
    unfolding e store_bytes_def w0_def w1_def w2_def w3_def list.inject
    by (intro conjI refl byte_bitI; use s in \<open>simp add: bit_simps bit_byte_ucast byte_bit_high\<close>)
qed

lemma sextet_sx: "k < 64 \<Longrightarrow> sextet (sx k)"
  using bit_sextet [of k 6] bit_sextet [of k 7] by (simp add: sextet_def)

definition low24 :: "u32 \<Rightarrow> bool" where
  "low24 x \<longleftrightarrow> take_bit 24 x = x"

lemma low24_or: "low24 x \<Longrightarrow> low24 y \<Longrightarrow> low24 (x OR y)"
  by (simp add: low24_def take_bit_or)

lemma low24_unat: "unat x < 2 ^ 24 \<Longrightarrow> low24 x"
  by (rule unat_inject [of "take_bit 24 x" x, folded low24_def]) (simp add: unsigned_take_bit_eq take_bit_nat_eq_self)

lemma low24_less: "low24 x \<Longrightarrow> x < BADCHAR"
proof -
  assume "low24 x"
  then have "unat x < 2 ^ 24" unfolding low24_def by (metis take_bit_nat_less_exp unsigned_take_bit_eq)
  then show ?thesis by (simp add: BADCHAR_def word_less_nat_alt)
qed

lemma group_good: "w0 p OR w1 q OR w2 r OR w3 t < BADCHAR"
proof -
  have u: "unat (ucast b :: u32) = unat b" for b :: byte
    using unat_byte_bound [of b] by (simp add: unat_ucast_mod)
  note b = unat_byte_bound [of p] unat_byte_bound [of q] unat_byte_bound [of r] unat_byte_bound [of t]
  have "unat q mod 16 \<le> 15" "unat r mod 4 \<le> 3" by simp_all
  then have "low24 (push_bit 2 (ucast p))" "low24 (drop_bit 4 (ucast q))" "low24 (push_bit 12 (ucast q AND 15))"
    "low24 (push_bit 8 (drop_bit 2 (ucast r)))" "low24 (push_bit 22 (ucast r AND 3))" "low24 (push_bit 16 (ucast t))"
    by (intro low24_unat; use b in \<open>simp add: unat_push_bit_mult unat_drop_bit_div unat_and_masks u
        del: push_bit_and drop_bit_and\<close>)+
  then show ?thesis
    unfolding w0_def w1_def w2_def w3_def by (intro low24_less low24_or)
qed

lemma w_zero: "w1 0 = 0" "w2 0 = 0" "w3 0 = 0" and sextet_0: "sextet 0"
  by (simp_all add: w1_def w2_def w3_def sextet_def)

lemma word_le_or: "x \<le> x OR y" "y \<le> x OR y" for x y :: "'a::len word"
proof -
  have "uint x \<le> uint x OR uint y" "uint y \<le> uint y OR uint x"
    by (rule or_greater_eq; simp)+
  then show "x \<le> x OR y" "y \<le> x OR y"
    by (simp_all add: word_le_def unsigned_or_eq or.commute)
qed

lemma modp_group_load: "modp_group (load32 (a # b # c # d # p)) = d0 ! unat a OR d1 ! unat b OR d2 ! unat c OR d3 ! unat d"
  using load32_bytes [of "a # b # c # d # p"] by (simp add: modp_group_def unat_and_ff)

lemma not_third: "Suc 0 \<noteq> 3 * m" "Suc (Suc 0) \<noteq> 3 * m"
  by presburger+

lemma b64_text_append: "length s = 3 * m \<Longrightarrow> b64_text (s @ t) = b64_text s @ b64_text t"
proof (induction s arbitrary: m rule: b64_text.induct)
  case (4 x y z s)
  from 4(2) obtain k where "length s = 3 * k" by (cases m) auto
  with 4(1) show ?case by simp
qed (simp_all add: not_third)

lemmas group_facts = tables_d table_find sextet_small byte_div sextet_sx store_group dec_group_sextets group_good

lemma modp_decode_chunks_text:
  "length s = 3 * m \<Longrightarrow> modp_decode_chunks m (b64_text s @ rest) dest = Some (rest, dest @ s)"
proof (induction s arbitrary: m dest rule: b64_text.induct)
  case (4 x y z s)
  from 4(2) obtain k where k: "m = Suc k" "length s = 3 * k" by (cases m) auto
  with 4(1) [of k "dest @ [x, y, z]"] show ?case
    by (simp add: Let_def modp_group_load group_facts not_le del: of_nat_add of_nat_mult)
qed (simp_all add: not_third)

lemma modp_load:
  "d0 ! unat (load32 (a # p) AND 0xff) = d0 ! unat a"
  "d1 ! unat (drop_bit 8 (load32 (a # b # p)) AND 0xff) = d1 ! unat b"
  "d2 ! unat (drop_bit 16 (load32 (a # b # c # p)) AND 0xff) = d2 ! unat c"
  using load32_bytes(1) [of "a # p"] load32_bytes(2) [of "a # b # p"] load32_bytes(3) [of "a # b # c # p"]
  by (simp_all add: unat_and_ff)

lemma modp_tail:
  "take 1 (store_bytes (w0 (sx (unat x div 4)) OR w1 (sx (unat x mod 4 * 16)))) = [x]"
  "take 2 (store_bytes (w0 (sx (unat x div 4)) OR w1 (sx (unat x mod 4 * 16 + unat y div 16)) OR w2 (sx (unat y mod 16 * 4)))) = [x, y]"
  "w0 p OR w1 q < BADCHAR" "w0 p OR w1 q OR w2 r < BADCHAR"
proof -
  show "take 1 (store_bytes (w0 (sx (unat x div 4)) OR w1 (sx (unat x mod 4 * 16)))) = [x]"
    using store_group [of "sx (unat x div 4)" "sx (unat x mod 4 * 16)" 0 0] dec_group_rest(1) [of x 0 0]
    by (simp add: w_zero sextet_0 sextet_sx sextet_small byte_div del: of_nat_mult)
  show "take 2 (store_bytes (w0 (sx (unat x div 4)) OR w1 (sx (unat x mod 4 * 16 + unat y div 16)) OR w2 (sx (unat y mod 16 * 4)))) = [x, y]"
    using store_group [of "sx (unat x div 4)" "sx (unat x mod 4 * 16 + unat y div 16)" "sx (unat y mod 16 * 4)" 0]
      dec_group_rest(2) [of x y 0]
    by (simp add: w_zero sextet_0 sextet_sx sextet_small byte_div del: of_nat_mult of_nat_add)
  show "w0 p OR w1 q < BADCHAR" "w0 p OR w1 q OR w2 r < BADCHAR"
    using group_good [of p q 0 0] group_good [of p q r 0] by (simp_all add: w_zero)
qed

text \<open>Every text is a number of full groups and a last one, of one to three bytes.\<close>

lemma last_group:
  assumes "s \<noteq> []"
  obtains m s1 s2 where "s = s1 @ s2" "length s1 = 3 * m" "s2 \<noteq> []" "length s2 \<le> 3"
proof -
  define m where "m = (length s - 1) div 3"
  have "3 * m < length s" "length s \<le> 3 * m + 3"
    using assms by (cases s; simp add: m_def; presburger)+
  then show ?thesis
    by (intro that [of "take (3 * m) s" "drop (3 * m) s" m]) simp_all
qed

lemma last_arith:
  "Suc (Suc (4 * m)) mod 4 = 2" "Suc (Suc (4 * m)) div 4 = m"
  "Suc (Suc (Suc (4 * m))) mod 4 = 3" "Suc (Suc (Suc (4 * m))) div 4 = m"
  by presburger+

lemma modp_b64_decode_bare:
  "modp_b64_decode (take ((4 * length s + 2) div 3) (b64_text s)) = Some s"
proof (cases "s = []")
  case True
  then show ?thesis by (simp add: modp_b64_decode_def)
next
  case False
  then obtain m s1 s2 where s: "s = s1 @ s2" "length s1 = 3 * m" and s2: "s2 \<noteq> []" "length s2 \<le> 3"
    by (rule last_group)
  have l1: "length (b64_text s1) = 4 * m" using s(2) by (simp add: length_b64_text)
  note t = b64_text_append [OF s(2), of s2] modp_decode_chunks_text [OF s(2)]
  from s2 consider x where "s2 = [x]" | x y where "s2 = [x, y]" | x y z where "s2 = [x, y, z]"
    by (cases s2 rule: b64_text.cases) auto
  then show ?thesis
  proof cases
    case 1
    have "(4 * length s + 2) div 3 = 4 * m + 2" using s 1 by simp
    with s t l1 1 modp_tail show ?thesis
      by (simp add: modp_b64_decode_def Let_def last_arith modp_load group_facts not_le del: of_nat_mult)
  next
    case 2
    have "(4 * length s + 2) div 3 = 4 * m + 3" using s 2 by simp
    with s t l1 2 modp_tail show ?thesis
      by (simp add: modp_b64_decode_def Let_def last_arith modp_load group_facts not_le del: of_nat_mult of_nat_add)
  next
    case 3
    have "(4 * length s + 2) div 3 = 4 * m + 4" using s 3 by simp
    with s t l1 3 show ?thesis
      by (simp add: modp_b64_decode_def Let_def modp_group_load group_facts not_le del: of_nat_mult of_nat_add)
  qed
qed

lemma pad_refused: "BADCHAR \<le> y \<Longrightarrow> BADCHAR \<le> x OR y"
  by (rule order_trans [OF _ word_le_or(2)])

lemma modp_b64_decode_padded:
  assumes "length s mod 3 \<noteq> 0"
  shows "modp_b64_decode (b64_text s) = None"
proof -
  from assms have "s \<noteq> []" by auto
  then obtain m s1 s2 where s: "s = s1 @ s2" "length s1 = 3 * m" and s2: "s2 \<noteq> []" "length s2 \<le> 3"
    by (rule last_group)
  have l1: "length (b64_text s1) = 4 * m" using s(2) by (simp add: length_b64_text)
  note t = b64_text_append [OF s(2), of s2] modp_decode_chunks_text [OF s(2)]
  have "length s2 \<noteq> 3" using assms s by auto
  with s2 consider x where "s2 = [x]" | x y where "s2 = [x, y]"
    by (cases s2 rule: b64_text.cases) auto
  then show ?thesis
    using s t l1 tables_pad
    by cases (simp_all add: modp_b64_decode_def Let_def modp_group_load pad_refused)
qed

section \<open>Properties\<close>

lemma base64_decode_encode:
  "length s < 1610612733 \<Longrightarrow> base64_decode (base64_encode s (word_of_nat (length s))) = s"
  by (simp add: base64_encode_text base64_decode_text length_b64_text unat_of_nat take_bit_nat_eq_self)

interpretation base64: codec "\<lambda>s. base64_encode s (word_of_nat (length s))" "\<lambda>t. Some (base64_decode t)"
  "\<lambda>s. length s < 1610612733"
  by unfold_locales (simp add: base64_decode_encode)

text \<open>
  (C12) \<open>Base64Encode\<close> and \<open>Base64Decode\<close>, which use one routine of each pair, are inverse on
  every string whose text has a size that fits \<open>int\<close>, and so are \<open>base64_encode\<close> and
  \<open>base64_decode\<close>. The two encoders agree, different as they are written.
\<close>
theorem base64_roundtrip:
  assumes "length s < 1610612733"
  shows "\<exists>t. Base64Encode s out = Some (True, t) \<and> Base64Decode t = (True, s) \<and>
    t = base64_encode s (word_of_nat (length s)) \<and>
    (\<forall>u. length u < 1610612733 \<and> base64_encode u (word_of_nat (length u)) = t \<longrightarrow> u = s)"
proof -
  have l: "length (b64_text s) < 2 ^ 31" using assms by (simp add: length_b64_text)
  have t: "base64_encode s (word_of_nat (length s)) = b64_text s"
    using assms by (simp add: base64_encode_text unat_of_nat take_bit_nat_eq_self)
  have "Base64Encode s out = Some (True, b64_text s)"
    using assms l by (simp add: Base64Encode_def modp_b64_encode_text sint_of_nat_u32)
  moreover have "Base64Decode (b64_text s) = (True, s)"
    by (simp add: Base64Decode_def base64_decode_text [OF l])
  moreover have "u = s" if "length u < 1610612733" "base64_encode u (word_of_nat (length u)) = b64_text s" for u
    using base64.enc_inj [OF that(1) assms] that(2) t by simp
  ultimately show ?thesis using t by (intro exI [of _ "b64_text s"]) simp
qed

theorem base64_roundtrip_witness:
  "let s = str ''Hello''; t = base64_encode s 5 in
   t = str ''SGVsbG8='' \<and> Base64Encode s [] = Some (True, t) \<and> Base64Decode t = (True, s)"
proof -
  have "base64_encode (str ''Hello'') 5 = str ''SGVsbG8=''" by code_simp
  then show ?thesis using base64_roundtrip [of "str ''Hello''" "[]"] by (auto simp: Let_def)
qed

text \<open>
  The buffer that \<open>Base64Encode\<close> reserves, \<open>modp_b64_encode_len\<close> of the size, is exactly
  filled by \<open>modp_b64_encode\<close> with its terminating NUL, and the count that is returned is
  the number of characters before it: four for every three bytes or part of three.
\<close>
theorem modp_b64_encode_bounds:
  "length (fst (modp_b64_encode s)) = modp_b64_encode_len (length s) \<and>
   snd (modp_b64_encode s) = 4 * ((length s + 2) div 3) \<and>
   last (fst (modp_b64_encode s)) = 0"
  by (simp add: modp_b64_encode_text modp_b64_encode_len_def length_b64_text)


end
