(* ===== verification/Text_Util.thy ===== *)
theory Text_Util
  imports Numbers Base64 Memory "HOL-Library.Monad_Syntax"
begin

text \<open>
  The text functions of \<^verbatim>\<open>public/basic/basic_util.cc\<close> that the services use on requests: the URL
  encoding and decoding, splitting at separators, the wrappers of Base64 and the text of
  numbers in Chinese. \<open>char\<close> is signed, which the comparisons show.
\<close>

section \<open>URL encoding\<close>

definition toHex :: "byte \<Rightarrow> byte" where
  "toHex x = (if 9 <s x then x - 10 + bc CHR ''A'' else x + bc CHR ''0'')"

text \<open>The bytes that \<open>sprintf\<close> of \<open>%02X\<close> writes.\<close>

definition hex_digit_upper :: "nat \<Rightarrow> byte" where
  "hex_digit_upper n = str ''0123456789ABCDEF'' ! n"

definition fmt_02X :: "byte \<Rightarrow> cstring" where
  "fmt_02X c = [hex_digit_upper (unat c div 16), hex_digit_upper (unat c mod 16)]"

definition url_plain :: "byte \<Rightarrow> bool" where
  "url_plain ch \<longleftrightarrow>
     bc CHR ''A'' \<le>s ch \<and> ch \<le>s bc CHR ''Z'' \<or> bc CHR ''a'' \<le>s ch \<and> ch \<le>s bc CHR ''z''
     \<or> bc CHR ''0'' \<le>s ch \<and> ch \<le>s bc CHR ''9''
     \<or> ch = bc CHR ''.'' \<or> ch = bc CHR ''-'' \<or> ch = bc CHR ''_'' \<or> ch = bc CHR ''*''"

text \<open>
  The loop over the characters that are left: \<open>None\<close> is a store outside of the block, \<open>Some None\<close> the
  return of false.
\<close>

fun UrlEncode_loop :: "nat \<Rightarrow> cstring \<Rightarrow> nat \<Rightarrow> byte list \<Rightarrow> (nat \<times> byte list) option option" where
  "UrlEncode_loop resultSize [] j result = Some (Some (j, result))"
| "UrlEncode_loop resultSize (ch # cs) j result =
     (if \<not> j < resultSize then Some (Some (j, result))
      else if url_plain ch then
        Option.bind (mem_store (int j) [ch] result) (UrlEncode_loop resultSize cs (j + 1))
      else if ch = bc CHR '' '' then
        Option.bind (mem_store (int j) [bc CHR ''+''] result) (UrlEncode_loop resultSize cs (j + 1))
      else if j + 3 < resultSize then
        Option.bind (mem_store (int j) (bc CHR ''%'' # fmt_02X ch @ [0]) result) (UrlEncode_loop resultSize cs (j + 3))
      else Some None)"

text \<open>
  The multi-character constant \<open>'/0'\<close> is stored as the character \<open>0\<close>. A product outside of
  \<open>int\<close> is undefined.
\<close>

definition UrlEncode_finish :: "(nat \<times> byte list) option \<Rightarrow> cstring option option" where
  "UrlEncode_finish r = (case r of None \<Rightarrow> Some None
     | Some (j, result) \<Rightarrow> map_option (\<lambda>result. Some (take j result)) (mem_store (int j) [bc CHR ''0''] result))"

definition UrlEncode :: "heap \<Rightarrow> cstring \<Rightarrow> cstring option option" where
  "UrlEncode h content = do {
     let strSize = i32 (int (length content));
     let resultSize = strSize * 3;
     if resultSize < - (2 ^ 31) \<or> 2 ^ 31 \<le> resultSize then None
     else if \<not> alloc_ok h resultSize \<or> strSize \<le> 0 \<or> resultSize \<le> 0 then Some None
     else Option.bind (UrlEncode_loop (nat resultSize) (take (nat strSize) content) 0 (map (junk h) [0..<nat resultSize]))
       UrlEncode_finish }"

section \<open>URL decoding\<close>

definition isxdigit :: "byte \<Rightarrow> bool" where
  "isxdigit c \<longleftrightarrow> bc CHR ''0'' \<le> c \<and> c \<le> bc CHR ''9'' \<or> bc CHR ''A'' \<le> c \<and> c \<le> bc CHR ''F'' \<or> bc CHR ''a'' \<le> c \<and> c \<le> bc CHR ''f''"

definition hex_char_value :: "byte \<Rightarrow> int" where
  "hex_char_value b =
     (let c = uint b; c = (if 65 \<le> c \<and> c \<le> 90 then c + 32 else c) in
      if 48 \<le> c \<and> c \<le> 57 then c - 48 else c - 97 + 10)"

definition php_htoi :: "byte \<Rightarrow> byte \<Rightarrow> int" where
  "php_htoi s0 s1 = hex_char_value s0 * 16 + hex_char_value s1"

text \<open>The test for an escape reads the following characters only as far as it needs them.\<close>

definition url_escape :: "nat \<Rightarrow> nat \<Rightarrow> byte list \<Rightarrow> (byte option) option" where
  "url_escape len data mem =
     (if len < 2 then Some None
      else Option.bind (mem_load (int data + 1) 1 mem) (\<lambda>a.
        if \<not> isxdigit (hd a) then Some None
        else Option.bind (mem_load (int data + 2) 1 mem) (\<lambda>b.
          Some (if isxdigit (hd b) then Some (word_of_int (php_htoi (hd a) (hd b))) else None))))"

function UrlDecode_loop :: "nat \<Rightarrow> nat \<Rightarrow> nat \<Rightarrow> byte list \<Rightarrow> (nat \<times> byte list) option" where
  "UrlDecode_loop in_str_len data dest mem =
     (if in_str_len = 0 then Some (dest, mem)
      else
        let len = in_str_len - 1 in
        Option.bind (mem_load (int data) 1 mem) (\<lambda>c.
        if hd c = bc CHR ''+'' then
          Option.bind (mem_store (int dest) [bc CHR '' ''] mem) (\<lambda>mem. UrlDecode_loop len (data + 1) (dest + 1) mem)
        else Option.bind (if hd c = bc CHR ''%'' then url_escape len data mem else Some None) (\<lambda>e. case e of
            Some x \<Rightarrow> Option.bind (mem_store (int dest) [x] mem) (\<lambda>mem. UrlDecode_loop (len - 2) (data + 3) (dest + 1) mem)
          | None \<Rightarrow> Option.bind (mem_store (int dest) [hd c] mem) (\<lambda>mem. UrlDecode_loop len (data + 1) (dest + 1) mem))))"
  by pat_completeness auto
termination
  by (relation "measure (\<lambda>(n, _). n)") auto

declare UrlDecode_loop.simps [simp del]

text \<open>\<open>c_str()\<close> and the assignment of the result end at the first NUL.\<close>

definition UrlDecode :: "cstring \<Rightarrow> cstring option" where
  "UrlDecode content = do {
     let in_str = takeWhile (\<lambda>c. c \<noteq> 0) content;
     let in_str_len = i32 (int (length in_str));
     if in_str_len < 0 then None
     else do {
       (dest, mem) \<leftarrow> UrlDecode_loop (nat in_str_len) 0 0 (in_str @ [0]);
       mem \<leftarrow> mem_store (int dest) [0] mem;
       Some (takeWhile (\<lambda>c. c \<noteq> 0) mem) } }"

section \<open>Splitting, Base64 and removal\<close>

definition strspn :: "cstring \<Rightarrow> cstring \<Rightarrow> nat" where
  "strspn s char_set = length (takeWhile (\<lambda>c. c \<in> set char_set) s)"

definition strpbrk :: "cstring \<Rightarrow> cstring \<Rightarrow> cstring option" where
  "strpbrk s char_set =
     (let r = dropWhile (\<lambda>c. c \<notin> set char_set) s in if r = [] then None else Some r)"

lemma strpbrk_Some: "strpbrk s cs = Some r \<Longrightarrow> length r \<le> length s \<and> 0 < strspn r cs \<and> r \<noteq> []"
proof -
  assume "strpbrk s cs = Some r"
  then have r: "r = dropWhile (\<lambda>c. c \<notin> set cs) s" "r \<noteq> []" by (auto simp: strpbrk_def Let_def split: if_splits)
  then have "hd r \<in> set cs" using hd_dropWhile [of "\<lambda>c. c \<notin> set cs" s] by auto
  then have "0 < strspn r cs" using r(2) by (cases r) (simp_all add: strspn_def)
  then show ?thesis using r length_dropWhile_le [of "\<lambda>c. c \<notin> set cs" s] by simp
qed

lemma strpbrk_decreases: "strpbrk s cs = Some r \<Longrightarrow> length (drop (strspn r cs) r) < length s"
  using strpbrk_Some [of s cs r] length_greater_0_conv [of r] unfolding length_drop by linarith

function SplitStringChr_loop :: "cstring \<Rightarrow> cstring \<Rightarrow> cstring list \<Rightarrow> cstring list" where
  "SplitStringChr_loop s char_set out =
     (case strpbrk s char_set of
        None \<Rightarrow> if s \<noteq> [] then out @ [s] else out
      | Some find_ptr \<Rightarrow>
          SplitStringChr_loop (drop (strspn find_ptr char_set) find_ptr) char_set
            (if length s \<noteq> length find_ptr then out @ [take (length s - length find_ptr) s] else out))"
  by pat_completeness auto
termination
  by (relation "measure (\<lambda>(s, _). length s)") (simp_all add: strpbrk_decreases del: length_drop)

declare SplitStringChr_loop.simps [simp del]

text \<open>The arguments are C strings, given without their NUL.\<close>

definition SplitStringChr :: "cstring \<Rightarrow> cstring \<Rightarrow> cstring list" where
  "SplitStringChr s char_set =
     (if char_set = [] then (if s \<noteq> [] then [s] else [])
      else SplitStringChr_loop (drop (strspn s char_set) s) char_set [])"

definition GetRawString :: "cstring \<Rightarrow> cstring" where
  "GetRawString s = base64_encode s (word_of_nat (length s))"

definition GetSrcString :: "cstring \<Rightarrow> cstring" where
  "GetSrcString s = base64_decode s"

definition ResplaceString :: "cstring \<Rightarrow> byte \<Rightarrow> cstring \<Rightarrow> cstring" where
  "ResplaceString s c dest_string = foldl (\<lambda>d x. if x \<noteq> c then d @ [x] else d) dest_string s"

section \<open>Numbers in Chinese\<close>

definition letter :: "cstring list" where
  "letter = [[0xe9, 0x9b, 0xb6], [0xe4, 0xb8, 0x80], [0xe4, 0xb8, 0xa4], [0xe4, 0xb8, 0x89], [0xe5, 0x9b, 0x9b],
    [0xe4, 0xba, 0x94], [0xe5, 0x85, 0xad], [0xe4, 0xb8, 0x83], [0xe5, 0x85, 0xab], [0xe4, 0xb9, 0x9d]]"

definition unit_text :: "cstring list" where
  "unit_text = [[], [0xe5, 0x8d, 0x81], [0xe7, 0x99, 0xbe], [0xe5, 0x8d, 0x83], [0xe4, 0xb8, 0x87],
    [0xe5, 0x8d, 0x81], [0xe7, 0x99, 0xbe], [0xe5, 0x8d, 0x83], [0xe4, 0xba, 0xbf], [0xe5, 0x8d, 0x81]]"

definition table_at :: "cstring list \<Rightarrow> int \<Rightarrow> cstring option" where
  "table_at t i = (if 0 \<le> i \<and> i < int (length t) then Some (t ! nat i) else None)"

fun ConverNum_loop :: "bool \<Rightarrow> cstring \<Rightarrow> bool \<Rightarrow> cstring \<Rightarrow> cstring option" where
  "ConverNum_loop first [] bPreZero conver_num = Some conver_num"
| "ConverNum_loop first (c # src) bPreZero conver_num =
     (let digit = sint c - 48; unit_index = int (length src) in
      if first \<and> digit = 1 \<and> (unit_index = 1 \<or> unit_index = 5 \<or> unit_index = 9) then
        Option.bind (table_at unit_text unit_index) (\<lambda>u. ConverNum_loop False src bPreZero (conver_num @ u))
      else if digit = 0 then
        if unit_index = 4 \<or> unit_index = 8
        then Option.bind (table_at unit_text unit_index) (\<lambda>u. ConverNum_loop False src True (conver_num @ u))
        else ConverNum_loop False src True conver_num
      else
        Option.bind (table_at letter digit) (\<lambda>d. Option.bind (table_at unit_text unit_index) (\<lambda>u.
          ConverNum_loop False src False (conver_num @ (if bPreZero then letter ! 0 else []) @ d @ u))))"

definition ConverNum :: "int \<Rightarrow> cstring \<Rightarrow> cstring option" where
  "ConverNum num conver_num =
     (let src = fmt_d num in
      if num < 0 then ConverNum_loop True (drop 1 src) False (conver_num @ [0xe8, 0xb4, 0x9f])
      else ConverNum_loop True src False conver_num)"

section \<open>The encoding\<close>

definition url_char :: "byte \<Rightarrow> cstring" where
  "url_char c = (if url_plain c then [c] else if c = bc CHR '' '' then [bc CHR ''+''] else bc CHR ''%'' # fmt_02X c)"

definition url_text :: "cstring \<Rightarrow> cstring" where
  "url_text s = concat (map url_char s)"

definition url_escaped :: "byte \<Rightarrow> bool" where
  "url_escaped c \<longleftrightarrow> \<not> url_plain c \<and> c \<noteq> bc CHR '' ''"

lemma url_text_simps [simp]: "url_text [] = []" "url_text (c # s) = url_char c @ url_text s"
  "url_text (s @ t) = url_text s @ url_text t"
  by (simp_all add: url_text_def)

lemma length_url_char: "length (url_char c) = (if url_escaped c then 3 else 1)"
  by (simp add: url_char_def url_escaped_def fmt_02X_def)

lemma length_url_text: "length (url_text s) \<le> 3 * length s"
  "length (url_text s) = 3 * length s \<longleftrightarrow> list_all url_escaped s"
proof -
  show le: "length (url_text s) \<le> 3 * length s" for s by (induction s) (auto simp: length_url_char)
  show "length (url_text s) = 3 * length s \<longleftrightarrow> list_all url_escaped s"
  proof (induction s)
    case (Cons c s)
    then show ?case using le [of s] by (simp add: length_url_char)
  qed simp
qed

text \<open>
  The loop after \<open>done\<close>: the text of the characters read so far is in the block, and the
  rest is written behind it unless every character needs an escape.
\<close>

lemma mem_store_end:
  assumes "length t + length bs \<le> length r" "take (length t) r = t"
  shows "\<exists>r'. mem_store (int (length t)) bs r = Some r' \<and> length r' = length r
    \<and> take (length t + length bs) r' = t @ bs"
  using assms by (simp add: mem_store_Some)

lemma UrlEncode_loop_spec:
  assumes "length r = 3 * length (s @ cs)" "take (length (url_text s)) r = url_text s"
  shows "if list_all url_escaped (s @ cs) \<and> cs \<noteq> []
     then UrlEncode_loop (length r) cs (length (url_text s)) r = Some None
     else \<exists>r'. UrlEncode_loop (length r) cs (length (url_text s)) r = Some (Some (length (url_text (s @ cs)), r'))
       \<and> length r' = length r \<and> take (length (url_text (s @ cs))) r' = url_text (s @ cs)"
  using assms
proof (induction cs arbitrary: s r)
  case (Cons c cs)
  let ?t = "url_text s"
  have j: "length ?t < length r" using length_url_text(1) [of s] Cons.prems(1) by simp
  have step: ?case if w: "UrlEncode_loop (length r) (c # cs) (length ?t) r = UrlEncode_loop (length r) cs (length (url_text (s @ [c]))) r'"
      "length r' = length r" "take (length (url_text (s @ [c]))) r' = url_text (s @ [c])"
      and ne: "\<not> (list_all url_escaped (s @ c # cs) \<and> cs = [])" for r'
  proof -
    have "length r' = 3 * length ((s @ [c]) @ cs)" using w(2) Cons.prems(1) by simp
    from Cons.IH [OF this w(3)] show ?thesis using w(1,2) ne by (auto split: if_splits)
  qed
  show ?case
  proof (cases "url_escaped c")
    case False
    let ?x = "url_char c"
    have x: "length ?x = 1" using False by (simp add: length_url_char)
    obtain r' where r': "mem_store (int (length ?t)) ?x r = Some r'" "length r' = length r" "take (length ?t + 1) r' = ?t @ ?x"
      using mem_store_end [of ?t ?x r] j x Cons.prems(2) by auto
    have "UrlEncode_loop (length r) (c # cs) (length ?t) r = UrlEncode_loop (length r) cs (length (url_text (s @ [c]))) r'"
      using False j r'(1) x by (auto simp: url_escaped_def url_char_def)
    then show ?thesis by (rule step) (use r' x False in auto)
  next
    case True
    show ?thesis
    proof (cases "length ?t + 3 < length r")
      case room: True
      let ?x = "bc CHR ''%'' # fmt_02X c"
      have x: "url_char c = ?x" using True by (simp add: url_char_def url_escaped_def)
      have l: "length (fmt_02X c) = 2" by (simp add: fmt_02X_def)
      obtain r' where r': "mem_store (int (length ?t)) (?x @ [0]) r = Some r'" "length r' = length r"
          "take (length ?t + 4) r' = ?t @ ?x @ [0]"
        using mem_store_end [of ?t "?x @ [0]" r] room l Cons.prems(2) by auto
      have "take (length ?t + 3) r' = take (length ?t + 3) (take (length ?t + 4) r')" by simp
      also have "\<dots> = ?t @ ?x" unfolding r'(3) using l by simp
      finally have t: "take (length ?t + 3) r' = ?t @ ?x" .
      have "UrlEncode_loop (length r) (c # cs) (length ?t) r = UrlEncode_loop (length r) cs (length (url_text (s @ [c]))) r'"
        using True j room r'(1) l by (auto simp: url_escaped_def x)
      moreover have "\<not> (list_all url_escaped (s @ c # cs) \<and> cs = [])"
        using room Cons.prems(1) length_url_text(2) [of s] by auto
      ultimately show ?thesis by (intro step [of r']) (use r'(2) t l in \<open>simp_all add: x\<close>)
    next
      case False
      have "length ?t \<le> 3 * length s" by (rule length_url_text(1))
      then have "cs = []" "length ?t = 3 * length s" using False Cons.prems(1) by (cases cs; simp)+
      moreover have "\<not> url_plain c" "c \<noteq> bc CHR '' ''" using True by (simp_all add: url_escaped_def)
      ultimately show ?thesis using True False j length_url_text(2) [of s] by simp
    qed
  qed
qed auto

lemma i32_nat: "n < 2 ^ 31 \<Longrightarrow> i32 (int n) = int n"
  by (rule i32_small) simp_all

lemma UrlEncode_spec:
  assumes "alloc_ok h (3 * int (length s))" "3 * length s < 2 ^ 31"
  shows "UrlEncode h s = Some (if list_all url_escaped s then None else Some (url_text s))"
proof (cases "s = []")
  case True
  then show ?thesis by (simp add: UrlEncode_def i32_nat [of 0, simplified])
next
  case False
  have i: "i32 (int (length s)) = int (length s)" using assms(2) by (intro i32_nat) simp
  have "length s < 715827883" using assms(2) by simp
  then have b: "\<not> (int (length s) * 3 < - (2 ^ 31) \<or> 2 ^ 31 \<le> int (length s) * 3)" by simp
  have c: "\<not> (\<not> alloc_ok h (int (length s) * 3) \<or> int (length s) \<le> 0 \<or> int (length s) * 3 \<le> 0)"
    using assms(1) False by (simp add: mult.commute)
  have n: "nat (int (length s) * 3) = 3 * length s" "take (nat (int (length s))) s = s" by simp_all
  let ?r = "map (junk h) [0..<3 * length s]"
  have r: "length ?r = 3 * length ([] @ s)" by simp
  have u: "UrlEncode h s = Option.bind (UrlEncode_loop (length ?r) s 0 ?r) UrlEncode_finish"
    unfolding UrlEncode_def Let_def i using b c by (simp only: n if_False) simp
  show ?thesis
  proof (cases "list_all url_escaped s")
    case True
    then show ?thesis using UrlEncode_loop_spec [OF r] False u by (simp add: UrlEncode_finish_def)
  next
    case esc: False
    obtain r' where r': "UrlEncode_loop (length ?r) s 0 ?r = Some (Some (length (url_text s), r'))"
        "length r' = 3 * length s" "take (length (url_text s)) r' = url_text s"
      using UrlEncode_loop_spec [OF r] esc by auto
    have "length (url_text s) < 3 * length s" using length_url_text [of s] esc by linarith
    then show ?thesis using r' u esc by (simp add: UrlEncode_finish_def mem_store_Some)
  qed
qed

section \<open>The decoding\<close>

text \<open>What the loop in place computes, on lists.\<close>

fun url_decode :: "cstring \<Rightarrow> cstring" where
  "url_decode (c # a # b # s) =
     (if c = bc CHR ''+'' then bc CHR '' '' # url_decode (a # b # s)
      else if c = bc CHR ''%'' \<and> isxdigit a \<and> isxdigit b then word_of_int (php_htoi a b) # url_decode s
      else c # url_decode (a # b # s))"
| "url_decode (c # s) = (if c = bc CHR ''+'' then bc CHR '' '' else c) # url_decode s"
| "url_decode [] = []"

lemma mem_load1: "mem_load (int (length out)) 1 (out @ c # r) = Some [c]"
  "mem_load (int (length out) + 1) 1 (out @ c # a # r) = Some [a]"
  "mem_load (int (length out) + 2) 1 (out @ c # a # b # r) = Some [b]"
  using mem_load_Some [of "length out" 1 "out @ c # r"] mem_load_Some [of "length out + 1" 1 "out @ c # a # r"]
    mem_load_Some [of "length out + 2" 1 "out @ c # a # b # r"] by (simp_all add: add.commute)

lemma mem_store_gap:
  assumes "gap @ c # r = g # r'"
  shows "mem_store (int (length out)) [x] (out @ gap @ c # r) = Some (out @ x # r')"
  using assms mem_store_Some [of "length out" "[x]" "out @ gap @ c # r"] by simp

text \<open>
  The loop has written \<open>out\<close>, then there is a \<open>gap\<close> of bytes that were read already, then what is
  to be read and the NUL. It never stores behind what it has read.
\<close>

lemma url_escape_spec:
  "url_escape (length s) (length pre) (pre @ c # s @ [0]) =
     Some (case s of a # b # _ \<Rightarrow> if isxdigit a \<and> isxdigit b then Some (word_of_int (php_htoi a b)) else None | _ \<Rightarrow> None)"
proof (cases s)
  case (Cons a t)
  then show ?thesis
  proof (cases t)
    case (Cons b u)
    then show ?thesis using \<open>s = a # t\<close> mem_load1(2) [of pre c a] mem_load1(3) [of pre c a b] by (simp add: url_escape_def)
  qed (simp add: url_escape_def)
qed (simp add: url_escape_def)

lemma UrlDecode_loop_spec:
  "\<exists>rest. UrlDecode_loop (length s) (length out + length gap) (length out) (out @ gap @ s @ [0])
     = Some (length (out @ url_decode s), (out @ url_decode s) @ rest) \<and> rest \<noteq> []"
proof (induction s arbitrary: out gap rule: length_induct)
  case (1 s)
  show ?case
  proof (cases s)
    case Nil
    then show ?thesis by (simp add: UrlDecode_loop.simps)
  next
    case (Cons c t)
    let ?mem = "out @ gap @ c # t @ [0]"
    have load: "mem_load (int (length out + length gap)) 1 ?mem = Some [c]"
      using mem_load1(1) [of "out @ gap" c "t @ [0]"] by simp
    have step: "\<exists>rest. UrlDecode_loop (length u) (length out + length gap + k) (length out + 1) (out @ x # gap' @ u @ [0])
        = Some (length (out @ x # url_decode u), (out @ x # url_decode u) @ rest) \<and> rest \<noteq> []"
      if "length u < length s" "length gap' + 1 = length gap + k" for u x gap' k
    proof -
      have "length out + length gap + k = Suc (length out + length gap')" using that(2) by simp
      then show ?thesis using "1.IH" [rule_format, OF that(1), of "out @ [x]" gap'] by (simp only:) simp
    qed
    have store: "mem_store (int (length out)) [x] ?mem = Some (out @ x # tl (gap @ [c]) @ t @ [0])" for x
      using mem_store_Some [of "length out" "[x]" ?mem] by (cases gap) simp_all
    have gap1: "length (tl (gap @ [c])) + 1 = length gap + 1" by simp
    have esc: "url_escape (length t) (length out + length gap) ?mem =
        Some (case t of a # b # _ \<Rightarrow> if isxdigit a \<and> isxdigit b then Some (word_of_int (php_htoi a b)) else None | _ \<Rightarrow> None)"
      using url_escape_spec [of t "out @ gap" c] by simp
    note unf = UrlDecode_loop.simps [of "Suc (length t)" "length out + length gap" "length out"]
    have one: ?thesis if d: "url_decode s = x # url_decode t"
      and l: "UrlDecode_loop (length s) (length out + length gap) (length out) ?mem
        = UrlDecode_loop (length t) (length out + length gap + 1) (length out + 1) (out @ x # tl (gap @ [c]) @ t @ [0])" for x
      using step [OF _ gap1, of t x] Cons d l by simp
    consider (plus) "c = bc CHR ''+''"
      | (esc) a b u where "t = a # b # u" "c = bc CHR ''%''" "isxdigit a" "isxdigit b"
      | (plain) "c \<noteq> bc CHR ''+''" "\<And>a b u. t = a # b # u \<Longrightarrow> \<not> (c = bc CHR ''%'' \<and> isxdigit a \<and> isxdigit b)" by blast
    then show ?thesis
    proof cases
      case plus
      have "url_decode s = bc CHR '' '' # url_decode t" using Cons plus by (cases t; cases "tl t") auto
      then show ?thesis by (rule one) (use Cons plus load store [of 32] in \<open>simp add: unf del: of_nat_add\<close>)
    next
      case (esc a b u)
      let ?x = "word_of_int (php_htoi a b)"
      have "out @ ?x # tl (gap @ [c]) @ t @ [0] = out @ ?x # (tl (gap @ [c]) @ [a, b]) @ u @ [0]" using esc(1) by simp
      moreover have "\<exists>rest. UrlDecode_loop (length u) (length out + length gap + 3) (length out + 1) (out @ ?x # (tl (gap @ [c]) @ [a, b]) @ u @ [0])
        = Some (length (out @ ?x # url_decode u), (out @ ?x # url_decode u) @ rest) \<and> rest \<noteq> []"
        by (rule step) (use Cons esc(1) in simp_all)
      moreover have "url_decode s = ?x # url_decode u" using Cons esc by simp
      moreover have "UrlDecode_loop (length s) (length out + length gap) (length out) ?mem
        = UrlDecode_loop (length u) (length out + length gap + 3) (length out + 1) (out @ ?x # tl (gap @ [c]) @ t @ [0])"
        using Cons esc load store [of ?x] \<open>url_escape _ _ _ = _\<close>
        by (simp add: UrlDecode_loop.simps [of "Suc (Suc (Suc (length u)))" "length out + length gap" "length out"] del: of_nat_add)
      ultimately show ?thesis using Cons by simp
    next
      case plain
      have "url_decode s = c # url_decode t" using Cons plain by (cases t; cases "tl t") auto
      moreover have "(if c = bc CHR ''%'' then url_escape (length t) (length out + length gap) ?mem else Some None) = Some None"
        using plain(2) unfolding esc by (auto split: list.split)
      ultimately show ?thesis by (intro one) (use Cons plain(1) load store [of c] in \<open>simp_all add: unf del: of_nat_add\<close>)
    qed
  qed
qed

lemma UrlDecode_spec:
  assumes "length s < 2 ^ 31"
  shows "UrlDecode s = Some (takeWhile (\<lambda>c. c \<noteq> 0) (url_decode (takeWhile (\<lambda>c. c \<noteq> 0) s)))"
proof -
  let ?s = "takeWhile (\<lambda>c. c \<noteq> 0) s"
  have "length ?s < 2 ^ 31" using assms length_takeWhile_le [of "\<lambda>c. c \<noteq> 0" s] by linarith
  then have i: "i32 (int (length ?s)) = int (length ?s)" by (rule i32_nat)
  obtain rest where l: "UrlDecode_loop (length ?s) 0 0 (?s @ [0]) = Some (length (url_decode ?s), url_decode ?s @ rest)" "rest \<noteq> []"
    using UrlDecode_loop_spec [of ?s "[]" "[]"] by auto
  have "mem_store (int (length (url_decode ?s))) [0] (url_decode ?s @ rest) = Some (url_decode ?s @ 0 # tl rest)"
    using l(2) mem_store_Some [of "length (url_decode ?s)" "[0]" "url_decode ?s @ rest"] by (cases rest) simp_all
  moreover have "takeWhile (\<lambda>c. c \<noteq> 0) (xs @ 0 # ys) = takeWhile (\<lambda>c. c \<noteq> 0) xs" for xs ys :: cstring
    by (induction xs) simp_all
  ultimately show ?thesis using l(1) unfolding UrlDecode_def Let_def i by simp
qed

section \<open>Round trips\<close>

lemma url_plain_not: "\<not> url_plain 0" "\<not> url_plain (bc CHR ''+'')" "\<not> url_plain (bc CHR ''%'')"
  by (simp_all add: url_plain_def word_sle_eq)

lemma fmt_02X_no_nul: "0 \<notin> set (fmt_02X c)"
  by (rule byte_cases_all [where b = c]) code_simp

lemma url_char_no_nul: "0 \<notin> set (url_char c)"
  using fmt_02X_no_nul [of c] url_plain_not(1) by (auto simp: url_char_def)

lemma fmt_02X_read:
  "(case fmt_02X c of [a, b] \<Rightarrow> isxdigit a \<and> isxdigit b \<and> (word_of_int (php_htoi a b) :: byte) = c | _ \<Rightarrow> False)"
  by (rule byte_cases_all [where b = c]) code_simp

lemma url_plain_special: "url_plain c \<Longrightarrow> c \<noteq> bc CHR ''+'' \<and> c \<noteq> bc CHR ''%''"
  using url_plain_not by auto

lemma url_decode_plain: "c \<noteq> bc CHR ''+'' \<Longrightarrow> c \<noteq> bc CHR ''%'' \<Longrightarrow> url_decode (c # s) = c # url_decode s"
  by (cases s; cases "tl s") auto

lemma url_decode_plus: "url_decode (bc CHR ''+'' # s) = bc CHR '' '' # url_decode s"
  by (cases s; cases "tl s") auto

lemma url_decode_text: "url_decode (url_text s) = s"
proof (induction s)
  case (Cons c s)
  consider (plain) "url_plain c" | (space) "\<not> url_plain c" "c = bc CHR '' ''" | (esc) "\<not> url_plain c" "c \<noteq> bc CHR '' ''" by blast
  then show ?case
  proof cases
    case plain
    then show ?thesis using Cons url_plain_special [OF plain] by (simp add: url_char_def url_decode_plain)
  next
    case space
    then show ?thesis using Cons url_decode_plus [of "url_text s"] by (simp add: url_char_def)
  next
    case esc
    obtain a b where "fmt_02X c = [a, b]" "isxdigit a" "isxdigit b" "(word_of_int (php_htoi a b) :: byte) = c"
      using fmt_02X_read [of c] by (auto split: list.splits)
    then show ?thesis using Cons esc by (simp add: url_char_def)
  qed
qed simp

lemma takeWhile_url_text: "takeWhile (\<lambda>c. c \<noteq> 0) (url_text s) = url_text s"
  by (induction s) (use url_char_no_nul in \<open>auto simp: takeWhile_eq_all_conv\<close>)

section \<open>Splitting\<close>

text \<open>All fields between separators, the empty ones too.\<close>

fun fields :: "cstring \<Rightarrow> cstring \<Rightarrow> cstring list" where
  "fields cs [] = [[]]"
| "fields cs (c # s) =
     (if c \<in> set cs then [] # fields cs s else (c # hd (fields cs s)) # tl (fields cs s))"

abbreviation nonempty_fields :: "cstring \<Rightarrow> cstring \<Rightarrow> cstring list" where
  "nonempty_fields cs s \<equiv> filter (\<lambda>f. f \<noteq> []) (fields cs s)"

lemma fields_not_Nil [simp]: "fields cs s \<noteq> []"
  by (induction s) auto

lemma fields_none: "strpbrk s cs = None \<Longrightarrow> fields cs s = [s]"
  by (induction s) (auto simp: strpbrk_def Let_def split: if_splits)

lemma fields_piece: "p \<noteq> [] \<Longrightarrow> set p \<inter> set cs = {} \<Longrightarrow> c \<in> set cs \<Longrightarrow> fields cs (p @ c # s) = p # fields cs s"
  by (induction p rule: list_nonempty_induct) auto

lemma fields_skip: "nonempty_fields cs (drop (strspn s cs) s) = nonempty_fields cs s"
  by (induction s) (auto simp: strspn_def)

lemma SplitStringChr_loop_fields: "SplitStringChr_loop s cs out = out @ nonempty_fields cs s"
proof (induction s cs out rule: SplitStringChr_loop.induct)
  case (1 s cs out)
  show ?case
  proof (cases "strpbrk s cs")
    case None
    then show ?thesis by (simp add: SplitStringChr_loop.simps fields_none)
  next
    case (Some r)
    then have r: "r = dropWhile (\<lambda>c. c \<notin> set cs) s" "r \<noteq> []" by (auto simp: strpbrk_def Let_def split: if_splits)
    define p where "p = takeWhile (\<lambda>c. c \<notin> set cs) s"
    have s: "s = p @ r" "set p \<inter> set cs = {}" by (auto simp: p_def r(1) dest: set_takeWhileD)
    have "hd r \<in> set cs" using r hd_dropWhile [of "\<lambda>c. c \<notin> set cs" s] by auto
    then obtain c u where cu: "r = c # u" "c \<in> set cs" using r(2) by (cases r) auto
    have "nonempty_fields cs s = (if p = [] then [] else [p]) @ nonempty_fields cs r"
      using s cu fields_piece [of p cs c u] by auto
    then show ?thesis using 1 [OF Some] Some s(1)
      by (subst SplitStringChr_loop.simps) (simp add: fields_skip)
  qed
qed

lemma SplitStringChr_fields: "SplitStringChr s cs = nonempty_fields cs s"
proof (cases "cs = []")
  case True
  have "fields [] s = [s]" by (induction s) auto
  then show ?thesis using True by (simp add: SplitStringChr_def)
qed (simp add: SplitStringChr_def SplitStringChr_loop_fields fields_skip)

lemma ResplaceString_filter: "ResplaceString s c d = d @ filter (\<lambda>x. x \<noteq> c) s"
  by (induction s arbitrary: d) (auto simp: ResplaceString_def)

section \<open>Numbers in Chinese\<close>

lemma ConverNum_loop_total:
  assumes "length src \<le> 10" "list_all (\<lambda>c. 48 \<le> sint c \<and> sint c \<le> 57) src"
  shows "\<exists>t. ConverNum_loop first src z out = Some (out @ t)"
  using assms
proof (induction src arbitrary: first z out)
  case (Cons c src)
  have t: "table_at unit_text (int (length src)) \<noteq> None" "table_at letter (sint c - 48) \<noteq> None"
    using Cons.prems by (auto simp: table_at_def unit_text_def letter_def)
  have ih: "\<exists>t. ConverNum_loop f src z (out @ x) = Some (out @ t)" for f z x
    using Cons.IH [of f z "out @ x"] Cons.prems by fastforce
  show ?case using t ih [of _ _ "[]"] ih by (auto simp: Let_def)
qed simp

lemma dec_digits_range: "list_all (\<lambda>c. 48 \<le> sint c \<and> sint c \<le> 57) (dec_digits n)"
proof (induction n rule: dec_digits.induct)
  case (1 n)
  have d: "48 \<le> sint (word_of_nat (48 + k) :: byte) \<and> sint (word_of_nat (48 + k) :: byte) \<le> 57" if "k < 10" for k
    using that by (simp add: less_Suc_eq numeral_eq_Suc [of "num.One"] flip: numeral_2_eq_2) (auto simp: eval_nat_numeral less_Suc_eq)
  show ?case using 1 d [of n] d [of "n mod 10"] by (subst dec_digits.simps) (auto simp del: dec_digits.simps)
qed

text \<open>
  \<open>ConverNum\<close> stays inside its tables for every \<open>int\<close>; but zero has no text, and a number whose
  last eight digits are zero gets the unit of ten thousand behind that of a hundred million.
\<close>

lemma ConverNum_total:
  assumes "- (2 ^ 31) \<le> num" "num < 2 ^ 31"
  shows "\<exists>t. ConverNum num out = Some (out @ t)"
proof -
  have "length (dec_digits (nat (- num))) \<le> 10" "length (dec_digits (nat num)) \<le> 10"
    using length_dec_digits [of "nat (- num)" 9] length_dec_digits [of "nat num" 9] assms by auto
  note loop = ConverNum_loop_total [OF this(1) dec_digits_range] ConverNum_loop_total [OF this(2) dec_digits_range]
  show ?thesis
    using loop(1) [of True False "out @ [0xe8, 0xb4, 0x9f]"] loop(2) [of True False out]
    by (auto simp: ConverNum_def fmt_d_def Let_def simp del: dec_digits.simps)
qed

lemma ConverNum_faults:
  "ConverNum 0 [] = Some []"
  "ConverNum 100000000 [] = Some (letter ! 1 @ unit_text ! 8 @ unit_text ! 4)"
  by (simp_all add: ConverNum_def fmt_d_def table_at_def letter_def unit_text_def dec_digits.simps)

section \<open>Properties\<close>

text \<open>
  (C14) URL encoding, when memory can be had: \<open>UrlEncode\<close> stays inside its block and writes the
  text in which letters, digits and four signs stand for themselves, \<open>+\<close> for a space and a
  percent escape for anything else, unless every character needs an escape, also when there is
  none: then it fails. \<open>UrlDecode\<close>, which works in place, stays inside its block and reads the text
  back, up to the first NUL of the string.
\<close>

theorem url_roundtrip:
  assumes "alloc_ok h (3 * int (length s))" "3 * length s < 2 ^ 31"
  shows "UrlEncode h s = Some (if list_all url_escaped s then None else Some (url_text s))
    \<and> UrlDecode (url_text s) = Some (takeWhile (\<lambda>c. c \<noteq> 0) s)"
proof -
  have "length (url_text s) < 2 ^ 31" using length_url_text(1) [of s] assms(2) by linarith
  from UrlDecode_spec [OF this] UrlEncode_spec [OF assms] show ?thesis
    by (simp add: takeWhile_url_text url_decode_text)
qed

theorem url_roundtrip_witness:
  "let h = \<lparr>alloc_ok = (\<lambda>n. n < 1000), junk = (\<lambda>_. 0)\<rparr> in
   UrlEncode h (str ''a b/c'') = Some (Some (str ''a+b%2Fc'')) \<and> UrlEncode h (str ''/?'') = Some None
   \<and> UrlDecode (str ''a+b%2Fc'') = Some (str ''a b/c'')"
proof -
  let ?h = "\<lparr>alloc_ok = (\<lambda>n. n < 1000), junk = (\<lambda>_. 0)\<rparr> :: heap"
  have t: "url_text (str ''a b/c'') = str ''a+b%2Fc''" "\<not> list_all url_escaped (str ''a b/c'')"
    by (simp_all add: url_char_def url_plain_def url_escaped_def word_sle_eq fmt_02X_def hex_digit_upper_def)
  have e: "list_all url_escaped (str ''/?'')" by (simp add: url_plain_def url_escaped_def word_sle_eq)
  show ?thesis
    using url_roundtrip [of ?h "str ''a b/c''"] url_roundtrip [of ?h "str ''/?''"] t e by (simp add: Let_def)
qed

text \<open>
  (C32) \<open>SplitStringChr\<close> gives the non-empty fields between the separators, in order: the string cut at
  every single separator character, without the empty pieces.
\<close>

theorem split_fields:
  "SplitStringChr s char_set = filter (\<lambda>f. f \<noteq> []) (fields char_set s)"
  by (rule SplitStringChr_fields)

end
