(* ===== verification/Rbtree.thy ===== *)
theory Rbtree
  imports Main "HOL-Library.Monad_Syntax"
begin

text \<open>
  \<^verbatim>\<open>public/check/rbtree.{h,cc}\<close>: red-black trees of linked nodes, with parent pointers, that are
  rebalanced in place. The nodes are in a memory, a pointer is an address or NULL
  (\<open>None\<close>), and reading or writing through NULL or outside of the memory is undefined
  (\<open>None\<close>). The loops are \<open>partial_function\<close>s: \<open>None\<close> is also the result of a loop that does
  not end, so that \<open>Some\<close> shows that it does.
\<close>

section \<open>Nodes and memory\<close>

type_synonym ref = "nat option"

datatype color = RB_RED | RB_BLACK

record rb_node =
  rb_parent :: ref
  rb_color :: color
  rb_right :: ref
  rb_left :: ref

text \<open>The memory together with the \<open>rb_root\<close> that the functions get.\<close>

record rb_mem =
  nodes :: "nat \<rightharpoonup> rb_node"
  root_node :: ref

definition deref :: "ref \<Rightarrow> rb_mem \<Rightarrow> rb_node option" where
  "deref p st = Option.bind p (nodes st)"

definition modify :: "ref \<Rightarrow> (rb_node \<Rightarrow> rb_node) \<Rightarrow> rb_mem \<Rightarrow> rb_mem option" where
  "modify p f st = Option.bind p (\<lambda>a. map_option (\<lambda>n. st\<lparr>nodes := (nodes st)(a \<mapsto> f n)\<rparr>) (nodes st a))"

abbreviation set_parent :: "ref \<Rightarrow> ref \<Rightarrow> rb_mem \<Rightarrow> rb_mem option" where
  "set_parent p x \<equiv> modify p (\<lambda>n. n\<lparr>rb_parent := x\<rparr>)"
abbreviation set_color :: "ref \<Rightarrow> color \<Rightarrow> rb_mem \<Rightarrow> rb_mem option" where
  "set_color p x \<equiv> modify p (\<lambda>n. n\<lparr>rb_color := x\<rparr>)"
abbreviation set_right :: "ref \<Rightarrow> ref \<Rightarrow> rb_mem \<Rightarrow> rb_mem option" where
  "set_right p x \<equiv> modify p (\<lambda>n. n\<lparr>rb_right := x\<rparr>)"
abbreviation set_left :: "ref \<Rightarrow> ref \<Rightarrow> rb_mem \<Rightarrow> rb_mem option" where
  "set_left p x \<equiv> modify p (\<lambda>n. n\<lparr>rb_left := x\<rparr>)"

text \<open>\<open>if (p) p->rb_parent = x\<close>, and the test \<open>p && p->rb_color == RB_RED\<close>.\<close>

definition set_parent_if :: "ref \<Rightarrow> ref \<Rightarrow> rb_mem \<Rightarrow> rb_mem option" where
  "set_parent_if p x st = (if p = None then Some st else set_parent p x st)"

definition set_color_if :: "ref \<Rightarrow> color \<Rightarrow> rb_mem \<Rightarrow> rb_mem option" where
  "set_color_if p x st = (if p = None then Some st else set_color p x st)"

definition is_red :: "ref \<Rightarrow> rb_mem \<Rightarrow> bool option" where
  "is_red p st = (if p = None then Some False else map_option (\<lambda>n. rb_color n = RB_RED) (deref p st))"

text \<open>The link to a node in its parent or in the root, set to another node.\<close>

definition relink :: "ref \<Rightarrow> ref \<Rightarrow> ref \<Rightarrow> rb_mem \<Rightarrow> rb_mem option" where
  "relink parent node x st =
     (if parent = None then Some (st\<lparr>root_node := x\<rparr>)
      else do {
        p \<leftarrow> deref parent st;
        if node = rb_left p then set_left parent x st else set_right parent x st })"

section \<open>Rotations\<close>

definition rb_rotate_left :: "ref \<Rightarrow> rb_mem \<Rightarrow> rb_mem option" where
  "rb_rotate_left node st = do {
     n \<leftarrow> deref node st;
     let right = rb_right n;
     r \<leftarrow> deref right st;
     st \<leftarrow> set_right node (rb_left r) st;
     st \<leftarrow> set_parent_if (rb_left r) node st;
     st \<leftarrow> set_left right node st;
     n \<leftarrow> deref node st;
     st \<leftarrow> set_parent right (rb_parent n) st;
     st \<leftarrow> relink (rb_parent n) node right st;
     set_parent node right st }"

definition rb_rotate_right :: "ref \<Rightarrow> rb_mem \<Rightarrow> rb_mem option" where
  "rb_rotate_right node st = do {
     n \<leftarrow> deref node st;
     let left = rb_left n;
     l \<leftarrow> deref left st;
     st \<leftarrow> set_left node (rb_right l) st;
     st \<leftarrow> set_parent_if (rb_right l) node st;
     st \<leftarrow> set_right left node st;
     n \<leftarrow> deref node st;
     st \<leftarrow> set_parent left (rb_parent n) st;
     st \<leftarrow> (if rb_parent n = None then Some (st\<lparr>root_node := left\<rparr>)
           else do {
             p \<leftarrow> deref (rb_parent n) st;
             if node = rb_right p then set_right (rb_parent n) left st else set_left (rb_parent n) left st });
     set_parent node left st }"

section \<open>Insertion\<close>

partial_function (option) rb_insert_loop :: "ref \<Rightarrow> rb_mem \<Rightarrow> rb_mem option" where
  "rb_insert_loop node st = do {
     n \<leftarrow> deref node st;
     let parent = rb_parent n;
     red \<leftarrow> is_red parent st;
     if \<not> red then Some st
     else do {
       p \<leftarrow> deref parent st;
       let gparent = rb_parent p;
       g \<leftarrow> deref gparent st;
       if parent = rb_left g then do {
         let uncle = rb_right g;
         ured \<leftarrow> is_red uncle st;
         if ured then do {
           st \<leftarrow> set_color uncle RB_BLACK st;
           st \<leftarrow> set_color parent RB_BLACK st;
           st \<leftarrow> set_color gparent RB_RED st;
           rb_insert_loop gparent st }
         else do {
           st' \<leftarrow> (if rb_right p = node then rb_rotate_left parent st else Some st);
           let (node', parent') = (if rb_right p = node then (parent, node) else (node, parent));
           st' \<leftarrow> set_color parent' RB_BLACK st';
           st' \<leftarrow> set_color gparent RB_RED st';
           st' \<leftarrow> rb_rotate_right gparent st';
           rb_insert_loop node' st' } }
       else do {
         let uncle = rb_left g;
         ured \<leftarrow> is_red uncle st;
         if ured then do {
           st \<leftarrow> set_color uncle RB_BLACK st;
           st \<leftarrow> set_color parent RB_BLACK st;
           st \<leftarrow> set_color gparent RB_RED st;
           rb_insert_loop gparent st }
         else do {
           st' \<leftarrow> (if rb_left p = node then rb_rotate_right parent st else Some st);
           let (node', parent') = (if rb_left p = node then (parent, node) else (node, parent));
           st' \<leftarrow> set_color parent' RB_BLACK st';
           st' \<leftarrow> set_color gparent RB_RED st';
           st' \<leftarrow> rb_rotate_left gparent st';
           rb_insert_loop node' st' } } } }"

definition rb_insert_color :: "ref \<Rightarrow> rb_mem \<Rightarrow> rb_mem option" where
  "rb_insert_color node st = do {
     st \<leftarrow> rb_insert_loop node st;
     set_color (root_node st) RB_BLACK st }"

section \<open>Removal\<close>

text \<open>
  One round of the loop at the parent of a node that lacks a black one, for a left and for
  a right node: the part for a red sibling and the rest. The result says whether the loop goes
  on with the parent; otherwise it ends at the root.
\<close>

definition erase_left_rest :: "ref \<Rightarrow> rb_mem \<Rightarrow> (bool \<times> rb_mem) option" where
  "erase_left_rest parent st = do {
     p \<leftarrow> deref parent st;
     let other = rb_right p;
     o2 \<leftarrow> deref other st;
     lred \<leftarrow> is_red (rb_left o2) st;
     rred \<leftarrow> is_red (rb_right o2) st;
     if \<not> lred \<and> \<not> rred then do {
       st \<leftarrow> set_color other RB_RED st;
       Some (True, st) }
     else do {
       st \<leftarrow> (if \<not> rred then do {
                 st \<leftarrow> set_color_if (rb_left o2) RB_BLACK st;
                 st \<leftarrow> set_color other RB_RED st;
                 rb_rotate_right other st } else Some st);
       p \<leftarrow> deref parent st;
       let other = rb_right p;
       st \<leftarrow> set_color other (rb_color p) st;
       st \<leftarrow> set_color parent RB_BLACK st;
       o3 \<leftarrow> deref other st;
       st \<leftarrow> set_color_if (rb_right o3) RB_BLACK st;
       st \<leftarrow> rb_rotate_left parent st;
       Some (False, st) } }"

definition erase_left :: "ref \<Rightarrow> rb_mem \<Rightarrow> (bool \<times> rb_mem) option" where
  "erase_left parent st = do {
     p \<leftarrow> deref parent st;
     let other = rb_right p;
     o1 \<leftarrow> deref other st;
     st \<leftarrow> (if rb_color o1 = RB_RED then do {
               st \<leftarrow> set_color other RB_BLACK st;
               st \<leftarrow> set_color parent RB_RED st;
               rb_rotate_left parent st } else Some st);
     erase_left_rest parent st }"

definition erase_right_rest :: "ref \<Rightarrow> rb_mem \<Rightarrow> (bool \<times> rb_mem) option" where
  "erase_right_rest parent st = do {
     p \<leftarrow> deref parent st;
     let other = rb_left p;
     o2 \<leftarrow> deref other st;
     lred \<leftarrow> is_red (rb_left o2) st;
     rred \<leftarrow> is_red (rb_right o2) st;
     if \<not> lred \<and> \<not> rred then do {
       st \<leftarrow> set_color other RB_RED st;
       Some (True, st) }
     else do {
       st \<leftarrow> (if \<not> lred then do {
                 st \<leftarrow> set_color_if (rb_right o2) RB_BLACK st;
                 st \<leftarrow> set_color other RB_RED st;
                 rb_rotate_left other st } else Some st);
       p \<leftarrow> deref parent st;
       let other = rb_left p;
       st \<leftarrow> set_color other (rb_color p) st;
       st \<leftarrow> set_color parent RB_BLACK st;
       o3 \<leftarrow> deref other st;
       st \<leftarrow> set_color_if (rb_left o3) RB_BLACK st;
       st \<leftarrow> rb_rotate_right parent st;
       Some (False, st) } }"

definition erase_right :: "ref \<Rightarrow> rb_mem \<Rightarrow> (bool \<times> rb_mem) option" where
  "erase_right parent st = do {
     p \<leftarrow> deref parent st;
     let other = rb_left p;
     o1 \<leftarrow> deref other st;
     st \<leftarrow> (if rb_color o1 = RB_RED then do {
               st \<leftarrow> set_color other RB_BLACK st;
               st \<leftarrow> set_color parent RB_RED st;
               rb_rotate_right parent st } else Some st);
     erase_right_rest parent st }"

text \<open>The loop returns the node at which it stops.\<close>

partial_function (option) rb_erase_loop :: "ref \<Rightarrow> ref \<Rightarrow> rb_mem \<Rightarrow> (ref \<times> rb_mem) option" where
  "rb_erase_loop node parent st = do {
     red \<leftarrow> is_red node st;
     if red \<or> node = root_node st then Some (node, st)
     else do {
       p \<leftarrow> deref parent st;
       (go_on, st) \<leftarrow> (if rb_left p = node then erase_left parent st else erase_right parent st);
       if go_on then do {
         p \<leftarrow> deref parent st;
         rb_erase_loop parent (rb_parent p) st }
       else Some (root_node st, st) } }"

definition rb_erase_color :: "ref \<Rightarrow> ref \<Rightarrow> rb_mem \<Rightarrow> rb_mem option" where
  "rb_erase_color node parent st = do {
     (node, st) \<leftarrow> rb_erase_loop node parent st;
     set_color_if node RB_BLACK st }"

partial_function (option) go_left :: "ref \<Rightarrow> rb_mem \<Rightarrow> ref option" where
  "go_left node st = do {
     n \<leftarrow> deref node st;
     if rb_left n = None then Some node else go_left (rb_left n) st }"

partial_function (option) go_right :: "ref \<Rightarrow> rb_mem \<Rightarrow> ref option" where
  "go_right node st = do {
     n \<leftarrow> deref node st;
     if rb_right n = None then Some node else go_right (rb_right n) st }"

definition rb_erase :: "ref \<Rightarrow> rb_mem \<Rightarrow> rb_mem option" where
  "rb_erase node st = do {
     n \<leftarrow> deref node st;
     if rb_left n \<noteq> None \<and> rb_right n \<noteq> None then do {
       let old = node;
       node \<leftarrow> go_left (rb_right n) st;
       m \<leftarrow> deref node st;
       let child = rb_right m;
       let parent = rb_parent m;
       let color = rb_color m;
       st \<leftarrow> set_parent_if child parent st;
       st \<leftarrow> relink parent node child st;
       m \<leftarrow> deref node st;
       let parent = (if rb_parent m = old then node else parent);
       ol \<leftarrow> deref old st;
       st \<leftarrow> set_parent node (rb_parent ol) st;
       st \<leftarrow> set_color node (rb_color ol) st;
       st \<leftarrow> set_right node (rb_right ol) st;
       st \<leftarrow> set_left node (rb_left ol) st;
       st \<leftarrow> relink (rb_parent ol) old node st;
       st \<leftarrow> set_parent (rb_left ol) node st;
       st \<leftarrow> set_parent_if (rb_right ol) node st;
       if color = RB_BLACK then rb_erase_color child parent st else Some st }
     else do {
       let child = (if rb_left n = None then rb_right n else rb_left n);
       let parent = rb_parent n;
       let color = rb_color n;
       st \<leftarrow> set_parent_if child parent st;
       st \<leftarrow> relink parent node child st;
       if color = RB_BLACK then rb_erase_color child parent st else Some st } }"

section \<open>Walking and replacing\<close>

definition rb_first :: "rb_mem \<Rightarrow> ref option" where
  "rb_first st = (if root_node st = None then Some None else go_left (root_node st) st)"

definition rb_last :: "rb_mem \<Rightarrow> ref option" where
  "rb_last st = (if root_node st = None then Some None else go_right (root_node st) st)"

partial_function (option) climb_right :: "ref \<Rightarrow> rb_mem \<Rightarrow> ref option" where
  "climb_right node st = do {
     n \<leftarrow> deref node st;
     if rb_parent n = None then Some None
     else do {
       p \<leftarrow> deref (rb_parent n) st;
       if node = rb_right p then climb_right (rb_parent n) st else Some (rb_parent n) } }"

partial_function (option) climb_left :: "ref \<Rightarrow> rb_mem \<Rightarrow> ref option" where
  "climb_left node st = do {
     n \<leftarrow> deref node st;
     if rb_parent n = None then Some None
     else do {
       p \<leftarrow> deref (rb_parent n) st;
       if node = rb_left p then climb_left (rb_parent n) st else Some (rb_parent n) } }"

definition rb_next :: "ref \<Rightarrow> rb_mem \<Rightarrow> ref option" where
  "rb_next node st = do {
     n \<leftarrow> deref node st;
     if rb_right n \<noteq> None then go_left (rb_right n) st else climb_right node st }"

definition rb_prev :: "ref \<Rightarrow> rb_mem \<Rightarrow> ref option" where
  "rb_prev node st = do {
     n \<leftarrow> deref node st;
     if rb_left n \<noteq> None then go_right (rb_left n) st else climb_left node st }"

definition rb_replace_node :: "ref \<Rightarrow> ref \<Rightarrow> rb_mem \<Rightarrow> rb_mem option" where
  "rb_replace_node victim n st = do {
     v \<leftarrow> deref victim st;
     st \<leftarrow> relink (rb_parent v) victim n st;
     v \<leftarrow> deref victim st;
     st \<leftarrow> set_parent_if (rb_left v) n st;
     st \<leftarrow> set_parent_if (rb_right v) n st;
     v \<leftarrow> deref victim st;
     modify n (\<lambda>_. v) st }"

text \<open>The location that \<open>rb_link_node\<close> stores into: the root or a field of a node.\<close>

datatype rb_link = Link_root | Link_left nat | Link_right nat

definition rb_link_node :: "ref \<Rightarrow> ref \<Rightarrow> rb_link \<Rightarrow> rb_mem \<Rightarrow> rb_mem option" where
  "rb_link_node node parent link st = do {
     st \<leftarrow> set_parent node parent st;
     st \<leftarrow> set_color node RB_RED st;
     st \<leftarrow> set_right node None st;
     st \<leftarrow> set_left node None st;
     case link of
       Link_root \<Rightarrow> Some (st\<lparr>root_node := node\<rparr>)
     | Link_left a \<Rightarrow> set_left (Some a) node st
     | Link_right a \<Rightarrow> set_right (Some a) node st }"

section \<open>Trees in memory\<close>

datatype tree = Leaf | Node tree nat color tree

datatype frame = L nat color tree | R tree nat color

type_synonym ctx = "frame list"

fun ptr_of :: "tree \<Rightarrow> ref" where
  "ptr_of Leaf = None"
| "ptr_of (Node l a c r) = Some a"

fun par_of :: "ctx \<Rightarrow> ref" where
  "par_of [] = None"
| "par_of (L a c r # k) = Some a"
| "par_of (R l a c # k) = Some a"

fun plug :: "ctx \<Rightarrow> tree \<Rightarrow> tree" where
  "plug [] t = t"
| "plug (L a c r # k) t = plug k (Node t a c r)"
| "plug (R l a c # k) t = plug k (Node l a c t)"

fun inorder :: "tree \<Rightarrow> nat list" where
  "inorder Leaf = []"
| "inorder (Node l a c r) = inorder l @ a # inorder r"

fun before :: "ctx \<Rightarrow> nat list" where
  "before [] = []"
| "before (L a c r # k) = before k"
| "before (R l a c # k) = before k @ inorder l @ [a]"

fun after :: "ctx \<Rightarrow> nat list" where
  "after [] = []"
| "after (L a c r # k) = a # inorder r @ after k"
| "after (R l a c # k) = after k"

lemma inorder_plug: "inorder (plug k t) = before k @ inorder t @ after k"
  by (induction k t rule: plug.induct) simp_all

fun tree_at :: "(nat \<rightharpoonup> rb_node) \<Rightarrow> ref \<Rightarrow> tree \<Rightarrow> bool" where
  "tree_at m p Leaf = True"
| "tree_at m p (Node l a c r) \<longleftrightarrow>
     m a = Some \<lparr>rb_parent = p, rb_color = c, rb_right = ptr_of r, rb_left = ptr_of l\<rparr>
     \<and> tree_at m (Some a) l \<and> tree_at m (Some a) r"

fun ctx_at :: "(nat \<rightharpoonup> rb_node) \<Rightarrow> ref \<Rightarrow> ctx \<Rightarrow> bool" where
  "ctx_at m x [] = True"
| "ctx_at m x (L a c r # k) \<longleftrightarrow>
     m a = Some \<lparr>rb_parent = par_of k, rb_color = c, rb_right = ptr_of r, rb_left = x\<rparr>
     \<and> tree_at m (Some a) r \<and> ctx_at m (Some a) k"
| "ctx_at m x (R l a c # k) \<longleftrightarrow>
     m a = Some \<lparr>rb_parent = par_of k, rb_color = c, rb_right = x, rb_left = ptr_of l\<rparr>
     \<and> tree_at m (Some a) l \<and> ctx_at m (Some a) k"

lemma tree_at_plug: "tree_at m None (plug k t) \<longleftrightarrow> ctx_at m (ptr_of t) k \<and> tree_at m (par_of k) t"
  by (induction k t rule: plug.induct) auto

text \<open>Writing to a node outside of a tree or a context does not change it.\<close>

lemma tree_at_upd [simp]: "a \<notin> set (inorder t) \<Longrightarrow> tree_at (m(a := x)) p t = tree_at m p t"
  by (induction t arbitrary: p) auto

abbreviation ctx_addrs :: "ctx \<Rightarrow> nat list" where
  "ctx_addrs k \<equiv> before k @ after k"

lemma ctx_at_upd [simp]: "a \<notin> set (before k) \<Longrightarrow> a \<notin> set (after k) \<Longrightarrow> ctx_at (m(a := x)) p k = ctx_at m p k"
  by (induction m p k rule: ctx_at.induct) auto

definition holds :: "rb_mem \<Rightarrow> tree \<Rightarrow> bool" where
  "holds st t \<longleftrightarrow> root_node st = ptr_of t \<and> distinct (inorder t) \<and> tree_at (nodes st) None t"

fun frame_addr :: "frame \<Rightarrow> nat" where
  "frame_addr (L a c r) = a"
| "frame_addr (R l a c) = a"

definition top_of :: "ctx \<Rightarrow> ref \<Rightarrow> ref" where
  "top_of k x = (if k = [] then x else Some (frame_addr (last k)))"

lemma ptr_of_plug: "ptr_of (plug k t) = top_of k (ptr_of t)"
  by (induction k t rule: plug.induct) (auto simp: top_of_def)

lemma top_of_simps [simp]: "top_of [] x = x" "top_of (f # k) x = top_of k (Some (frame_addr f))"
  by (auto simp: top_of_def)

lemma par_of_Cons [simp]: "par_of (f # k) = Some (frame_addr f)"
  by (cases f) auto

text \<open>A memory that holds a tree, seen from a subtree.\<close>

lemma holds_plug:
  "holds st (plug k t) \<longleftrightarrow> root_node st = top_of k (ptr_of t) \<and> distinct (before k @ inorder t @ after k)
     \<and> ctx_at (nodes st) (ptr_of t) k \<and> tree_at (nodes st) (par_of k) t"
  by (simp add: holds_def ptr_of_plug inorder_plug tree_at_plug conj_assoc)

lemma deref_Some [simp]: "deref (Some a) st = nodes st a" "deref None st = None"
  by (simp_all add: deref_def)

lemma modify_Some [simp]:
  "modify (Some a) f st = map_option (\<lambda>n. st\<lparr>nodes := (nodes st)(a \<mapsto> f n)\<rparr>) (nodes st a)" "modify None f st = None"
  by (simp_all add: modify_def)

section \<open>Rotations\<close>

lemma rotate_left_holds:
  assumes "holds st (plug k (Node a x c (Node b y d e)))"
  shows "\<exists>st'. rb_rotate_left (Some x) st = Some st' \<and> holds st' (plug k (Node (Node a x c b) y d e))"
proof (cases k)
  case Nil
  then show ?thesis using assms
    by (cases b) (auto simp: holds_def rb_rotate_left_def set_parent_if_def relink_def Let_def)
next
  case (Cons f k')
  show ?thesis
  proof (cases f)
    case (L p cp s)
    then show ?thesis using assms Cons
      by (cases b) (auto simp: holds_plug rb_rotate_left_def set_parent_if_def relink_def Let_def)
  next
    case (R s p cp)
    have "ptr_of s \<noteq> Some x" using assms Cons R by (cases s) (auto simp: holds_plug)
    then show ?thesis using assms Cons R
      by (cases b) (auto simp: holds_plug rb_rotate_left_def set_parent_if_def relink_def Let_def)
  qed
qed

lemma rotate_right_holds:
  assumes "holds st (plug k (Node (Node a x c b) y d e))"
  shows "\<exists>st'. rb_rotate_right (Some y) st = Some st' \<and> holds st' (plug k (Node a x c (Node b y d e)))"
proof (cases k)
  case Nil
  then show ?thesis using assms
    by (cases b) (auto simp: holds_def rb_rotate_right_def set_parent_if_def Let_def)
next
  case (Cons f k')
  show ?thesis
  proof (cases f)
    case (L p cp s)
    have "ptr_of s \<noteq> Some y" using assms Cons L by (cases s) (auto simp: holds_plug)
    then show ?thesis using assms Cons L
      by (cases b) (auto simp: holds_plug rb_rotate_right_def set_parent_if_def Let_def)
  next
    case (R s p cp)
    then show ?thesis using assms Cons
      by (cases b) (auto simp: holds_plug rb_rotate_right_def set_parent_if_def Let_def)
  qed
qed

lemma set_color_holds:
  assumes "holds st (plug k (Node l x c r))"
  shows "\<exists>st'. set_color (Some x) c' st = Some st' \<and> holds st' (plug k (Node l x c' r))"
  using assms by (auto simp: holds_plug)

section \<open>The insertion loop on trees\<close>

fun red_root :: "tree \<Rightarrow> bool" where
  "red_root Leaf = False"
| "red_root (Node l a c r) \<longleftrightarrow> c = RB_RED"

fun paint :: "color \<Rightarrow> tree \<Rightarrow> tree" where
  "paint c Leaf = Leaf"
| "paint c (Node l a c' r) = Node l a c r"

text \<open>
  The loop at a red node \<open>t\<close> in its context: below a red parent the uncle decides between
  recolouring, which moves two levels up, and one or two rotations, which end the loop.
\<close>

fun ins_fix :: "ctx \<Rightarrow> tree \<Rightarrow> tree" where
  "ins_fix (L p RB_RED s # L g cg u # k) t =
     (if red_root u then ins_fix k (Node (Node t p RB_BLACK s) g RB_RED (paint RB_BLACK u))
      else plug k (Node t p RB_BLACK (Node s g RB_RED u)))"
| "ins_fix (R s p RB_RED # L g cg u # k) t =
     (if red_root u then ins_fix k (Node (Node s p RB_BLACK t) g RB_RED (paint RB_BLACK u))
      else case t of Leaf \<Rightarrow> plug k t
        | Node ta x c tb \<Rightarrow> plug k (Node (Node s p RB_RED ta) x RB_BLACK (Node tb g RB_RED u)))"
| "ins_fix (R s p RB_RED # R u g cg # k) t =
     (if red_root u then ins_fix k (Node (paint RB_BLACK u) g RB_RED (Node s p RB_BLACK t))
      else plug k (Node (Node u g RB_RED s) p RB_BLACK t))"
| "ins_fix (L p RB_RED s # R u g cg # k) t =
     (if red_root u then ins_fix k (Node (paint RB_BLACK u) g RB_RED (Node t p RB_BLACK s))
      else case t of Leaf \<Rightarrow> plug k t
        | Node ta x c tb \<Rightarrow> plug k (Node (Node u g RB_RED ta) x RB_BLACK (Node tb p RB_RED s)))"
| "ins_fix k t = plug k t"

fun frame_color :: "frame \<Rightarrow> color" where
  "frame_color (L a c r) = c"
| "frame_color (R l a c) = c"

definition black_top :: "ctx \<Rightarrow> bool" where
  "black_top k \<longleftrightarrow> k = [] \<or> frame_color (last k) = RB_BLACK"

lemma black_top_Cons: "black_top (f # k) \<Longrightarrow> black_top k" "black_top [f] \<Longrightarrow> frame_color f = RB_BLACK"
  by (auto simp: black_top_def split: if_splits)

text \<open>What the memory says about a node that is found in the tree it holds.\<close>

lemma holds_node:
  assumes "holds st (plug k (Node l a c r))"
  shows "nodes st a = Some \<lparr>rb_parent = par_of k, rb_color = c, rb_right = ptr_of r, rb_left = ptr_of l\<rparr>"
  using assms by (simp add: holds_plug)

lemma holds_L: "holds st (plug (L a c r # k) t) \<Longrightarrow>
    nodes st a = Some \<lparr>rb_parent = par_of k, rb_color = c, rb_right = ptr_of r, rb_left = ptr_of t\<rparr>"
  using holds_node [of st k t a c r] by simp

lemma holds_R: "holds st (plug (R l a c # k) t) \<Longrightarrow>
    nodes st a = Some \<lparr>rb_parent = par_of k, rb_color = c, rb_right = ptr_of t, rb_left = ptr_of l\<rparr>"
  using holds_node [of st k l a c t] by simp

lemma is_red_holds: "holds st (plug k t) \<Longrightarrow> is_red (ptr_of t) st = Some (red_root t)"
  by (cases t) (auto simp: is_red_def holds_plug)

lemma paint_holds:
  assumes "holds st (plug k t)" "red_root t"
  shows "\<exists>st'. set_color (ptr_of t) c st = Some st' \<and> holds st' (plug k (paint c t))"
  using assms set_color_holds [of st k] by (cases t) auto

lemma ptr_distinct:
  assumes "holds st (plug (f # k) t)" "ptr_of t = Some x"
  shows "x \<noteq> frame_addr f"
  using assms by (cases f; cases t) (auto simp: holds_plug)

lemma child_distinct:
  assumes "holds st (plug k (Node l a c r))" "ptr_of l = Some x" shows "ptr_of r \<noteq> Some x"
  using assms by (cases l; cases r) (auto simp: holds_plug)

text \<open>The loop ends below a black parent and at the root.\<close>

lemma insert_loop_stop:
  assumes "holds st (plug k t)" "ptr_of t = Some x" "k = [] \<or> frame_color (hd k) = RB_BLACK"
  shows "rb_insert_loop (Some x) st = Some st"
proof -
  obtain l c r where t: "t = Node l x c r" using assms(2) by (cases t) auto
  note n = holds_node [OF assms(1) [unfolded t]]
  have "is_red (par_of k) st = Some False"
  proof (cases k)
    case Nil
    then show ?thesis by (simp add: is_red_def)
  next
    case (Cons f k')
    then show ?thesis using assms(1,3) holds_L holds_R by (cases f) (auto simp: is_red_def)
  qed
  then show ?thesis using n by (subst rb_insert_loop.simps) simp
qed

lemma insert_loop_stop_ex:
  assumes "holds st (plug k t)" "ptr_of t = Some x" "k = [] \<or> frame_color (hd k) = RB_BLACK"
  shows "\<exists>st'. rb_insert_loop (Some x) st = Some st' \<and> holds st' (plug k t)"
  using insert_loop_stop [OF assms] assms(1) by blast

lemma insert_red_uncle_left:
  assumes h: "holds st (plug (L g cg u # k) (Node ql p RB_RED qr))" and u: "red_root u"
    and n: "nodes st x = Some n" "rb_parent n = Some p"
  shows "\<exists>st'. rb_insert_loop (Some x) st = rb_insert_loop (Some g) st' \<and>
    holds st' (plug k (Node (Node ql p RB_BLACK qr) g RB_RED (paint RB_BLACK u)))"
proof -
  have np: "nodes st p = Some \<lparr>rb_parent = Some g, rb_color = RB_RED, rb_right = ptr_of qr, rb_left = ptr_of ql\<rparr>"
    using holds_node [OF h] by simp
  have ng: "nodes st g = Some \<lparr>rb_parent = par_of k, rb_color = cg, rb_right = ptr_of u, rb_left = Some p\<rparr>"
    using holds_L [OF h] by simp
  have hu: "holds st (plug (R (Node ql p RB_RED qr) g cg # k) u)" using h by simp
  obtain st1 where st1: "set_color (ptr_of u) RB_BLACK st = Some st1" "holds st1 (plug (R (Node ql p RB_RED qr) g cg # k) (paint RB_BLACK u))"
    using paint_holds [OF hu u] by blast
  then have "holds st1 (plug (L g cg (paint RB_BLACK u) # k) (Node ql p RB_RED qr))" by simp
  from set_color_holds [OF this] obtain st2 where
    st2: "set_color (Some p) RB_BLACK st1 = Some st2" "holds st2 (plug (L g cg (paint RB_BLACK u) # k) (Node ql p RB_BLACK qr))" by blast
  obtain st3 where st3: "set_color (Some g) RB_RED st2 = Some st3" "holds st3 (plug k (Node (Node ql p RB_BLACK qr) g RB_RED (paint RB_BLACK u)))"
    using set_color_holds [of st2 k "Node ql p RB_BLACK qr" g cg "paint RB_BLACK u"] st2(2) unfolding plug.simps by blast
  have ru: "is_red (ptr_of u) st = Some True" using is_red_holds [OF hu] u by simp
  have rp: "is_red (Some p) st = Some True" using np by (simp add: is_red_def)
  have "rb_insert_loop (Some x) st = rb_insert_loop (Some g) st3"
    by (subst rb_insert_loop.simps) (simp add: n np ng ru rp st1(1) st2(1) st3(1) del: modify_Some)
  then show ?thesis using st3(2) by blast
qed

lemma insert_red_uncle_right:
  assumes h: "holds st (plug (R u g cg # k) (Node ql p RB_RED qr))" and u: "red_root u"
    and n: "nodes st x = Some n" "rb_parent n = Some p"
  shows "\<exists>st'. rb_insert_loop (Some x) st = rb_insert_loop (Some g) st' \<and>
    holds st' (plug k (Node (paint RB_BLACK u) g RB_RED (Node ql p RB_BLACK qr)))"
proof -
  have np: "nodes st p = Some \<lparr>rb_parent = Some g, rb_color = RB_RED, rb_right = ptr_of qr, rb_left = ptr_of ql\<rparr>"
    using holds_node [OF h] by simp
  have ng: "nodes st g = Some \<lparr>rb_parent = par_of k, rb_color = cg, rb_right = Some p, rb_left = ptr_of u\<rparr>"
    using holds_R [OF h] by simp
  have hu: "holds st (plug (L g cg (Node ql p RB_RED qr) # k) u)" using h by simp
  have ne: "Some p \<noteq> ptr_of u" using h by (cases u) (simp_all add: holds_plug)
  obtain st1 where st1: "set_color (ptr_of u) RB_BLACK st = Some st1" "holds st1 (plug (L g cg (Node ql p RB_RED qr) # k) (paint RB_BLACK u))"
    using paint_holds [OF hu u] by blast
  then have "holds st1 (plug (R (paint RB_BLACK u) g cg # k) (Node ql p RB_RED qr))" by simp
  from set_color_holds [OF this] obtain st2 where
    st2: "set_color (Some p) RB_BLACK st1 = Some st2" "holds st2 (plug (R (paint RB_BLACK u) g cg # k) (Node ql p RB_BLACK qr))" by blast
  obtain st3 where st3: "set_color (Some g) RB_RED st2 = Some st3" "holds st3 (plug k (Node (paint RB_BLACK u) g RB_RED (Node ql p RB_BLACK qr)))"
    using set_color_holds [of st2 k "paint RB_BLACK u" g cg "Node ql p RB_BLACK qr"] st2(2) unfolding plug.simps by blast
  have ru: "is_red (ptr_of u) st = Some True" using is_red_holds [OF hu] u by simp
  have rp: "is_red (Some p) st = Some True" using np by (simp add: is_red_def)
  have "rb_insert_loop (Some x) st = rb_insert_loop (Some g) st3"
    by (subst rb_insert_loop.simps) (simp add: n np ng ru rp st1(1) st2(1) st3(1) ne del: modify_Some)
  then show ?thesis using st3(2) by blast
qed

lemma insert_single_left:
  assumes h: "holds st (plug (L g cg u # k) (Node t p RB_RED s))" and u: "\<not> red_root u"
    and t: "t = Node ta x ct tb"
  shows "\<exists>st'. rb_insert_loop (Some x) st = Some st' \<and> holds st' (plug k (Node t p RB_BLACK (Node s g RB_RED u)))"
proof -
  have nx: "nodes st x = Some \<lparr>rb_parent = Some p, rb_color = ct, rb_right = ptr_of tb, rb_left = ptr_of ta\<rparr>"
    using holds_node [of st "L p RB_RED s # L g cg u # k" ta x ct tb] h t by simp
  have np: "nodes st p = Some \<lparr>rb_parent = Some g, rb_color = RB_RED, rb_right = ptr_of s, rb_left = ptr_of t\<rparr>"
    using holds_node [OF h] by simp
  have ng: "nodes st g = Some \<lparr>rb_parent = par_of k, rb_color = cg, rb_right = ptr_of u, rb_left = Some p\<rparr>"
    using holds_L [OF h] by simp
  have "holds st (plug (R (Node t p RB_RED s) g cg # k) u)" using h by simp
  from is_red_holds [OF this] have ru: "is_red (ptr_of u) st = Some False" using u by simp
  have rp: "is_red (Some p) st = Some True" using np by (simp add: is_red_def)
  have ne: "ptr_of s \<noteq> Some x" "Some x \<noteq> ptr_of s" using h t by (cases s; simp add: holds_plug)+
  have nu: "Some p \<noteq> ptr_of u" using h by (cases u) (simp_all add: holds_plug)
  obtain st1 where st1: "set_color (Some p) RB_BLACK st = Some st1" "holds st1 (plug (L g cg u # k) (Node t p RB_BLACK s))"
    using set_color_holds [of st "L g cg u # k"] h by blast
  obtain st2 where st2: "set_color (Some g) RB_RED st1 = Some st2" "holds st2 (plug k (Node (Node t p RB_BLACK s) g RB_RED u))"
    using set_color_holds [of st1 k] st1(2) unfolding plug.simps by blast
  obtain st3 where st3: "rb_rotate_right (Some g) st2 = Some st3" "holds st3 (plug k (Node t p RB_BLACK (Node s g RB_RED u)))"
    using rotate_right_holds [of st2 k] st2(2) by blast
  have "rb_insert_loop (Some x) st3 = Some st3"
    by (rule insert_loop_stop [of st3 "L p RB_BLACK (Node s g RB_RED u) # k" "t"]) (use st3(2) t in auto)
  then have "rb_insert_loop (Some x) st = Some st3"
    by (subst rb_insert_loop.simps) (simp add: nx np ng ru rp  st1(1) st2(1) st3(1) ne nu t del: modify_Some)
  then show ?thesis using st3(2) by blast
qed

lemma insert_double_left:
  assumes h: "holds st (plug (L g cg u # k) (Node s p RB_RED t))" and u: "\<not> red_root u"
    and t: "t = Node ta x ct tb"
  shows "\<exists>st'. rb_insert_loop (Some x) st = Some st' \<and> holds st' (plug k (Node (Node s p RB_RED ta) x RB_BLACK (Node tb g RB_RED u)))"
proof -
  have nx: "nodes st x = Some \<lparr>rb_parent = Some p, rb_color = ct, rb_right = ptr_of tb, rb_left = ptr_of ta\<rparr>"
    using holds_node [of st "R s p RB_RED # L g cg u # k" ta x ct tb] h t by simp
  have np: "nodes st p = Some \<lparr>rb_parent = Some g, rb_color = RB_RED, rb_right = ptr_of t, rb_left = ptr_of s\<rparr>"
    using holds_node [OF h] by simp
  have ng: "nodes st g = Some \<lparr>rb_parent = par_of k, rb_color = cg, rb_right = ptr_of u, rb_left = Some p\<rparr>"
    using holds_L [OF h] by simp
  have "holds st (plug (R (Node s p RB_RED t) g cg # k) u)" using h by simp
  from is_red_holds [OF this] have ru: "is_red (ptr_of u) st = Some False" using u by simp
  have rp: "is_red (Some p) st = Some True" using np by (simp add: is_red_def)
  have ne: "ptr_of s \<noteq> Some x" "Some x \<noteq> ptr_of s" using h t by (cases s; simp add: holds_plug)+
  have nu: "Some p \<noteq> ptr_of u" using h by (cases u) (simp_all add: holds_plug)
  obtain st0 where st0: "rb_rotate_left (Some p) st = Some st0" "holds st0 (plug (L g cg u # k) (Node (Node s p RB_RED ta) x ct tb))"
    using rotate_left_holds [of st "L g cg u # k"] h t by blast
  obtain st1 where st1: "set_color (Some x) RB_BLACK st0 = Some st1" "holds st1 (plug (L g cg u # k) (Node (Node s p RB_RED ta) x RB_BLACK tb))"
    using set_color_holds [of st0 "L g cg u # k"] st0(2) by blast
  obtain st2 where st2: "set_color (Some g) RB_RED st1 = Some st2" "holds st2 (plug k (Node (Node (Node s p RB_RED ta) x RB_BLACK tb) g RB_RED u))"
    using set_color_holds [of st1 k] st1(2) unfolding plug.simps by blast
  obtain st3 where st3: "rb_rotate_right (Some g) st2 = Some st3" "holds st3 (plug k (Node (Node s p RB_RED ta) x RB_BLACK (Node tb g RB_RED u)))"
    using rotate_right_holds [of st2 k] st2(2) by blast
  have "rb_insert_loop (Some p) st3 = Some st3"
    by (rule insert_loop_stop [of st3 "L x RB_BLACK (Node tb g RB_RED u) # k" "Node s p RB_RED ta"]) (use st3(2) t in auto)
  then have "rb_insert_loop (Some x) st = Some st3"
    by (subst rb_insert_loop.simps) (simp add: nx np ng ru rp st0(1) st1(1) st2(1) st3(1) ne nu t del: modify_Some)
  then show ?thesis using st3(2) by blast
qed

lemma insert_single_right:
  assumes h: "holds st (plug (R u g cg # k) (Node s p RB_RED t))" and u: "\<not> red_root u"
    and t: "t = Node ta x ct tb"
  shows "\<exists>st'. rb_insert_loop (Some x) st = Some st' \<and> holds st' (plug k (Node (Node u g RB_RED s) p RB_BLACK t))"
proof -
  have nx: "nodes st x = Some \<lparr>rb_parent = Some p, rb_color = ct, rb_right = ptr_of tb, rb_left = ptr_of ta\<rparr>"
    using holds_node [of st "R s p RB_RED # R u g cg # k" ta x ct tb] h t by simp
  have np: "nodes st p = Some \<lparr>rb_parent = Some g, rb_color = RB_RED, rb_right = ptr_of t, rb_left = ptr_of s\<rparr>"
    using holds_node [OF h] by simp
  have ng: "nodes st g = Some \<lparr>rb_parent = par_of k, rb_color = cg, rb_right = Some p, rb_left = ptr_of u\<rparr>"
    using holds_R [OF h] by simp
  have "holds st (plug (L g cg (Node s p RB_RED t) # k) u)" using h by simp
  from is_red_holds [OF this] have ru: "is_red (ptr_of u) st = Some False" using u by simp
  have rp: "is_red (Some p) st = Some True" using np by (simp add: is_red_def)
  have ne: "ptr_of s \<noteq> Some x" "Some x \<noteq> ptr_of s" using h t by (cases s; simp add: holds_plug)+
  have nu: "Some p \<noteq> ptr_of u" using h by (cases u) (simp_all add: holds_plug)
  obtain st1 where st1: "set_color (Some p) RB_BLACK st = Some st1" "holds st1 (plug (R u g cg # k) (Node s p RB_BLACK t))"
    using set_color_holds [of st "R u g cg # k"] h by blast
  obtain st2 where st2: "set_color (Some g) RB_RED st1 = Some st2" "holds st2 (plug k (Node u g RB_RED (Node s p RB_BLACK t)))"
    using set_color_holds [of st1 k] st1(2) unfolding plug.simps by blast
  obtain st3 where st3: "rb_rotate_left (Some g) st2 = Some st3" "holds st3 (plug k (Node (Node u g RB_RED s) p RB_BLACK t))"
    using rotate_left_holds [of st2 k] st2(2) by blast
  have "rb_insert_loop (Some x) st3 = Some st3"
    by (rule insert_loop_stop [of st3 "R (Node u g RB_RED s) p RB_BLACK # k" "t"]) (use st3(2) t in auto)
  then have "rb_insert_loop (Some x) st = Some st3"
    by (subst rb_insert_loop.simps) (simp add: nx np ng ru rp  st1(1) st2(1) st3(1) ne nu t del: modify_Some)
  then show ?thesis using st3(2) by blast
qed

lemma insert_double_right:
  assumes h: "holds st (plug (R u g cg # k) (Node t p RB_RED s))" and u: "\<not> red_root u"
    and t: "t = Node ta x ct tb"
  shows "\<exists>st'. rb_insert_loop (Some x) st = Some st' \<and> holds st' (plug k (Node (Node u g RB_RED ta) x RB_BLACK (Node tb p RB_RED s)))"
proof -
  have nx: "nodes st x = Some \<lparr>rb_parent = Some p, rb_color = ct, rb_right = ptr_of tb, rb_left = ptr_of ta\<rparr>"
    using holds_node [of st "L p RB_RED s # R u g cg # k" ta x ct tb] h t by simp
  have np: "nodes st p = Some \<lparr>rb_parent = Some g, rb_color = RB_RED, rb_right = ptr_of s, rb_left = ptr_of t\<rparr>"
    using holds_node [OF h] by simp
  have ng: "nodes st g = Some \<lparr>rb_parent = par_of k, rb_color = cg, rb_right = Some p, rb_left = ptr_of u\<rparr>"
    using holds_R [OF h] by simp
  have "holds st (plug (L g cg (Node t p RB_RED s) # k) u)" using h by simp
  from is_red_holds [OF this] have ru: "is_red (ptr_of u) st = Some False" using u by simp
  have rp: "is_red (Some p) st = Some True" using np by (simp add: is_red_def)
  have ne: "ptr_of s \<noteq> Some x" "Some x \<noteq> ptr_of s" using h t by (cases s; simp add: holds_plug)+
  have nu: "Some p \<noteq> ptr_of u" using h by (cases u) (simp_all add: holds_plug)
  obtain st0 where st0: "rb_rotate_right (Some p) st = Some st0" "holds st0 (plug (R u g cg # k) (Node ta x ct (Node tb p RB_RED s)))"
    using rotate_right_holds [of st "R u g cg # k"] h t by blast
  obtain st1 where st1: "set_color (Some x) RB_BLACK st0 = Some st1" "holds st1 (plug (R u g cg # k) (Node ta x RB_BLACK (Node tb p RB_RED s)))"
    using set_color_holds [of st0 "R u g cg # k"] st0(2) by blast
  obtain st2 where st2: "set_color (Some g) RB_RED st1 = Some st2" "holds st2 (plug k (Node u g RB_RED (Node ta x RB_BLACK (Node tb p RB_RED s))))"
    using set_color_holds [of st1 k] st1(2) unfolding plug.simps by blast
  obtain st3 where st3: "rb_rotate_left (Some g) st2 = Some st3" "holds st3 (plug k (Node (Node u g RB_RED ta) x RB_BLACK (Node tb p RB_RED s)))"
    using rotate_left_holds [of st2 k] st2(2) by blast
  have "rb_insert_loop (Some p) st3 = Some st3"
    by (rule insert_loop_stop [of st3 "R (Node u g RB_RED ta) x RB_BLACK # k" "Node tb p RB_RED s"]) (use st3(2) t in auto)
  then have "rb_insert_loop (Some x) st = Some st3"
    by (subst rb_insert_loop.simps) (simp add: nx np ng ru rp st0(1) st1(1) st2(1) st3(1) ne nu t del: modify_Some)
  then show ?thesis using st3(2) by blast
qed

lemma insert_loop_holds:
  assumes "holds st (plug k t)" "ptr_of t = Some x" "black_top k"
  shows "\<exists>st'. rb_insert_loop (Some x) st = Some st' \<and> holds st' (ins_fix k t)"
  using assms
proof (induction k t arbitrary: st x rule: ins_fix.induct)
  case (1 p s g cg u k t)
  obtain ta ct tb where t: "t = Node ta x ct tb" using 1(3) by (cases t) auto
  show ?case
  proof (cases "red_root u")
    case True
    obtain st' where st': "rb_insert_loop (Some x) st = rb_insert_loop (Some g) st'"
        "holds st' (plug k (Node (Node t p RB_BLACK s) g RB_RED (paint RB_BLACK u)))"
      using insert_red_uncle_left [of st g cg u k t p s x] holds_node [of st "L p RB_RED s # L g cg u # k" ta x ct tb] 1(2) True t by auto
    from 1(1) [OF True st'(2)] show ?thesis using st'(1) True black_top_Cons(1) 1(4) by (metis ins_fix.simps(1) ptr_of.simps(2))
  next
    case False
    then show ?thesis using insert_single_left [of st g cg u k t p s ta x ct tb] 1(2) t by simp
  qed
next
  case (2 s p g cg u k t)
  obtain ta ct tb where t: "t = Node ta x ct tb" using 2(3) by (cases t) auto
  show ?case
  proof (cases "red_root u")
    case True
    obtain st' where st': "rb_insert_loop (Some x) st = rb_insert_loop (Some g) st'"
        "holds st' (plug k (Node (Node s p RB_BLACK t) g RB_RED (paint RB_BLACK u)))"
      using insert_red_uncle_left [of st g cg u k s p t x] holds_node [of st "R s p RB_RED # L g cg u # k" ta x ct tb] 2(2) True t by auto
    from 2(1) [OF True st'(2)] show ?thesis using st'(1) True black_top_Cons(1) 2(4) by (metis ins_fix.simps(2) ptr_of.simps(2))
  next
    case False
    then show ?thesis using insert_double_left [of st g cg u k s p t ta x ct tb] 2(2) t by simp
  qed
next
  case (3 s p u g cg k t)
  obtain ta ct tb where t: "t = Node ta x ct tb" using 3(3) by (cases t) auto
  show ?case
  proof (cases "red_root u")
    case True
    obtain st' where st': "rb_insert_loop (Some x) st = rb_insert_loop (Some g) st'"
        "holds st' (plug k (Node (paint RB_BLACK u) g RB_RED (Node s p RB_BLACK t)))"
      using insert_red_uncle_right [of st u g cg k s p t x] holds_node [of st "R s p RB_RED # R u g cg # k" ta x ct tb] 3(2) True t by auto
    from 3(1) [OF True st'(2)] show ?thesis using st'(1) True black_top_Cons(1) 3(4) by (metis ins_fix.simps(3) ptr_of.simps(2))
  next
    case False
    then show ?thesis using insert_single_right [of st u g cg k s p t ta x ct tb] 3(2) t by simp
  qed
next
  case (4 p s u g cg k t)
  obtain ta ct tb where t: "t = Node ta x ct tb" using 4(3) by (cases t) auto
  show ?case
  proof (cases "red_root u")
    case True
    obtain st' where st': "rb_insert_loop (Some x) st = rb_insert_loop (Some g) st'"
        "holds st' (plug k (Node (paint RB_BLACK u) g RB_RED (Node t p RB_BLACK s)))"
      using insert_red_uncle_right [of st u g cg k t p s x] holds_node [of st "L p RB_RED s # R u g cg # k" ta x ct tb] 4(2) True t by auto
    from 4(1) [OF True st'(2)] show ?thesis using st'(1) True black_top_Cons(1) 4(4) by (metis ins_fix.simps(4) ptr_of.simps(2))
  next
    case False
    then show ?thesis using insert_double_right [of st u g cg k t p s ta x ct tb] 4(2) t by simp
  qed
qed (simp only: ins_fix.simps; rule insert_loop_stop_ex; (assumption | simp add: black_top_def))+

section \<open>The invariants of a red-black tree\<close>

fun bal :: "nat \<Rightarrow> tree \<Rightarrow> bool" where
  "bal n Leaf \<longleftrightarrow> n = 0"
| "bal n (Node l a RB_RED r) \<longleftrightarrow> bal n l \<and> bal n r"
| "bal n (Node l a RB_BLACK r) \<longleftrightarrow> (case n of 0 \<Rightarrow> False | Suc m \<Rightarrow> bal m l \<and> bal m r)"

fun nored :: "tree \<Rightarrow> bool" where
  "nored Leaf = True"
| "nored (Node l a c r) \<longleftrightarrow> nored l \<and> nored r \<and> (c = RB_RED \<longrightarrow> \<not> red_root l \<and> \<not> red_root r)"

definition rb_inv :: "tree \<Rightarrow> bool" where
  "rb_inv t \<longleftrightarrow> nored t \<and> (\<exists>n. bal n t) \<and> \<not> red_root t"

text \<open>
  The same for a context: \<open>cbal n k m\<close> gives height \<open>m\<close> to the whole for height \<open>n\<close> in the hole, and
  \<open>cred k b\<close> allows a hole with red root when \<open>b\<close>.
\<close>

fun cbal :: "nat \<Rightarrow> ctx \<Rightarrow> nat \<Rightarrow> bool" where
  "cbal n [] m \<longleftrightarrow> n = m"
| "cbal n (L a RB_RED r # k) m \<longleftrightarrow> bal n r \<and> cbal n k m"
| "cbal n (L a RB_BLACK r # k) m \<longleftrightarrow> bal n r \<and> cbal (Suc n) k m"
| "cbal n (R l a RB_RED # k) m \<longleftrightarrow> bal n l \<and> cbal n k m"
| "cbal n (R l a RB_BLACK # k) m \<longleftrightarrow> bal n l \<and> cbal (Suc n) k m"

fun cred :: "ctx \<Rightarrow> bool \<Rightarrow> bool" where
  "cred [] b = True"
| "cred (L a c r # k) b \<longleftrightarrow> nored r \<and> (c = RB_RED \<longrightarrow> \<not> red_root r \<and> \<not> b) \<and> cred k (c = RB_RED)"
| "cred (R l a c # k) b \<longleftrightarrow> nored l \<and> (c = RB_RED \<longrightarrow> \<not> red_root l \<and> \<not> b) \<and> cred k (c = RB_RED)"

lemma bal_black: "bal n (Node l a RB_BLACK r) \<longleftrightarrow> (\<exists>m. n = Suc m \<and> bal m l \<and> bal m r)"
  by (cases n) simp_all

declare bal.simps(3) [simp del] bal_black [simp]

lemma bal_plug: "bal m (plug k t) \<longleftrightarrow> (\<exists>n. cbal n k m \<and> bal n t)"
proof (induction k t rule: plug.induct)
  case (2 a c r k t)
  then show ?case by (cases c) auto
next
  case (3 l a c k t)
  then show ?case by (cases c) auto
qed auto

lemma nored_plug: "nored (plug k t) \<longleftrightarrow> nored t \<and> cred k (red_root t)"
  by (induction k t rule: plug.induct) auto

lemma red_root_plug: "red_root (plug k t) = (if k = [] then red_root t else frame_color (last k) = RB_RED)"
  by (induction k t rule: plug.induct) auto

lemma cred_mono: "cred k b \<Longrightarrow> (b' \<Longrightarrow> b) \<Longrightarrow> cred k b'"
  by (cases k; cases "hd k") auto

lemma bal_paint:
  "bal n (paint RB_BLACK t) \<longleftrightarrow> (if red_root t then (\<exists>m. n = Suc m \<and> bal m t) else bal n t)"
proof (cases t)
  case (Node l a c r)
  then show ?thesis by (cases c) auto
qed simp

lemma nored_paint: "nored t \<Longrightarrow> nored (paint RB_BLACK t)"
  by (cases t) auto

lemma paint_simps [simp]: "red_root (paint RB_BLACK t) = False" "inorder (paint c t) = inorder t" "ptr_of (paint c t) = ptr_of t"
  by (cases t; simp)+

lemma paint_black: "\<not> red_root t \<Longrightarrow> paint RB_BLACK t = t"
  by (cases t; cases "red_root t") (auto intro: color.exhaust)

lemma inorder_ins_fix: "inorder (ins_fix k t) = before k @ inorder t @ after k \<or> t = Leaf"
  by (induction k t rule: ins_fix.induct) (auto simp: inorder_plug split: tree.splits)

text \<open>A subtree that fits its context gives a red-black tree.\<close>

lemma plug_inv:
  assumes "nored t" "bal n t" "cbal n k m" "cred k (red_root t)" "black_top k"
  shows "rb_inv (paint RB_BLACK (plug k t))"
proof -
  have p: "nored (plug k t)" "bal m (plug k t)" using assms by (auto simp: nored_plug bal_plug)
  have "\<exists>n. bal n (paint RB_BLACK (plug k t))" using p(2) by (auto simp: bal_paint)
  then show ?thesis using nored_paint [OF p(1)] by (simp add: rb_inv_def)
qed

lemma plug_inv_black:
  assumes "nored t" "bal n t" "cbal n k m" "cred k False" "black_top k" "k = [] \<or> frame_color (hd k) = RB_BLACK"
  shows "rb_inv (paint RB_BLACK (plug k t))"
proof (rule plug_inv [OF assms(1-3) _ assms(5)])
  show "cred k (red_root t)" using assms(4,6) by (cases k; cases "hd k") auto
qed

lemma ins_fix_inv:
  assumes "cred k False" "cbal n k m" "nored t" "bal n t" "red_root t" "black_top k"
  shows "rb_inv (paint RB_BLACK (ins_fix k t))"
  using assms
proof (induction k t arbitrary: n rule: ins_fix.induct)
  case (1 p s g cg u k t)
  then have cg: "cg = RB_BLACK" by (cases cg) auto
  note bt = black_top_Cons(1) [OF black_top_Cons(1) [OF "1.prems"(6)]]
  show ?case
  proof (cases "red_root u")
    case True
    show ?thesis using 1(1) [OF True, of "Suc n"] "1.prems" True bt cg by (simp add: bal_paint nored_paint)
  next
    case False
    then show ?thesis using plug_inv [of "Node t p RB_BLACK (Node s g RB_RED u)" "Suc n" k m] "1.prems" bt cg by auto
  qed
next
  case (2 s p g cg u k t)
  then have cg: "cg = RB_BLACK" by (cases cg) auto
  note bt = black_top_Cons(1) [OF black_top_Cons(1) [OF "2.prems"(6)]]
  obtain ta x tb where t: "t = Node ta x RB_RED tb" using "2.prems"(5) by (cases t) auto
  show ?case
  proof (cases "red_root u")
    case True
    show ?thesis using 2(1) [OF True, of "Suc n"] "2.prems" True bt cg by (simp add: bal_paint nored_paint)
  next
    case False
    then show ?thesis using plug_inv [of "Node (Node s p RB_RED ta) x RB_BLACK (Node tb g RB_RED u)" "Suc n" k m] "2.prems" bt cg t by auto
  qed
next
  case (3 s p u g cg k t)
  then have cg: "cg = RB_BLACK" by (cases cg) auto
  note bt = black_top_Cons(1) [OF black_top_Cons(1) [OF "3.prems"(6)]]
  show ?case
  proof (cases "red_root u")
    case True
    show ?thesis using 3(1) [OF True, of "Suc n"] "3.prems" True bt cg by (simp add: bal_paint nored_paint)
  next
    case False
    then show ?thesis using plug_inv [of "Node (Node u g RB_RED s) p RB_BLACK t" "Suc n" k m] "3.prems" bt cg by auto
  qed
next
  case (4 p s u g cg k t)
  then have cg: "cg = RB_BLACK" by (cases cg) auto
  note bt = black_top_Cons(1) [OF black_top_Cons(1) [OF "4.prems"(6)]]
  obtain ta x tb where t: "t = Node ta x RB_RED tb" using "4.prems"(5) by (cases t) auto
  show ?case
  proof (cases "red_root u")
    case True
    show ?thesis using 4(1) [OF True, of "Suc n"] "4.prems" True bt cg by (simp add: bal_paint nored_paint)
  next
    case False
    then show ?thesis using plug_inv [of "Node (Node u g RB_RED ta) x RB_BLACK (Node tb p RB_RED s)" "Suc n" k m] "4.prems" bt cg t by auto
  qed
qed (simp only: ins_fix.simps; rule plug_inv_black; (assumption | simp add: black_top_def))+

section \<open>Linking and inserting\<close>

fun link_of :: "ctx \<Rightarrow> rb_link" where
  "link_of [] = Link_root"
| "link_of (L a c r # k) = Link_left a"
| "link_of (R l a c # k) = Link_right a"

lemma link_holds:
  assumes "holds st (plug k Leaf)" "x \<notin> set (inorder (plug k Leaf))" "nodes st x \<noteq> None"
  shows "\<exists>st'. rb_link_node (Some x) (par_of k) (link_of k) st = Some st' \<and> holds st' (plug k (Node Leaf x RB_RED Leaf))"
proof (cases k)
  case Nil
  then show ?thesis using assms by (auto simp: rb_link_node_def holds_def)
next
  case (Cons f k')
  then show ?thesis using assms
    by (cases f) (auto simp: rb_link_node_def holds_plug inorder_plug)
qed

lemma insert_holds:
  assumes "holds st (plug k Leaf)" "rb_inv (plug k Leaf)" "x \<notin> set (inorder (plug k Leaf))" "nodes st x \<noteq> None"
  shows "\<exists>st1 st' t'. rb_link_node (Some x) (par_of k) (link_of k) st = Some st1 \<and> rb_insert_color (Some x) st1 = Some st'
    \<and> holds st' t' \<and> rb_inv t' \<and> inorder t' = before k @ x # after k"
proof -
  let ?n = "Node Leaf x RB_RED Leaf"
  obtain st1 where st1: "rb_link_node (Some x) (par_of k) (link_of k) st = Some st1" "holds st1 (plug k ?n)"
    using link_holds [OF assms(1,3,4)] by blast
  have bt: "black_top k" using assms(2) by (auto simp: rb_inv_def red_root_plug black_top_def split: if_splits intro: color.exhaust)
  obtain st2 where st2: "rb_insert_loop (Some x) st1 = Some st2" "holds st2 (ins_fix k ?n)"
    using insert_loop_holds [OF st1(2) _ bt] by auto
  have io: "inorder (ins_fix k ?n) = before k @ x # after k" using inorder_ins_fix [of k ?n] by simp
  then obtain l a c r where t: "ins_fix k ?n = Node l a c r" by (cases "ins_fix k ?n") auto
  obtain st' where st': "set_color (root_node st2) RB_BLACK st2 = Some st'" "holds st' (paint RB_BLACK (ins_fix k ?n))"
    using set_color_holds [of st2 "[]" l a c r RB_BLACK] st2(2) t by (auto simp: holds_def)
  have "cred k False" "\<exists>m. cbal 0 k m" using assms(2) by (auto simp: rb_inv_def nored_plug bal_plug)
  then have "rb_inv (paint RB_BLACK (ins_fix k ?n))" using ins_fix_inv [of k 0 _ ?n] bt by auto
  moreover have "rb_insert_color (Some x) st1 = Some st'" using st2(1) st'(1) by (simp add: rb_insert_color_def)
  ultimately show ?thesis using st1(1) st'(2) io by (metis paint_simps(2))
qed

end
