(* ===== verification/Rbtree_Erase.thy ===== *)
theory Rbtree_Erase
  imports Rbtree
begin

text \<open>
  Removal from the red-black trees of \<^verbatim>\<open>public/check/rbtree.cc\<close>: \<open>rb_erase\<close> with its repair loop
  \<open>__rb_erase_color\<close>, followed on trees with a hole (a context of frames and the subtree in it),
  then the walks \<open>rb_first\<close>, \<open>rb_last\<close>, \<open>rb_next\<close>, \<open>rb_prev\<close> and \<open>rb_replace_node\<close>, and the two
  correctness theorems. The definitions are in \<open>Rbtree\<close>.
\<close>

section \<open>Taking a node out\<close>

lemma unlink_holds:
  assumes "holds st (plug k (Node l x c r))" "l = Leaf \<and> d = r \<or> r = Leaf \<and> d = l"
  shows "\<exists>s1 s2. set_parent_if (ptr_of d) (par_of k) st = Some s1 \<and> relink (par_of k) (Some x) (ptr_of d) s1 = Some s2
    \<and> holds s2 (plug k d) \<and> nodes s2 x = nodes st x"
proof (cases k)
  case Nil
  then show ?thesis using assms by (cases d) (auto simp: holds_def set_parent_if_def relink_def)
next
  case (Cons f k')
  show ?thesis
  proof (cases f)
    case (L p cp s)
    then show ?thesis using assms Cons by (cases d) (auto simp: holds_plug set_parent_if_def relink_def)
  next
    case (R s p cp)
    have "ptr_of s \<noteq> Some x" "Some x \<noteq> ptr_of s" using assms(1) Cons R by (cases s; simp add: holds_plug)+
    then show ?thesis using assms Cons R by (cases d) (auto simp: holds_plug set_parent_if_def relink_def)
  qed
qed

text \<open>Putting a node outside of the tree into the place of one in it.\<close>

lemma reparent_tree:
  assumes "tree_at m p t" "distinct (inorder t)"
  shows "tree_at (case t of Leaf \<Rightarrow> m | Node _ a _ _ \<Rightarrow> m(a := map_option (\<lambda>n. n\<lparr>rb_parent := q\<rparr>) (m a))) q t"
  using assms by (cases t) auto

lemma replace_holds:
  assumes "holds st (plug k (Node l x c r))" "y \<notin> set (inorder (plug k (Node l x c r)))" "nodes st y \<noteq> None"
  shows "\<exists>s1 s2 s3 s4. relink (par_of k) (Some x) (Some y) st = Some s1
    \<and> set_parent_if (ptr_of l) (Some y) s1 = Some s2 \<and> set_parent_if (ptr_of r) (Some y) s2 = Some s3
    \<and> nodes s3 x = nodes st x \<and> nodes s3 y = nodes st y
    \<and> modify (Some y) (\<lambda>_. \<lparr>rb_parent = par_of k, rb_color = c, rb_right = ptr_of r, rb_left = ptr_of l\<rparr>) s3 = Some s4
    \<and> holds s4 (plug k (Node l y c r))"
proof (cases k)
  case Nil
  then show ?thesis using assms by (cases l; cases r) (auto simp: holds_def set_parent_if_def relink_def)
next
  case (Cons f k')
  show ?thesis
  proof (cases f)
    case (L p cp s)
    then show ?thesis using assms Cons by (cases l; cases r) (auto simp: holds_plug inorder_plug set_parent_if_def relink_def)
  next
    case (R s p cp)
    have "ptr_of s \<noteq> Some x" "Some x \<noteq> ptr_of s" using assms(1) Cons R by (cases s; simp add: holds_plug)+
    then show ?thesis using assms Cons R by (cases l; cases r) (auto simp: holds_plug inorder_plug set_parent_if_def relink_def)
  qed
qed

lemma take_place_holds:
  assumes "holds st (plug k (Node l x c r))" "y \<notin> set (inorder (plug k (Node l x c r)))" "nodes st y \<noteq> None" "l \<noteq> Leaf"
  shows "\<exists>s1 s2 s3 s4 s5 s6 s7. set_parent (Some y) (par_of k) st = Some s1 \<and> set_color (Some y) c s1 = Some s2
    \<and> set_right (Some y) (ptr_of r) s2 = Some s3 \<and> set_left (Some y) (ptr_of l) s3 = Some s4
    \<and> relink (par_of k) (Some x) (Some y) s4 = Some s5
    \<and> set_parent (ptr_of l) (Some y) s5 = Some s6 \<and> set_parent_if (ptr_of r) (Some y) s6 = Some s7
    \<and> holds s7 (plug k (Node l y c r))"
proof (cases k)
  case Nil
  then show ?thesis using assms by (cases l; cases r) (auto simp: holds_def set_parent_if_def relink_def)
next
  case (Cons f k')
  show ?thesis
  proof (cases f)
    case (L p cp s)
    then show ?thesis using assms Cons by (cases l; cases r) (auto simp: holds_plug inorder_plug set_parent_if_def relink_def)
  next
    case (R s p cp)
    have "ptr_of s \<noteq> Some x" "Some x \<noteq> ptr_of s" using assms(1) Cons R by (cases s; simp add: holds_plug)+
    then show ?thesis using assms Cons R by (cases l; cases r) (auto simp: holds_plug inorder_plug set_parent_if_def relink_def)
  qed
qed

section \<open>The removal loop on trees\<close>

text \<open>
  The round at the parent \<open>p\<close> of colour \<open>c\<close> of a left node \<open>t\<close>, with the sibling \<open>oa\<close>: the tree that
  replaces the parent when the loop ends there; and its mirror image.
\<close>

definition fin_left :: "tree \<Rightarrow> nat \<Rightarrow> color \<Rightarrow> tree \<Rightarrow> nat \<Rightarrow> tree \<Rightarrow> tree" where
  "fin_left t p c ol oa orr =
     (if red_root orr then Node (Node t p RB_BLACK ol) oa c (paint RB_BLACK orr)
      else case ol of Leaf \<Rightarrow> Leaf
        | Node a b _ d \<Rightarrow> Node (Node t p RB_BLACK a) b c (Node d oa RB_BLACK orr))"

definition fin_right :: "tree \<Rightarrow> nat \<Rightarrow> color \<Rightarrow> tree \<Rightarrow> nat \<Rightarrow> tree \<Rightarrow> tree" where
  "fin_right t p c ol oa orr =
     (if red_root ol then Node (paint RB_BLACK ol) oa c (Node orr p RB_BLACK t)
      else case orr of Leaf \<Rightarrow> Leaf
        | Node a b _ d \<Rightarrow> Node (Node ol oa RB_BLACK a) b c (Node d p RB_BLACK t))"

lemma set_color_if_holds:
  assumes "holds st (plug k t)"
  shows "\<exists>st'. set_color_if (ptr_of t) c st = Some st' \<and> holds st' (plug k (paint c t))"
  using assms set_color_holds [of st k] by (cases t) (auto simp: set_color_if_def simp del: modify_Some)

lemma erase_left_rest_on:
  assumes h: "holds st (plug (L p c (Node ol oa co orr) # k) t)" and b: "\<not> red_root ol" "\<not> red_root orr"
  shows "\<exists>st'. erase_left_rest (Some p) st = Some (True, st') \<and> holds st' (plug (L p c (Node ol oa RB_RED orr) # k) t)"
proof -
  have np: "nodes st p = Some \<lparr>rb_parent = par_of k, rb_color = c, rb_right = Some oa, rb_left = ptr_of t\<rparr>"
    using holds_L [OF h] by simp
  have h1: "holds st (plug (R t p c # k) (Node ol oa co orr))" using h by simp
  note no = holds_node [OF h1]
  have rl: "is_red (ptr_of ol) st = Some False" using is_red_holds [of st "L oa co orr # R t p c # k" ol] h1 b by simp
  have rr: "is_red (ptr_of orr) st = Some False" using is_red_holds [of st "R ol oa co # R t p c # k" orr] h1 b by simp
  obtain st' where "set_color (Some oa) RB_RED st = Some st'" "holds st' (plug (R t p c # k) (Node ol oa RB_RED orr))"
    using set_color_holds [OF h1] by blast
  then show ?thesis using np no rl rr by (simp add: erase_left_rest_def del: modify_Some)
qed

lemma erase_left_rest_far:
  assumes h: "holds st (plug (L p c (Node ol oa co orr) # k) t)" and rr: "red_root orr"
  shows "\<exists>st'. erase_left_rest (Some p) st = Some (False, st') \<and> holds st' (plug k (fin_left t p c ol oa orr))"
proof -
  have np: "nodes st p = Some \<lparr>rb_parent = par_of k, rb_color = c, rb_right = Some oa, rb_left = ptr_of t\<rparr>"
    using holds_L [OF h] by simp
  have h1: "holds st (plug (R t p c # k) (Node ol oa co orr))" using h by simp
  note no = holds_node [OF h1]
  have rl: "is_red (ptr_of ol) st = Some (red_root ol)" using is_red_holds [of st "L oa co orr # R t p c # k" ol] h1 by simp
  have rr': "is_red (ptr_of orr) st = Some True" using is_red_holds [of st "R ol oa co # R t p c # k" orr] h1 rr by simp
  obtain s1 where s1: "set_color (Some oa) c st = Some s1" "holds s1 (plug (R t p c # k) (Node ol oa c orr))"
    using set_color_holds [OF h1] by blast
  then have "holds s1 (plug k (Node t p c (Node ol oa c orr)))" by simp
  from set_color_holds [OF this] obtain s2 where
    s2: "set_color (Some p) RB_BLACK s1 = Some s2" "holds s2 (plug k (Node t p RB_BLACK (Node ol oa c orr)))" by blast
  then have h2: "holds s2 (plug (R ol oa c # R t p RB_BLACK # k) orr)" by simp
  have no2: "nodes s2 oa = Some \<lparr>rb_parent = Some p, rb_color = c, rb_right = ptr_of orr, rb_left = ptr_of ol\<rparr>"
    using holds_R [OF h2] by simp
  obtain s3 where s3: "set_color_if (ptr_of orr) RB_BLACK s2 = Some s3" "holds s3 (plug k (Node t p RB_BLACK (Node ol oa c (paint RB_BLACK orr))))"
    using set_color_if_holds [OF h2, of RB_BLACK] by auto
  from rotate_left_holds [OF s3(2)] obtain s4 where
    s4: "rb_rotate_left (Some p) s3 = Some s4" "holds s4 (plug k (Node (Node t p RB_BLACK ol) oa c (paint RB_BLACK orr)))" by blast
  have "erase_left_rest (Some p) st = Some (False, s4)"
    using np no rl rr' s1(1) s2(1) no2 s3(1) s4(1) by (simp add: erase_left_rest_def del: modify_Some)
  then show ?thesis using s4(2) rr by (auto simp: fin_left_def)
qed

lemma erase_left_rest_near:
  assumes h: "holds st (plug (L p c (Node (Node a b RB_RED d) oa co orr) # k) t)" and rr: "\<not> red_root orr"
  shows "\<exists>st'. erase_left_rest (Some p) st = Some (False, st') \<and> holds st' (plug k (fin_left t p c (Node a b RB_RED d) oa orr))"
proof -
  let ?ol = "\<lambda>c. Node a b c d"
  have np: "nodes st p = Some \<lparr>rb_parent = par_of k, rb_color = c, rb_right = Some oa, rb_left = ptr_of t\<rparr>"
    using holds_L [OF h] by simp
  have h1: "holds st (plug (R t p c # k) (Node (?ol RB_RED) oa co orr))" using h by simp
  note no = holds_node [OF h1]
  have h1': "holds st (plug (L oa co orr # R t p c # k) (?ol RB_RED))" using h by simp
  have rl: "is_red (Some b) st = Some True" using is_red_holds [OF h1'] by simp
  have rr': "is_red (ptr_of orr) st = Some False" using is_red_holds [of st "R (?ol RB_RED) oa co # R t p c # k" orr] h1 rr by simp
  obtain s1 where s1: "set_color_if (Some b) RB_BLACK st = Some s1" "holds s1 (plug (R t p c # k) (Node (?ol RB_BLACK) oa co orr))"
    using set_color_if_holds [OF h1', of RB_BLACK] by auto
  obtain s2 where s2: "set_color (Some oa) RB_RED s1 = Some s2" "holds s2 (plug (R t p c # k) (Node (?ol RB_BLACK) oa RB_RED orr))"
    using set_color_holds [OF s1(2)] by blast
  from rotate_right_holds [OF s2(2)] obtain s3 where
    s3: "rb_rotate_right (Some oa) s2 = Some s3" "holds s3 (plug (R t p c # k) (Node a b RB_BLACK (Node d oa RB_RED orr)))" by blast
  have np3: "nodes s3 p = Some \<lparr>rb_parent = par_of k, rb_color = c, rb_right = Some b, rb_left = ptr_of t\<rparr>"
    using holds_R [OF s3(2)] by simp
  obtain s4 where s4: "set_color (Some b) c s3 = Some s4" "holds s4 (plug (R t p c # k) (Node a b c (Node d oa RB_RED orr)))"
    using set_color_holds [OF s3(2)] by blast
  then have "holds s4 (plug k (Node t p c (Node a b c (Node d oa RB_RED orr))))" by simp
  from set_color_holds [OF this] obtain s5 where
    s5: "set_color (Some p) RB_BLACK s4 = Some s5" "holds s5 (plug k (Node t p RB_BLACK (Node a b c (Node d oa RB_RED orr))))" by blast
  then have h5: "holds s5 (plug (R a b c # R t p RB_BLACK # k) (Node d oa RB_RED orr))" by simp
  have no5: "nodes s5 b = Some \<lparr>rb_parent = Some p, rb_color = c, rb_right = Some oa, rb_left = ptr_of a\<rparr>"
    using holds_R [OF h5] by simp
  obtain s6 where s6: "set_color_if (Some oa) RB_BLACK s5 = Some s6"
      "holds s6 (plug k (Node t p RB_BLACK (Node a b c (Node d oa RB_BLACK orr))))"
    using set_color_if_holds [OF h5, of RB_BLACK] by auto
  from rotate_left_holds [OF s6(2)] obtain s7 where
    s7: "rb_rotate_left (Some p) s6 = Some s7" "holds s7 (plug k (Node (Node t p RB_BLACK a) b c (Node d oa RB_BLACK orr)))" by blast
  have "erase_left_rest (Some p) st = Some (False, s7)"
    using np no rl rr' s1(1) s2(1) s3(1) np3 s4(1) s5(1) no5 s6(1) s7(1) by (simp add: erase_left_rest_def del: modify_Some)
  then show ?thesis using s7(2) rr by (auto simp: fin_left_def)
qed

lemma erase_left_red:
  assumes h: "holds st (plug (L p c (Node ol oa RB_RED orr) # k) t)"
  shows "\<exists>st'. erase_left (Some p) st = erase_left_rest (Some p) st' \<and> holds st' (plug (L p RB_RED ol # L oa RB_BLACK orr # k) t)"
proof -
  have np: "nodes st p = Some \<lparr>rb_parent = par_of k, rb_color = c, rb_right = Some oa, rb_left = ptr_of t\<rparr>"
    using holds_L [OF h] by simp
  have h1: "holds st (plug (R t p c # k) (Node ol oa RB_RED orr))" using h by simp
  obtain s1 where s1: "set_color (Some oa) RB_BLACK st = Some s1" "holds s1 (plug (R t p c # k) (Node ol oa RB_BLACK orr))"
    using set_color_holds [OF h1] by blast
  then have "holds s1 (plug k (Node t p c (Node ol oa RB_BLACK orr)))" by simp
  from set_color_holds [OF this] obtain s2 where
    s2: "set_color (Some p) RB_RED s1 = Some s2" "holds s2 (plug k (Node t p RB_RED (Node ol oa RB_BLACK orr)))" by blast
  from rotate_left_holds [OF s2(2)] obtain s3 where
    s3: "rb_rotate_left (Some p) s2 = Some s3" "holds s3 (plug k (Node (Node t p RB_RED ol) oa RB_BLACK orr))" by blast
  have "erase_left (Some p) st = erase_left_rest (Some p) s3"
    using np holds_node [OF h1] s1(1) s2(1) s3(1) by (simp add: erase_left_def del: modify_Some)
  then show ?thesis using s3(2) by auto
qed

lemma erase_left_black:
  assumes h: "holds st (plug (L p c (Node ol oa RB_BLACK orr) # k) t)"
  shows "erase_left (Some p) st = erase_left_rest (Some p) st"
proof -
  have h1: "holds st (plug (R t p c # k) (Node ol oa RB_BLACK orr))" using h by simp
  show ?thesis using holds_L [OF h] holds_node [OF h1] by (simp add: erase_left_def)
qed

text \<open>The same for a right node.\<close>

lemma erase_right_rest_on:
  assumes h: "holds st (plug (R (Node ol oa co orr) p c # k) t)" and b: "\<not> red_root orr" "\<not> red_root ol"
  shows "\<exists>st'. erase_right_rest (Some p) st = Some (True, st') \<and> holds st' (plug (R (Node ol oa RB_RED orr) p c # k) t)"
proof -
  have np: "nodes st p = Some \<lparr>rb_parent = par_of k, rb_color = c, rb_right = ptr_of t, rb_left = Some oa\<rparr>"
    using holds_R [OF h] by simp
  have h1: "holds st (plug (L p c t # k) (Node ol oa co orr))" using h by simp
  note no = holds_node [OF h1]
  have rl: "is_red (ptr_of orr) st = Some False" using is_red_holds [of st "R ol oa co # L p c t # k" orr] h1 b by simp
  have rr: "is_red (ptr_of ol) st = Some False" using is_red_holds [of st "L oa co orr # L p c t # k" ol] h1 b by simp
  obtain st' where "set_color (Some oa) RB_RED st = Some st'" "holds st' (plug (L p c t # k) (Node ol oa RB_RED orr))"
    using set_color_holds [OF h1] by blast
  then show ?thesis using np no rl rr by (simp add: erase_right_rest_def del: modify_Some)
qed

lemma erase_right_rest_far:
  assumes h: "holds st (plug (R (Node ol oa co orr) p c # k) t)" and rr: "red_root ol"
  shows "\<exists>st'. erase_right_rest (Some p) st = Some (False, st') \<and> holds st' (plug k (fin_right t p c ol oa orr))"
proof -
  have np: "nodes st p = Some \<lparr>rb_parent = par_of k, rb_color = c, rb_right = ptr_of t, rb_left = Some oa\<rparr>"
    using holds_R [OF h] by simp
  have h1: "holds st (plug (L p c t # k) (Node ol oa co orr))" using h by simp
  note no = holds_node [OF h1]
  have rl: "is_red (ptr_of orr) st = Some (red_root orr)" using is_red_holds [of st "R ol oa co # L p c t # k" orr] h1 by simp
  have rr': "is_red (ptr_of ol) st = Some True" using is_red_holds [of st "L oa co orr # L p c t # k" ol] h1 rr by simp
  obtain s1 where s1: "set_color (Some oa) c st = Some s1" "holds s1 (plug (L p c t # k) (Node ol oa c orr))"
    using set_color_holds [OF h1] by blast
  then have "holds s1 (plug k (Node (Node ol oa c orr) p c t))" by simp
  from set_color_holds [OF this] obtain s2 where
    s2: "set_color (Some p) RB_BLACK s1 = Some s2" "holds s2 (plug k (Node (Node ol oa c orr) p RB_BLACK t))" by blast
  then have h2: "holds s2 (plug (L oa c orr # L p RB_BLACK t # k) ol)" by simp
  have no2: "nodes s2 oa = Some \<lparr>rb_parent = Some p, rb_color = c, rb_right = ptr_of orr, rb_left = ptr_of ol\<rparr>"
    using holds_L [OF h2] by simp
  obtain s3 where s3: "set_color_if (ptr_of ol) RB_BLACK s2 = Some s3" "holds s3 (plug k (Node (Node (paint RB_BLACK ol) oa c orr) p RB_BLACK t))"
    using set_color_if_holds [OF h2, of RB_BLACK] by auto
  from rotate_right_holds [OF s3(2)] obtain s4 where
    s4: "rb_rotate_right (Some p) s3 = Some s4" "holds s4 (plug k (Node (paint RB_BLACK ol) oa c (Node orr p RB_BLACK t)))" by blast
  have "erase_right_rest (Some p) st = Some (False, s4)"
    using np no rl rr' s1(1) s2(1) no2 s3(1) s4(1) by (simp add: erase_right_rest_def del: modify_Some)
  then show ?thesis using s4(2) rr by (auto simp: fin_right_def)
qed

lemma erase_right_rest_near:
  assumes h: "holds st (plug (R (Node ol oa co (Node d b RB_RED a)) p c # k) t)" and rr: "\<not> red_root ol"
  shows "\<exists>st'. erase_right_rest (Some p) st = Some (False, st') \<and> holds st' (plug k (fin_right t p c ol oa (Node d b RB_RED a)))"
proof -
  let ?orr = "\<lambda>c. Node d b c a"
  have np: "nodes st p = Some \<lparr>rb_parent = par_of k, rb_color = c, rb_right = ptr_of t, rb_left = Some oa\<rparr>"
    using holds_R [OF h] by simp
  have h1: "holds st (plug (L p c t # k) (Node ol oa co (?orr RB_RED)))" using h by simp
  note no = holds_node [OF h1]
  have h1': "holds st (plug (R ol oa co # L p c t # k) (?orr RB_RED))" using h by simp
  have rl: "is_red (Some b) st = Some True" using is_red_holds [OF h1'] by simp
  have rr': "is_red (ptr_of ol) st = Some False" using is_red_holds [of st "L oa co (?orr RB_RED) # L p c t # k" ol] h1 rr by simp
  obtain s1 where s1: "set_color_if (Some b) RB_BLACK st = Some s1" "holds s1 (plug (L p c t # k) (Node ol oa co (?orr RB_BLACK)))"
    using set_color_if_holds [OF h1', of RB_BLACK] by auto
  obtain s2 where s2: "set_color (Some oa) RB_RED s1 = Some s2" "holds s2 (plug (L p c t # k) (Node ol oa RB_RED (?orr RB_BLACK)))"
    using set_color_holds [OF s1(2)] by blast
  from rotate_left_holds [OF s2(2)] obtain s3 where
    s3: "rb_rotate_left (Some oa) s2 = Some s3" "holds s3 (plug (L p c t # k) (Node (Node ol oa RB_RED d) b RB_BLACK a))" by blast
  have np3: "nodes s3 p = Some \<lparr>rb_parent = par_of k, rb_color = c, rb_right = ptr_of t, rb_left = Some b\<rparr>"
    using holds_L [OF s3(2)] by simp
  obtain s4 where s4: "set_color (Some b) c s3 = Some s4" "holds s4 (plug (L p c t # k) (Node (Node ol oa RB_RED d) b c a))"
    using set_color_holds [OF s3(2)] by blast
  then have "holds s4 (plug k (Node (Node (Node ol oa RB_RED d) b c a) p c t))" by simp
  from set_color_holds [OF this] obtain s5 where
    s5: "set_color (Some p) RB_BLACK s4 = Some s5" "holds s5 (plug k (Node (Node (Node ol oa RB_RED d) b c a) p RB_BLACK t))" by blast
  then have h5: "holds s5 (plug (L b c a # L p RB_BLACK t # k) (Node ol oa RB_RED d))" by simp
  have no5: "nodes s5 b = Some \<lparr>rb_parent = Some p, rb_color = c, rb_right = ptr_of a, rb_left = Some oa\<rparr>"
    using holds_L [OF h5] by simp
  obtain s6 where s6: "set_color_if (Some oa) RB_BLACK s5 = Some s6"
      "holds s6 (plug k (Node (Node (Node ol oa RB_BLACK d) b c a) p RB_BLACK t))"
    using set_color_if_holds [OF h5, of RB_BLACK] by auto
  from rotate_right_holds [OF s6(2)] obtain s7 where
    s7: "rb_rotate_right (Some p) s6 = Some s7" "holds s7 (plug k (Node (Node ol oa RB_BLACK d) b c (Node a p RB_BLACK t)))" by blast
  have "erase_right_rest (Some p) st = Some (False, s7)"
    using np no rl rr' s1(1) s2(1) s3(1) np3 s4(1) s5(1) no5 s6(1) s7(1) by (simp add: erase_right_rest_def del: modify_Some)
  then show ?thesis using s7(2) rr by (auto simp: fin_right_def)
qed

lemma erase_right_red:
  assumes h: "holds st (plug (R (Node ol oa RB_RED orr) p c # k) t)"
  shows "\<exists>st'. erase_right (Some p) st = erase_right_rest (Some p) st' \<and> holds st' (plug (R orr p RB_RED # R ol oa RB_BLACK # k) t)"
proof -
  have np: "nodes st p = Some \<lparr>rb_parent = par_of k, rb_color = c, rb_right = ptr_of t, rb_left = Some oa\<rparr>"
    using holds_R [OF h] by simp
  have h1: "holds st (plug (L p c t # k) (Node ol oa RB_RED orr))" using h by simp
  obtain s1 where s1: "set_color (Some oa) RB_BLACK st = Some s1" "holds s1 (plug (L p c t # k) (Node ol oa RB_BLACK orr))"
    using set_color_holds [OF h1] by blast
  then have "holds s1 (plug k (Node (Node ol oa RB_BLACK orr) p c t))" by simp
  from set_color_holds [OF this] obtain s2 where
    s2: "set_color (Some p) RB_RED s1 = Some s2" "holds s2 (plug k (Node (Node ol oa RB_BLACK orr) p RB_RED t))" by blast
  from rotate_right_holds [OF s2(2)] obtain s3 where
    s3: "rb_rotate_right (Some p) s2 = Some s3" "holds s3 (plug k (Node ol oa RB_BLACK (Node orr p RB_RED t)))" by blast
  have "erase_right (Some p) st = erase_right_rest (Some p) s3"
    using np holds_node [OF h1] s1(1) s2(1) s3(1) by (simp add: erase_right_def del: modify_Some)
  then show ?thesis using s3(2) by auto
qed

lemma erase_right_black:
  assumes h: "holds st (plug (R (Node ol oa RB_BLACK orr) p c # k) t)"
  shows "erase_right (Some p) st = erase_right_rest (Some p) st"
proof -
  have h1: "holds st (plug (L p c t # k) (Node ol oa RB_BLACK orr))" using h by simp
  show ?thesis using holds_R [OF h] holds_node [OF h1] by (simp add: erase_right_def)
qed

text \<open>
  The whole loop, at a tree \<open>t\<close> that lacks one black node. With a red sibling it ends in the second
  round, since the parent has become red.
\<close>

fun del_fix :: "ctx \<Rightarrow> tree \<Rightarrow> tree" where
  "del_fix [] t = paint RB_BLACK t"
| "del_fix (L p c (Node ol oa co orr) # k) t =
     (if red_root t then plug (L p c (Node ol oa co orr) # k) (paint RB_BLACK t)
      else if co = RB_RED then
        case ol of Leaf \<Rightarrow> Leaf
        | Node ola oaa co' olb \<Rightarrow>
            if \<not> red_root ola \<and> \<not> red_root olb then plug (L oa RB_BLACK orr # k) (Node t p RB_BLACK (Node ola oaa RB_RED olb))
            else paint RB_BLACK (plug (L oa RB_BLACK orr # k) (fin_left t p RB_RED ola oaa olb))
      else if \<not> red_root ol \<and> \<not> red_root orr then del_fix k (Node t p c (Node ol oa RB_RED orr))
      else paint RB_BLACK (plug k (fin_left t p c ol oa orr)))"
| "del_fix (R (Node ol oa co orr) p c # k) t =
     (if red_root t then plug (R (Node ol oa co orr) p c # k) (paint RB_BLACK t)
      else if co = RB_RED then
        case orr of Leaf \<Rightarrow> Leaf
        | Node ola oaa co' olb \<Rightarrow>
            if \<not> red_root ola \<and> \<not> red_root olb then plug (R ol oa RB_BLACK # k) (Node (Node ola oaa RB_RED olb) p RB_BLACK t)
            else paint RB_BLACK (plug (R ol oa RB_BLACK # k) (fin_right t p RB_RED ola oaa olb))
      else if \<not> red_root ol \<and> \<not> red_root orr then del_fix k (Node (Node ol oa RB_RED orr) p c t)
      else paint RB_BLACK (plug k (fin_right t p c ol oa orr)))"
| "del_fix (f # k) t = plug (f # k) t"

lemma top_of_addr: "top_of (f # k) x \<in> Some ` set (ctx_addrs (f # k))"
proof (induction k arbitrary: f x)
  case Nil
  then show ?case by (cases f) auto
next
  case (Cons g k)
  from Cons [of g "Some (frame_addr f)"] show ?case by (cases f) auto
qed

lemma not_root:
  assumes "holds st (plug (f # k) t)" shows "ptr_of t \<noteq> root_node st"
proof
  assume "ptr_of t = root_node st"
  moreover have "root_node st \<in> Some ` set (ctx_addrs (f # k))"
    using assms top_of_addr [of f k "ptr_of t"] by (simp only: holds_plug)
  ultimately show False using assms unfolding holds_plug by (cases t) auto
qed

lemma erase_color_stop:
  assumes "holds st (plug k t)" "red_root t \<or> k = []"
  shows "\<exists>st'. rb_erase_color (ptr_of t) q st = Some st' \<and> holds st' (plug k (paint RB_BLACK t))"
proof -
  have "is_red (ptr_of t) st = Some (red_root t)" using is_red_holds [OF assms(1)] .
  moreover have "k = [] \<Longrightarrow> root_node st = ptr_of t" using assms(1) by (simp add: holds_def)
  ultimately have "rb_erase_loop (ptr_of t) q st = Some (ptr_of t, st)"
    using assms(2) by (subst rb_erase_loop.simps) auto
  then show ?thesis using set_color_if_holds [OF assms(1), of RB_BLACK] by (simp add: rb_erase_color_def)
qed

lemma paint_root_holds:
  assumes "holds st t"
  shows "\<exists>st'. set_color_if (root_node st) RB_BLACK st = Some st' \<and> holds st' (paint RB_BLACK t)"
  using set_color_if_holds [of st "[]" t RB_BLACK] assms by (simp add: holds_def)

text \<open>One round, when it ends the loop and when it goes on.\<close>

lemma erase_color_round:
  assumes h: "holds st (plug (f # k) t)" and t: "\<not> red_root t"
    and p: "nodes st (frame_addr f) = Some p" and e: "(if rb_left p = ptr_of t then erase_left (Some (frame_addr f)) st
        else erase_right (Some (frame_addr f)) st) = Some (go_on, st1)"
  shows "\<not> go_on \<Longrightarrow> holds st1 t' \<Longrightarrow>
      \<exists>st'. rb_erase_color (ptr_of t) (Some (frame_addr f)) st = Some st' \<and> holds st' (paint RB_BLACK t')"
    and "go_on \<Longrightarrow> nodes st1 (frame_addr f) = Some p1 \<Longrightarrow>
      rb_erase_color (ptr_of t) (Some (frame_addr f)) st = rb_erase_color (Some (frame_addr f)) (rb_parent p1) st1"
proof -
  have r: "is_red (ptr_of t) st = Some False" using is_red_holds [OF h] t by simp
  have loop: "rb_erase_loop (ptr_of t) (Some (frame_addr f)) st =
      (if go_on then Option.bind (nodes st1 (frame_addr f)) (\<lambda>p. rb_erase_loop (Some (frame_addr f)) (rb_parent p) st1)
       else Some (root_node st1, st1))"
    using r not_root [OF h] p e by (subst rb_erase_loop.simps) (simp cong: if_cong split del: if_split)
  show "go_on \<Longrightarrow> nodes st1 (frame_addr f) = Some p1 \<Longrightarrow>
      rb_erase_color (ptr_of t) (Some (frame_addr f)) st = rb_erase_color (Some (frame_addr f)) (rb_parent p1) st1"
    by (simp add: rb_erase_color_def loop)
  assume "\<not> go_on" "holds st1 t'"
  then show "\<exists>st'. rb_erase_color (ptr_of t) (Some (frame_addr f)) st = Some st' \<and> holds st' (paint RB_BLACK t')"
    using paint_root_holds [of st1 t'] loop by (simp add: rb_erase_color_def)
qed

lemma erase_left_rest_cases:
  assumes h: "holds st (plug (L p c (Node ol oa co orr) # k) t)"
  shows "\<exists>st'. erase_left_rest (Some p) st = Some (\<not> red_root ol \<and> \<not> red_root orr, st') \<and>
    holds st' (if \<not> red_root ol \<and> \<not> red_root orr then plug (L p c (Node ol oa RB_RED orr) # k) t else plug k (fin_left t p c ol oa orr))"
proof -
  consider "red_root orr" | "\<not> red_root orr" "\<not> red_root ol" | a b d where "\<not> red_root orr" "ol = Node a b RB_RED d"
    by (cases ol) auto
  then show ?thesis
  proof cases
    case 1
    then show ?thesis using erase_left_rest_far [OF h] by simp
  next
    case 2
    then show ?thesis using erase_left_rest_on [OF h] by simp
  next
    case 3
    then show ?thesis using erase_left_rest_near [OF h [unfolded 3(2)] 3(1)] by simp
  qed
qed

lemma erase_color_left:
  assumes h: "holds st (plug (L p c (Node ol oa co orr) # k) t)" and t: "\<not> red_root t"
    and ol: "co = RB_RED \<Longrightarrow> ol \<noteq> Leaf"
  shows "if co = RB_BLACK \<and> \<not> red_root ol \<and> \<not> red_root orr
     then \<exists>st1. rb_erase_color (ptr_of t) (Some p) st = rb_erase_color (Some p) (par_of k) st1 \<and>
       holds st1 (plug k (Node t p c (Node ol oa RB_RED orr)))
     else \<exists>st'. rb_erase_color (ptr_of t) (Some p) st = Some st' \<and> holds st' (del_fix (L p c (Node ol oa co orr) # k) t)"
proof (cases co)
  case RB_BLACK
  let ?on = "\<not> red_root ol \<and> \<not> red_root orr"
  obtain st1 where st1: "erase_left (Some p) st = Some (?on, st1)"
      "holds st1 (if ?on then plug (L p c (Node ol oa RB_RED orr) # k) t else plug k (fin_left t p c ol oa orr))"
    using erase_left_rest_cases [OF h] erase_left_black [OF h [unfolded RB_BLACK]] by auto
  note round = erase_color_round [OF h t, of _ ?on st1]
  show ?thesis
  proof (cases ?on)
    case True
    then have "holds st1 (plug (L p c (Node ol oa RB_RED orr) # k) t)" using st1(2) by simp
    from holds_L [OF this] have "rb_erase_color (ptr_of t) (Some p) st = rb_erase_color (Some p) (par_of k) st1"
      using round(2) st1(1) True holds_L [OF h] by simp
    then show ?thesis using st1(2) True RB_BLACK by auto
  next
    case False
    then show ?thesis using round(1) [of _ "plug k (fin_left t p c ol oa orr)"] st1 t RB_BLACK holds_L [OF h] by auto
  qed
next
  case RB_RED
  then obtain ola oaa co' olb where o: "ol = Node ola oaa co' olb" using ol by (cases ol) auto
  let ?on = "\<not> red_root ola \<and> \<not> red_root olb"
  obtain s0 where s0: "erase_left (Some p) st = erase_left_rest (Some p) s0" "holds s0 (plug (L p RB_RED ol # L oa RB_BLACK orr # k) t)"
    using erase_left_red [OF h [unfolded RB_RED]] by auto
  obtain st1 where st1: "erase_left (Some p) st = Some (?on, st1)"
      "holds st1 (if ?on then plug (L p RB_RED (Node ola oaa RB_RED olb) # L oa RB_BLACK orr # k) t
        else plug (L oa RB_BLACK orr # k) (fin_left t p RB_RED ola oaa olb))"
    using erase_left_rest_cases [OF s0(2) [unfolded o]] s0(1) by auto
  note round = erase_color_round [OF h t, of _ ?on st1]
  show ?thesis
  proof (cases ?on)
    case True
    let ?k = "L oa RB_BLACK orr # k" and ?t = "Node t p RB_RED (Node ola oaa RB_RED olb)"
    have h1: "holds st1 (plug (L p RB_RED (Node ola oaa RB_RED olb) # ?k) t)" using st1(2) True by simp
    have "rb_erase_color (ptr_of t) (Some p) st = rb_erase_color (Some p) (par_of ?k) st1"
      using round(2) holds_L [OF h1] holds_L [OF h] st1(1) True by simp
    moreover have "\<exists>st'. rb_erase_color (ptr_of ?t) (par_of ?k) st1 = Some st' \<and> holds st' (plug ?k (paint RB_BLACK ?t))"
      using erase_color_stop [of st1 ?k ?t] h1 by simp
    ultimately show ?thesis using t o RB_RED True by simp
  next
    case False
    then show ?thesis using round(1) [of _ "plug (L oa RB_BLACK orr # k) (fin_left t p RB_RED ola oaa olb)"] st1 t o RB_RED holds_L [OF h]
      by auto
  qed
qed

lemma erase_right_rest_cases:
  assumes h: "holds st (plug (R (Node ol oa co orr) p c # k) t)"
  shows "\<exists>st'. erase_right_rest (Some p) st = Some (\<not> red_root orr \<and> \<not> red_root ol, st') \<and>
    holds st' (if \<not> red_root orr \<and> \<not> red_root ol then plug (R (Node ol oa RB_RED orr) p c # k) t else plug k (fin_right t p c ol oa orr))"
proof -
  consider "red_root ol" | "\<not> red_root ol" "\<not> red_root orr" | a b d where "\<not> red_root ol" "orr = Node d b RB_RED a"
    by (cases orr) auto
  then show ?thesis
  proof cases
    case 1
    then show ?thesis using erase_right_rest_far [OF h] by simp
  next
    case 2
    then show ?thesis using erase_right_rest_on [OF h] by simp
  next
    case 3
    then show ?thesis using erase_right_rest_near [OF h [unfolded 3(2)] 3(1)] by simp
  qed
qed

lemma erase_color_right:
  assumes h: "holds st (plug (R (Node ol oa co orr) p c # k) t)" and t: "\<not> red_root t"
    and orr: "co = RB_RED \<Longrightarrow> orr \<noteq> Leaf"
  shows "if co = RB_BLACK \<and> \<not> red_root orr \<and> \<not> red_root ol
     then \<exists>st1. rb_erase_color (ptr_of t) (Some p) st = rb_erase_color (Some p) (par_of k) st1 \<and>
       holds st1 (plug k (Node (Node ol oa RB_RED orr) p c t))
     else \<exists>st'. rb_erase_color (ptr_of t) (Some p) st = Some st' \<and> holds st' (del_fix (R (Node ol oa co orr) p c # k) t)"
proof (cases co)
  case RB_BLACK
  let ?on = "\<not> red_root orr \<and> \<not> red_root ol"
  obtain st1 where st1: "erase_right (Some p) st = Some (?on, st1)"
      "holds st1 (if ?on then plug (R (Node ol oa RB_RED orr) p c # k) t else plug k (fin_right t p c ol oa orr))"
    using erase_right_rest_cases [OF h] erase_right_black [OF h [unfolded RB_BLACK]] by auto
  have ne: "Some oa \<noteq> ptr_of t" using h by (cases t) (auto simp: holds_plug)
  note round = erase_color_round [OF h t, of _ ?on st1]
  show ?thesis
  proof (cases ?on)
    case True
    then have "holds st1 (plug (R (Node ol oa RB_RED orr) p c # k) t)" using st1(2) by simp
    from holds_R [OF this] have "rb_erase_color (ptr_of t) (Some p) st = rb_erase_color (Some p) (par_of k) st1"
      using round(2) st1(1) True holds_R [OF h] ne by simp
    then show ?thesis using st1(2) True RB_BLACK by auto
  next
    case False
    then show ?thesis using round(1) [of _ "plug k (fin_right t p c ol oa orr)"] st1 t RB_BLACK holds_R [OF h] ne by auto
  qed
next
  case RB_RED
  then obtain olb oaa co' ola where o: "orr = Node ola oaa co' olb" using orr by (cases orr) auto
  let ?on = "\<not> red_root olb \<and> \<not> red_root ola"
  obtain s0 where s0: "erase_right (Some p) st = erase_right_rest (Some p) s0" "holds s0 (plug (R orr p RB_RED # R ol oa RB_BLACK # k) t)"
    using erase_right_red [OF h [unfolded RB_RED]] by auto
  obtain st1 where st1: "erase_right (Some p) st = Some (?on, st1)"
      "holds st1 (if ?on then plug (R (Node ola oaa RB_RED olb) p RB_RED # R ol oa RB_BLACK # k) t
        else plug (R ol oa RB_BLACK # k) (fin_right t p RB_RED ola oaa olb))"
    using erase_right_rest_cases [OF s0(2) [unfolded o]] s0(1) by auto
  have ne: "Some oa \<noteq> ptr_of t" using h by (cases t) (auto simp: holds_plug)
  note round = erase_color_round [OF h t, of _ ?on st1]
  show ?thesis
  proof (cases ?on)
    case True
    let ?k = "R ol oa RB_BLACK # k" and ?t = "Node (Node ola oaa RB_RED olb) p RB_RED t"
    have h1: "holds st1 (plug (R (Node ola oaa RB_RED olb) p RB_RED # ?k) t)" using st1(2) True by simp
    have "rb_erase_color (ptr_of t) (Some p) st = rb_erase_color (Some p) (par_of ?k) st1"
      using round(2) holds_R [OF h1] holds_R [OF h] st1(1) True ne by simp
    moreover have "\<exists>st'. rb_erase_color (ptr_of ?t) (par_of ?k) st1 = Some st' \<and> holds st' (plug ?k (paint RB_BLACK ?t))"
      using erase_color_stop [of st1 ?k ?t] h1 by simp
    ultimately show ?thesis using t o RB_RED True by simp
  next
    case False
    then show ?thesis using round(1) [of _ "plug (R ol oa RB_BLACK # k) (fin_right t p RB_RED ola oaa olb)"] st1 t o RB_RED holds_R [OF h] ne
      by auto
  qed
qed

lemma bal_Suc_not_Leaf: "bal (Suc n) t \<Longrightarrow> t \<noteq> Leaf"
  by (cases t) auto

lemma cbal_sibling: "\<not> cbal (Suc n) (L p c Leaf # k) m" "\<not> cbal (Suc n) (R Leaf p c # k) m"
  by (cases c; simp)+

lemma red_sibling: "bal (Suc n) (Node l a RB_RED r) \<Longrightarrow> l \<noteq> Leaf \<and> r \<noteq> Leaf"
  using bal_Suc_not_Leaf by auto

text \<open>
  The loop does on the memory what \<open>del_fix\<close> does on the tree. The heights make sure that the sibling
  and, if it is red, its children are there.
\<close>

lemma erase_color_holds:
  assumes "holds st (plug k t)" "bal n t" "cbal (Suc n) k m"
  shows "\<exists>st'. rb_erase_color (ptr_of t) (par_of k) st = Some st' \<and> holds st' (del_fix k t)"
  using assms
proof (induction k t arbitrary: st n rule: del_fix.induct)
  case (1 t)
  then show ?case using erase_color_stop [of st "[]" t] by simp
next
  case (2 p c ol oa co orr k t)
  have o: "bal (Suc n) (Node ol oa co orr)" using 2(4) by (cases c) auto
  show ?case
  proof (cases "red_root t")
    case True
    then show ?thesis using erase_color_stop [OF 2(2)] by simp
  next
    case False
    note left = erase_color_left [OF 2(2) False]
    show ?thesis
    proof (cases "co = RB_BLACK \<and> \<not> red_root ol \<and> \<not> red_root orr")
      case True
      then obtain st1 where st1: "rb_erase_color (ptr_of t) (Some p) st = rb_erase_color (Some p) (par_of k) st1"
          "holds st1 (plug k (Node t p c (Node ol oa RB_RED orr)))" using left by auto
      have ch: "bal n ol" "bal n orr" using o True by auto
      have "\<exists>st'. rb_erase_color (Some p) (par_of k) st1 = Some st' \<and> holds st' (del_fix k (Node t p c (Node ol oa RB_RED orr)))"
        using 2(1) [OF False _ _ st1(2), of "if c = RB_RED then n else Suc n"] True ch 2(3,4) by (cases c) auto
      then show ?thesis using st1(1) True False by simp
    next
      case on: False
      have "co = RB_RED \<Longrightarrow> ol \<noteq> Leaf" using red_sibling o by blast
      from left [OF this] on show ?thesis unfolding if_not_P [OF on] by simp
    qed
  qed
next
  case (3 ol oa co orr p c k t)
  have o: "bal (Suc n) (Node ol oa co orr)" using 3(4) by (cases c) auto
  show ?case
  proof (cases "red_root t")
    case True
    then show ?thesis using erase_color_stop [OF 3(2)] by simp
  next
    case False
    note right = erase_color_right [OF 3(2) False]
    show ?thesis
    proof (cases "co = RB_BLACK \<and> \<not> red_root orr \<and> \<not> red_root ol")
      case True
      then obtain st1 where st1: "rb_erase_color (ptr_of t) (Some p) st = rb_erase_color (Some p) (par_of k) st1"
          "holds st1 (plug k (Node (Node ol oa RB_RED orr) p c t))" using right by auto
      have ch: "bal n ol" "bal n orr" using o True by auto
      have "\<exists>st'. rb_erase_color (Some p) (par_of k) st1 = Some st' \<and> holds st' (del_fix k (Node (Node ol oa RB_RED orr) p c t))"
        using 3(1) [OF False _ _ st1(2), of "if c = RB_RED then n else Suc n"] True ch 3(3,4) by (cases c) auto
      then show ?thesis using st1(1) True False by simp
    next
      case on: False
      have "co = RB_RED \<Longrightarrow> orr \<noteq> Leaf" using red_sibling o by blast
      from right [OF this] on show ?thesis unfolding if_not_P [OF on] by simp
    qed
  qed
next
  case "4_1"
  then show ?case by (simp add: cbal_sibling)
next
  case "4_2"
  then show ?case by (simp add: cbal_sibling)
qed

lemma inorder_fin_left: "red_root ol \<or> red_root orr \<Longrightarrow> inorder (fin_left t p c ol oa orr) = inorder t @ p # inorder ol @ oa # inorder orr"
  by (cases ol) (auto simp: fin_left_def)

lemma inorder_fin_right: "red_root ol \<or> red_root orr \<Longrightarrow> inorder (fin_right t p c ol oa orr) = inorder ol @ oa # inorder orr @ p # inorder t"
  by (cases orr) (auto simp: fin_right_def)

lemma fin_left_inv:
  assumes "bal n t" "\<not> red_root t" "nored t" "bal n ol" "bal n orr" "nored ol" "nored orr" "red_root ol \<or> red_root orr"
  shows "nored (fin_left t p c ol oa orr)" "red_root (fin_left t p c ol oa orr) \<longleftrightarrow> c = RB_RED"
    "bal (if c = RB_RED then Suc n else Suc (Suc n)) (fin_left t p c ol oa orr)"
proof -
  show "nored (fin_left t p c ol oa orr)" "red_root (fin_left t p c ol oa orr) \<longleftrightarrow> c = RB_RED"
    using assms by (cases ol; auto simp: fin_left_def nored_paint)+
  show "bal (if c = RB_RED then Suc n else Suc (Suc n)) (fin_left t p c ol oa orr)"
    using assms by (cases ol; cases c) (auto simp: fin_left_def bal_paint)
qed

lemma fin_right_inv:
  assumes "bal n t" "\<not> red_root t" "nored t" "bal n ol" "bal n orr" "nored ol" "nored orr" "red_root ol \<or> red_root orr"
  shows "nored (fin_right t p c ol oa orr)" "red_root (fin_right t p c ol oa orr) \<longleftrightarrow> c = RB_RED"
    "bal (if c = RB_RED then Suc n else Suc (Suc n)) (fin_right t p c ol oa orr)"
proof -
  show "nored (fin_right t p c ol oa orr)" "red_root (fin_right t p c ol oa orr) \<longleftrightarrow> c = RB_RED"
    using assms by (cases orr; auto simp: fin_right_def nored_paint)+
  show "bal (if c = RB_RED then Suc n else Suc (Suc n)) (fin_right t p c ol oa orr)"
    using assms by (cases orr; cases c) (auto simp: fin_right_def bal_paint)
qed

lemma plug_inv_root:
  assumes "nored t" "bal n t" "cbal n k m" "cred k (red_root t)" "black_top k" "k \<noteq> [] \<or> \<not> red_root t"
  shows "rb_inv (plug k t)"
proof -
  have "\<not> red_root (plug k t)" using assms(5,6) by (auto simp: red_root_plug black_top_def split: if_splits)
  then show ?thesis using plug_inv [OF assms(1-5)] by (simp add: paint_black)
qed

lemma inorder_del_fix:
  assumes "bal n t" "cbal (Suc n) k m"
  shows "inorder (del_fix k t) = before k @ inorder t @ after k"
  using assms
proof (induction k t arbitrary: n rule: del_fix.induct)
  case (2 p c ol oa co orr k t)
  have o: "bal (Suc n) (Node ol oa co orr)" "cbal (if c = RB_RED then Suc n else Suc (Suc n)) k m"
    using 2(3) by (cases c; simp)+
  show ?case
  proof (cases "\<not> red_root t \<and> co = RB_BLACK \<and> \<not> red_root ol \<and> \<not> red_root orr")
    case True
    then have "bal (if c = RB_RED then n else Suc n) (Node t p c (Node ol oa RB_RED orr))" using o 2(2) by (cases c) auto
    with 2(1) [of "if c = RB_RED then n else Suc n"] o(2) True show ?thesis by (cases c) auto
  next
    case False
    then show ?thesis using red_sibling [of n ol oa orr] o(1)
      by (cases co) (auto simp: inorder_plug inorder_fin_left split: tree.splits)
  qed
next
  case (3 ol oa co orr p c k t)
  have o: "bal (Suc n) (Node ol oa co orr)" "cbal (if c = RB_RED then Suc n else Suc (Suc n)) k m"
    using 3(3) by (cases c; simp)+
  show ?case
  proof (cases "\<not> red_root t \<and> co = RB_BLACK \<and> \<not> red_root ol \<and> \<not> red_root orr")
    case True
    then have "bal (if c = RB_RED then n else Suc n) (Node (Node ol oa RB_RED orr) p c t)" using o 3(2) by (cases c) auto
    with 3(1) [of "if c = RB_RED then n else Suc n"] o(2) True show ?thesis by (cases c) auto
  next
    case False
    then show ?thesis using red_sibling [of n ol oa orr] o(1)
      by (cases co) (auto simp: inorder_plug inorder_fin_right split: tree.splits)
  qed
qed (auto simp: inorder_plug)

lemma del_fix_inv:
  assumes "nored (paint RB_BLACK t)" "bal n t" "cbal (Suc n) k m" "cred k False" "black_top k"
  shows "rb_inv (del_fix k t)"
  using assms
proof (induction k t arbitrary: n rule: del_fix.induct)
  case (1 t)
  have "\<exists>n. bal n (paint RB_BLACK t)" using 1(2) by (auto simp: bal_paint)
  then show ?case using 1(1) by (simp add: rb_inv_def)
next
  case (2 p c ol oa co orr k t)
  let ?o = "Node ol oa co orr"
  have o: "bal (Suc n) ?o" "cbal (if c = RB_RED then Suc n else Suc (Suc n)) k m" "nored ?o" "c = RB_RED \<longrightarrow> co = RB_BLACK"
      "cred k (c = RB_RED)" using 2(4,5) by (cases c; cases co; simp)+
  note bt = black_top_Cons(1) [OF 2(6)]
  consider (red) "red_root t" | (sib) "\<not> red_root t" "co = RB_RED" | (on) "\<not> red_root t" "co = RB_BLACK" "\<not> red_root ol" "\<not> red_root orr"
    | (fin) "\<not> red_root t" "co = RB_BLACK" "red_root ol \<or> red_root orr" by (cases co) auto
  then show ?case
  proof cases
    case red
    have "rb_inv (plug (L p c ?o # k) (paint RB_BLACK t))"
      by (rule plug_inv_root [of _ "Suc n" _ m]) (use 2 red in \<open>auto simp: bal_paint\<close>)
    then show ?thesis using red by simp
  next
    case sib
    then have c: "c = RB_BLACK" using o(4) by (cases c) auto
    obtain ola oaa olb where ol: "ol = Node ola oaa RB_BLACK olb"
      using red_sibling [of n ol oa orr] o(1,3) sib by (cases ol) (auto intro: color.exhaust)
    have t: "nored t" using 2(2) sib(1) by (simp add: paint_black)
    show ?thesis
    proof (cases "\<not> red_root ola \<and> \<not> red_root olb")
      case True
      have "rb_inv (plug (L oa RB_BLACK orr # k) (Node t p RB_BLACK (Node ola oaa RB_RED olb)))"
        by (rule plug_inv_root [of _ "Suc n" _ m]) (use o sib c ol t True 2(3) bt in \<open>auto simp: black_top_def\<close>)
      then show ?thesis using sib ol True by simp
    next
      case False
      note f = fin_left_inv [where n = n and t = t and ol = ola and orr = olb and p = p and c = RB_RED and oa = oaa]
      have "rb_inv (plug (L oa RB_BLACK orr # k) (fin_left t p RB_RED ola oaa olb))"
        by (rule plug_inv_root [of _ "Suc n" _ m]) (use f o sib c ol t False 2(3) bt in \<open>auto simp: black_top_def\<close>)
      then show ?thesis using sib ol False by (auto simp: paint_black rb_inv_def)
    qed
  next
    case on
    have t: "nored t" using 2(2) on(1) by (simp add: paint_black)
    show ?thesis using 2(1) [of "if c = RB_RED then n else Suc n"] on o t 2(3) bt cred_mono [OF o(5)] by (cases c) auto
  next
    case fin
    have t: "nored t" using 2(2) fin(1) by (simp add: paint_black)
    have "rb_inv (paint RB_BLACK (plug k (fin_left t p c ol oa orr)))"
      using fin_left_inv [where n = n and t = t and ol = ol and orr = orr and p = p and c = c and oa = oa] o fin t 2(3) bt by (intro plug_inv) auto
    then show ?thesis using fin by auto
  qed
next
  case (3 ol oa co orr p c k t)
  let ?o = "Node ol oa co orr"
  have o: "bal (Suc n) ?o" "cbal (if c = RB_RED then Suc n else Suc (Suc n)) k m" "nored ?o" "c = RB_RED \<longrightarrow> co = RB_BLACK"
      "cred k (c = RB_RED)" using 3(4,5) by (cases c; cases co; simp)+
  note bt = black_top_Cons(1) [OF 3(6)]
  consider (red) "red_root t" | (sib) "\<not> red_root t" "co = RB_RED" | (on) "\<not> red_root t" "co = RB_BLACK" "\<not> red_root ol" "\<not> red_root orr"
    | (fin) "\<not> red_root t" "co = RB_BLACK" "red_root ol \<or> red_root orr" by (cases co) auto
  then show ?case
  proof cases
    case red
    have "rb_inv (plug (R ?o p c # k) (paint RB_BLACK t))"
      by (rule plug_inv_root [of _ "Suc n" _ m]) (use 3 red in \<open>auto simp: bal_paint\<close>)
    then show ?thesis using red by simp
  next
    case sib
    then have c: "c = RB_BLACK" using o(4) by (cases c) auto
    obtain ola oaa olb where orr: "orr = Node ola oaa RB_BLACK olb"
      using red_sibling [of n ol oa orr] o(1,3) sib by (cases orr) (auto intro: color.exhaust)
    have t: "nored t" using 3(2) sib(1) by (simp add: paint_black)
    show ?thesis
    proof (cases "\<not> red_root ola \<and> \<not> red_root olb")
      case True
      have "rb_inv (plug (R ol oa RB_BLACK # k) (Node (Node ola oaa RB_RED olb) p RB_BLACK t))"
        by (rule plug_inv_root [of _ "Suc n" _ m]) (use o sib c orr t True 3(3) bt in \<open>auto simp: black_top_def\<close>)
      then show ?thesis using sib orr True by simp
    next
      case False
      note f = fin_right_inv [where n = n and t = t and ol = ola and orr = olb and p = p and c = RB_RED and oa = oaa]
      have "rb_inv (plug (R ol oa RB_BLACK # k) (fin_right t p RB_RED ola oaa olb))"
        by (rule plug_inv_root [of _ "Suc n" _ m]) (use f o sib c orr t False 3(3) bt in \<open>auto simp: black_top_def\<close>)
      then show ?thesis using sib orr False by (auto simp: paint_black rb_inv_def)
    qed
  next
    case on
    have t: "nored t" using 3(2) on(1) by (simp add: paint_black)
    show ?thesis using 3(1) [of "if c = RB_RED then n else Suc n"] on o t 3(3) bt cred_mono [OF o(5)] by (cases c) auto
  next
    case fin
    have t: "nored t" using 3(2) fin(1) by (simp add: paint_black)
    have "rb_inv (paint RB_BLACK (plug k (fin_right t p c ol oa orr)))"
      using fin_right_inv [where n = n and t = t and ol = ol and orr = orr and p = p and c = c and oa = oa] o fin t 3(3) bt by (intro plug_inv) auto
    then show ?thesis using fin by auto
  qed
next
  case "4_1"
  then show ?case by (simp add: cbal_sibling)
next
  case "4_2"
  then show ?case by (simp add: cbal_sibling)
qed

section \<open>Removal\<close>

lemma plug_append: "plug (k1 @ k2) t = plug k2 (plug k1 t)"
  by (induction k1 t rule: plug.induct) simp_all

lemma before_append: "before (k1 @ k2) = before k2 @ before k1" "after (k1 @ k2) = after k1 @ after k2"
  by (induction k1 rule: before.induct) simp_all

lemma go_left_holds:
  assumes "holds st (plug k t)" "t \<noteq> Leaf"
  shows "\<exists>ks y cy ry. t = plug ks (Node Leaf y cy ry) \<and> before ks = [] \<and> go_left (ptr_of t) st = Some (Some y)"
  using assms
proof (induction t arbitrary: k)
  case (Node l a c r)
  note n = holds_node [OF Node.prems(1)]
  show ?case
  proof (cases "l = Leaf")
    case True
    then show ?thesis using n by (intro exI [of _ "[]"]) (simp add: go_left.simps)
  next
    case False
    then obtain ks y cy ry where y: "l = plug ks (Node Leaf y cy ry)" "before ks = []" "go_left (ptr_of l) st = Some (Some y)"
      using Node.IH(1) [of "L a c r # k"] Node.prems(1) by auto
    have "go_left (Some a) st = Some (Some y)" using n y(3) False by (subst go_left.simps) (cases l; simp)
    then show ?thesis using y
      by (intro exI [of _ "ks @ [L a c r]"] exI [of _ y] exI [of _ cy] exI [of _ ry]) (simp add: plug_append before_append)
  qed
qed simp

text \<open>After a subtree was shortened: the colour of the node taken out decides.\<close>

lemma erase_finish:
  assumes h: "holds st (plug k d)" and inv: "rb_inv (plug k (Node l x c r))" and d: "l = Leaf \<and> d = r \<or> r = Leaf \<and> d = l"
  shows "\<exists>st' t'. (if c = RB_BLACK then rb_erase_color (ptr_of d) (par_of k) st else Some st) = Some st' \<and> holds st' t' \<and> rb_inv t'
    \<and> inorder t' = before k @ inorder d @ after k"
proof -
  obtain m n where b: "cbal n k m" "bal n (Node l x c r)" "nored (Node l x c r)" "cred k (c = RB_RED)" "\<not> red_root (plug k (Node l x c r))"
    using inv by (auto simp: rb_inv_def bal_plug nored_plug)
  have bt: "black_top k" "k \<noteq> [] \<or> c = RB_BLACK"
    using b(5) by (auto simp: red_root_plug black_top_def split: if_splits intro: color.exhaust)
  show ?thesis
  proof (cases c)
    case RB_RED
    have "rb_inv (plug k d)" by (rule plug_inv_root [of _ n _ m]) (use b RB_RED d bt cred_mono [OF b(4)] in auto)
    then show ?thesis using RB_RED h by (auto simp: inorder_plug)
  next
    case RB_BLACK
    then obtain n' where n': "n = Suc n'" "bal n' d" using b(2) d by auto
    obtain st' where st': "rb_erase_color (ptr_of d) (par_of k) st = Some st'" "holds st' (del_fix k d)"
      using erase_color_holds [OF h n'(2)] b(1) n'(1) by blast
    have "rb_inv (del_fix k d)" by (rule del_fix_inv [of _ n' _ m]) (use b RB_BLACK d n' bt nored_paint in auto)
    then show ?thesis using st' RB_BLACK inorder_del_fix [OF n'(2)] b(1) n'(1) by auto
  qed
qed

lemma erase_one_child:
  assumes "holds st (plug k (Node l x c r))" "rb_inv (plug k (Node l x c r))" "l = Leaf \<or> r = Leaf"
  shows "\<exists>st' t'. rb_erase (Some x) st = Some st' \<and> holds st' t' \<and> rb_inv t' \<and> inorder t' = before k @ inorder l @ inorder r @ after k"
proof -
  define d where "d = (if l = Leaf then r else l)"
  have d: "l = Leaf \<and> d = r \<or> r = Leaf \<and> d = l" using assms(3) by (auto simp: d_def)
  note n = holds_node [OF assms(1)]
  obtain s1 s2 where s: "set_parent_if (ptr_of d) (par_of k) st = Some s1" "relink (par_of k) (Some x) (ptr_of d) s1 = Some s2"
    "holds s2 (plug k d)" using unlink_holds [OF assms(1) d] by blast
  have "rb_erase (Some x) st = (if c = RB_BLACK then rb_erase_color (ptr_of d) (par_of k) s2 else Some s2)"
    using n s assms(3) by (cases l; cases r) (simp_all add: rb_erase_def Let_def d_def)
  with erase_finish [OF s(3) assms(2) d] d show ?thesis by auto
qed

text \<open>The invariants do not depend on the addresses.\<close>

lemma swap_address:
  "rb_inv (plug (ks @ R l x c # k) t) \<Longrightarrow> rb_inv (plug (ks @ R l y c # k) t)"
proof -
  have b: "cbal n (ks @ R l x c # k) m = cbal n (ks @ R l y c # k) m" for n m
    by (induction n ks m rule: cbal.induct) (cases c; simp)+
  have r: "cred (ks @ R l x c # k) q = cred (ks @ R l y c # k) q" for q
    by (induction ks q rule: cred.induct) simp_all
  show "rb_inv (plug (ks @ R l x c # k) t) \<Longrightarrow> rb_inv (plug (ks @ R l y c # k) t)"
    by (auto simp: rb_inv_def nored_plug bal_plug red_root_plug b r split: if_splits)
qed

lemma erase_two_children:
  assumes h: "holds st (plug k (Node l x c r))" and inv: "rb_inv (plug k (Node l x c r))" and ch: "l \<noteq> Leaf" "r \<noteq> Leaf"
  shows "\<exists>st' t'. rb_erase (Some x) st = Some st' \<and> holds st' t' \<and> rb_inv t' \<and> inorder t' = before k @ inorder l @ inorder r @ after k"
proof -
  note n = holds_node [OF h]
  have hr: "holds st (plug (R l x c # k) r)" using h by simp
  obtain ks y cy ry where y: "r = plug ks (Node Leaf y cy ry)" "before ks = []" "go_left (ptr_of r) st = Some (Some y)"
    using go_left_holds [OF hr ch(2)] by blast
  let ?k = "ks @ R l x c # k" and ?k' = "ks @ R l y c # k"
  have hy: "holds st (plug ?k (Node Leaf y cy ry))" using h y(1) by (simp add: plug_append)
  note ny = holds_node [OF hy]
  obtain s1 s2 where s: "set_parent_if (ptr_of ry) (par_of ?k) st = Some s1" "relink (par_of ?k) (Some y) (ptr_of ry) s1 = Some s2"
    "holds s2 (plug ?k ry)" "nodes s2 y = nodes st y" using unlink_holds [OF hy, of ry] by auto
  have h2: "holds s2 (plug k (Node l x c (plug ks ry)))" using s(3) by (simp add: plug_append)
  note n2 = holds_node [OF h2]
  have fresh: "y \<notin> set (inorder (plug k (Node l x c (plug ks ry))))"
    using hy unfolding holds_def by (simp add: inorder_plug before_append)
  obtain t1 t2 t3 t4 t5 t6 t7 where t: "set_parent (Some y) (par_of k) s2 = Some t1" "set_color (Some y) c t1 = Some t2"
    "set_right (Some y) (ptr_of (plug ks ry)) t2 = Some t3" "set_left (Some y) (ptr_of l) t3 = Some t4"
    "relink (par_of k) (Some x) (Some y) t4 = Some t5" "set_parent (ptr_of l) (Some y) t5 = Some t6"
    "set_parent_if (ptr_of (plug ks ry)) (Some y) t6 = Some t7" "holds t7 (plug k (Node l y c (plug ks ry)))"
    using take_place_holds [OF h2 fresh _ ch(1)] s(4) ny by auto
  have h7: "holds t7 (plug ?k' ry)" using t(8) by (simp add: plug_append)
  have "rb_inv (plug ?k (Node Leaf y cy ry))" using inv y(1) by (simp add: plug_append)
  note fin = erase_finish [OF h7 swap_address [OF this]]
  have par: "(if par_of ?k = Some x then Some y else par_of ?k) = par_of ?k'"
  proof (cases ks)
    case (Cons f ks')
    have "frame_addr f \<noteq> x" using hy Cons by (cases f) (auto simp: holds_def inorder_plug before_append)
    then show ?thesis using Cons by simp
  qed simp
  have "rb_erase (Some x) st = (if cy = RB_BLACK then rb_erase_color (ptr_of ry) (par_of ?k') t7 else Some t7)"
  proof -
    obtain lx rx where p: "ptr_of l = Some lx" "ptr_of r = Some rx" using ch by (cases l; cases r) auto
    show ?thesis using n y(3) ny s(1,2,4) n2 t(1-7) unfolding p
      by (simp add: rb_erase_def Let_def par cong: if_cong del: modify_Some split del: if_split)
  qed
  moreover have "inorder r = y # inorder ry @ after ks" using y(1,2) by (simp add: inorder_plug)
  ultimately show ?thesis using fin y(2) by (auto simp: before_append)
qed

lemma erase_holds:
  assumes "holds st (plug k (Node l x c r))" "rb_inv (plug k (Node l x c r))"
  shows "\<exists>st' t'. rb_erase (Some x) st = Some st' \<and> holds st' t' \<and> rb_inv t' \<and> inorder t' = before k @ inorder l @ inorder r @ after k"
  using erase_one_child [OF assms] erase_two_children [OF assms] by blast

section \<open>Walking and replacing\<close>

definition first_of :: "nat list \<Rightarrow> ref" where
  "first_of xs = (case xs of [] \<Rightarrow> None | a # _ \<Rightarrow> Some a)"

definition last_of :: "nat list \<Rightarrow> ref" where
  "last_of xs = (if xs = [] then None else Some (last xs))"

lemma first_of_simps [simp]: "first_of [] = None" "first_of (a # xs) = Some a" "last_of [] = None" "last_of (xs @ [a]) = Some a"
  by (simp_all add: first_of_def last_of_def)

lemma inorder_eq_Nil [simp]: "inorder t = [] \<longleftrightarrow> t = Leaf"
  by (cases t) auto

lemma ptr_of_None [simp]: "ptr_of t = None \<longleftrightarrow> t = Leaf"
  by (cases t) auto

lemma go_left_first:
  assumes "holds st (plug k t)" "t \<noteq> Leaf" shows "go_left (ptr_of t) st = Some (first_of (inorder t))"
  using go_left_holds [OF assms] by (auto simp: inorder_plug)

lemma go_right_last:
  assumes "holds st (plug k t)" "t \<noteq> Leaf" shows "go_right (ptr_of t) st = Some (last_of (inorder t))"
  using assms
proof (induction t arbitrary: k)
  case (Node l a c r)
  note n = holds_node [OF Node.prems(1)]
  show ?case
  proof (cases "r = Leaf")
    case True
    then show ?thesis using n by (simp add: go_right.simps last_of_def)
  next
    case False
    then have "go_right (ptr_of r) st = Some (last_of (inorder r))"
      using Node.IH(2) [of "R l a c # k"] Node.prems(1) by simp
    then show ?thesis using n False by (subst ptr_of.simps, subst go_right.simps) (cases r; simp add: last_of_def)
  qed
qed simp

lemma climb_right_first:
  assumes "holds st (plug k t)" "ptr_of t = Some x" shows "climb_right (Some x) st = Some (first_of (after k))"
  using assms
proof (induction k arbitrary: t x)
  case Nil
  then obtain l c r where "t = Node l x c r" by (cases t) auto
  then show ?case using holds_node [of st "[]" l x c r] Nil(1) by (simp add: climb_right.simps)
next
  case (Cons f k)
  then obtain l c r where t: "t = Node l x c r" by (cases t) auto
  have n: "nodes st x = Some \<lparr>rb_parent = Some (frame_addr f), rb_color = c, rb_right = ptr_of r, rb_left = ptr_of l\<rparr>"
    using holds_node [of st "f # k" l x c r] Cons.prems t by simp
  show ?case
  proof (cases f)
    case (L a ca s)
    have "ptr_of s \<noteq> Some x" using child_distinct [of st k t a ca s x] Cons.prems L by simp
    then show ?thesis using n holds_L [of st a ca s k t] Cons.prems L by (subst climb_right.simps) auto
  next
    case (R s a ca)
    have "climb_right (Some a) st = Some (first_of (after k))"
      using Cons.IH [of "Node s a ca t" a] Cons.prems R by simp
    then show ?thesis using n holds_R [of st s a ca k t] Cons.prems R by (subst climb_right.simps) auto
  qed
qed

lemma climb_left_last:
  assumes "holds st (plug k t)" "ptr_of t = Some x" shows "climb_left (Some x) st = Some (last_of (before k))"
  using assms
proof (induction k arbitrary: t x)
  case Nil
  then obtain l c r where "t = Node l x c r" by (cases t) auto
  then show ?case using holds_node [of st "[]" l x c r] Nil(1) by (simp add: climb_left.simps)
next
  case (Cons f k)
  then obtain l c r where t: "t = Node l x c r" by (cases t) auto
  have n: "nodes st x = Some \<lparr>rb_parent = Some (frame_addr f), rb_color = c, rb_right = ptr_of r, rb_left = ptr_of l\<rparr>"
    using holds_node [of st "f # k" l x c r] Cons.prems t by simp
  show ?case
  proof (cases f)
    case (L a ca s)
    have "climb_left (Some a) st = Some (last_of (before k))"
      using Cons.IH [of "Node t a ca s" a] Cons.prems L by simp
    then show ?thesis using n holds_L [of st a ca s k t] Cons.prems L by (subst climb_left.simps) auto
  next
    case (R s a ca)
    have "ptr_of s \<noteq> Some x" using child_distinct [of st k s a ca t] Cons.prems R by (cases s) auto
    then show ?thesis using n holds_R [of st s a ca k t] Cons.prems R by (subst climb_left.simps) (auto simp: last_of_def)
  qed
qed

lemma walk_holds:
  assumes "holds st t"
  shows "rb_first st = Some (first_of (inorder t))" "rb_last st = Some (last_of (inorder t))"
proof -
  have r: "root_node st = ptr_of t" using assms by (simp add: holds_def)
  show "rb_first st = Some (first_of (inorder t))" "rb_last st = Some (last_of (inorder t))"
    using go_left_first [of st "[]" t] go_right_last [of st "[]" t] assms
    by (cases t; simp add: rb_first_def rb_last_def r)+
qed

lemma next_holds:
  assumes "holds st (plug k (Node l x c r))"
  shows "rb_next (Some x) st = Some (first_of (inorder r @ after k))"
    "rb_prev (Some x) st = Some (last_of (before k @ inorder l))"
proof -
  note n = holds_node [OF assms]
  show "rb_next (Some x) st = Some (first_of (inorder r @ after k))"
  proof (cases "r = Leaf")
    case True
    then show ?thesis using n climb_right_first [OF assms] by (simp add: rb_next_def)
  next
    case False
    then have "first_of (inorder r @ after k) = first_of (inorder r)" by (cases "inorder r") auto
    moreover have "go_left (ptr_of r) st = Some (first_of (inorder r))" "ptr_of r \<noteq> None"
      using go_left_first [of st "R l x c # k" r] assms False by simp_all
    ultimately show ?thesis using n by (auto simp: rb_next_def)
  qed
  show "rb_prev (Some x) st = Some (last_of (before k @ inorder l))"
  proof (cases "l = Leaf")
    case True
    then show ?thesis using n climb_left_last [OF assms] by (simp add: rb_prev_def)
  next
    case False
    then have "last_of (before k @ inorder l) = last_of (inorder l)" by (simp add: last_of_def)
    moreover have "go_right (ptr_of l) st = Some (last_of (inorder l))" "ptr_of l \<noteq> None"
      using go_right_last [of st "L x c r # k" l] assms False by simp_all
    ultimately show ?thesis using n by (auto simp: rb_prev_def)
  qed
qed

lemma replace_node_holds:
  assumes "holds st (plug k (Node l x c r))" "y \<notin> set (inorder (plug k (Node l x c r)))" "nodes st y \<noteq> None"
  shows "\<exists>st'. rb_replace_node (Some x) (Some y) st = Some st' \<and> holds st' (plug k (Node l y c r))"
proof -
  note n = holds_node [OF assms(1)]
  obtain s1 s2 s3 s4 where s: "relink (par_of k) (Some x) (Some y) st = Some s1"
    "set_parent_if (ptr_of l) (Some y) s1 = Some s2" "set_parent_if (ptr_of r) (Some y) s2 = Some s3"
    "nodes s3 x = nodes st x" "modify (Some y) (\<lambda>_. \<lparr>rb_parent = par_of k, rb_color = c, rb_right = ptr_of r, rb_left = ptr_of l\<rparr>) s3 = Some s4"
    "holds s4 (plug k (Node l y c r))" using replace_holds [OF assms] by blast
  have "nodes s1 x = nodes st x"
  proof -
    have "par_of k \<noteq> Some x" using assms(1) by (cases k; cases "hd k") (auto simp: holds_plug)
    then show ?thesis using s(1) by (cases "par_of k") (auto simp: relink_def split: if_splits bind_splits)
  qed
  then have "rb_replace_node (Some x) (Some y) st = Some s4"
    using n s(1-5) by (simp add: rb_replace_node_def del: modify_Some)
  then show ?thesis using s(6) by blast
qed

section \<open>The height of the tree\<close>

fun height :: "tree \<Rightarrow> nat" where
  "height Leaf = 0"
| "height (Node l a c r) = Suc (max (height l) (height r))"

lemma bal_length: "bal n t \<Longrightarrow> 2 ^ n \<le> length (inorder t) + 1"
  by (induction n t rule: bal.induct) (auto split: nat.splits)

lemma bal_height: "bal n t \<Longrightarrow> nored t \<Longrightarrow> height t \<le> 2 * n + (if red_root t then 1 else 0)"
  by (induction n t rule: bal.induct) (auto split: nat.splits if_splits)

lemma rb_inv_height:
  assumes "rb_inv t" shows "2 ^ height t \<le> (length (inorder t) + 1) ^ 2"
proof -
  obtain n where n: "bal n t" "nored t" "\<not> red_root t" using assms by (auto simp: rb_inv_def)
  have "height t \<le> 2 * n" using bal_height [OF n(1,2)] n(3) by simp
  then have "(2 :: nat) ^ height t \<le> 2 ^ (2 * n)" by (intro power_increasing) auto
  also have "\<dots> = (2 ^ n) ^ 2" by (simp add: power_mult [symmetric] mult.commute)
  also have "\<dots> \<le> (length (inorder t) + 1) ^ 2" using bal_length [OF n(1)] by (intro power_mono) auto
  finally show ?thesis .
qed

section \<open>Properties\<close>

text \<open>
  (C16) Insertion is correct: \<open>rb_link_node\<close> at a free link of a tree, then \<open>rb_insert_color\<close>, ends
  without touching a foreign pointer, and memory then holds a red-black tree with the new node at
  that place of the order and every other where it was. Its height is at most twice the logarithm
  of its size, so a search stays short.
\<close>

theorem rb_insert_correct:
  assumes "holds st (plug k Leaf)" "rb_inv (plug k Leaf)" "x \<notin> set (inorder (plug k Leaf))" "nodes st x \<noteq> None"
  shows "\<exists>st1 st' t'. rb_link_node (Some x) (par_of k) (link_of k) st = Some st1 \<and> rb_insert_color (Some x) st1 = Some st'
    \<and> holds st' t' \<and> rb_inv t' \<and> inorder t' = before k @ x # after k \<and> 2 ^ height t' \<le> (length (inorder t') + 1) ^ 2"
  using insert_holds [OF assms] rb_inv_height by blast

theorem rb_insert_correct_witness:
  "let b = \<lparr>rb_parent = None, rb_color = RB_BLACK, rb_right = None, rb_left = None\<rparr>;
       st = \<lparr>nodes = [8 \<mapsto> b, 40 \<mapsto> b], root_node = Some 8\<rparr>
   in \<exists>st1 st' t'. rb_link_node (Some 40) (Some 8) (Link_right 8) st = Some st1 \<and> rb_insert_color (Some 40) st1 = Some st'
    \<and> holds st' t' \<and> rb_inv t' \<and> inorder t' = [8, 40] \<and> 2 ^ height t' \<le> (9 :: nat)"
  using rb_insert_correct [of "\<lparr>nodes = [8 \<mapsto> \<lparr>rb_parent = None, rb_color = RB_BLACK, rb_right = None, rb_left = None\<rparr>,
      40 \<mapsto> \<lparr>rb_parent = None, rb_color = RB_BLACK, rb_right = None, rb_left = None\<rparr>], root_node = Some 8\<rparr>" "[R Leaf 8 RB_BLACK]" 40]
  by (fastforce simp: holds_def rb_inv_def Let_def numeral_2_eq_2)

text \<open>
  (C17) Removal is correct: \<open>rb_erase\<close> of a node of a red-black tree, wherever it is, ends without
  touching a foreign pointer, and memory then holds a red-black tree with the other nodes in the
  same order; before it, \<open>rb_next\<close> and \<open>rb_prev\<close> give the neighbours of the node.
\<close>

theorem rb_erase_correct:
  assumes "holds st (plug k (Node l x c r))" "rb_inv (plug k (Node l x c r))"
  shows "(\<exists>st' t'. rb_erase (Some x) st = Some st' \<and> holds st' t' \<and> rb_inv t'
      \<and> inorder t' = before k @ inorder l @ inorder r @ after k \<and> 2 ^ height t' \<le> (length (inorder t') + 1) ^ 2)
    \<and> rb_next (Some x) st = Some (first_of (inorder r @ after k))
    \<and> rb_prev (Some x) st = Some (last_of (before k @ inorder l))"
  using erase_holds [OF assms] rb_inv_height next_holds [OF assms(1)] by blast

theorem rb_erase_correct_witness:
  "let st = \<lparr>nodes = [8 \<mapsto> \<lparr>rb_parent = None, rb_color = RB_BLACK, rb_right = Some 40, rb_left = None\<rparr>,
      40 \<mapsto> \<lparr>rb_parent = Some 8, rb_color = RB_RED, rb_right = None, rb_left = None\<rparr>], root_node = Some 8\<rparr>
   in (\<exists>st' t'. rb_erase (Some 8) st = Some st' \<and> holds st' t' \<and> rb_inv t' \<and> inorder t' = [40] \<and> 2 ^ height t' \<le> (length (inorder t') + 1) ^ 2)
    \<and> rb_next (Some 8) st = Some (Some 40) \<and> rb_prev (Some 8) st = Some None"
proof -
  let ?t = "Node Leaf 8 RB_BLACK (Node Leaf 40 RB_RED Leaf)"
  let ?st = "\<lparr>nodes = [8 \<mapsto> \<lparr>rb_parent = None, rb_color = RB_BLACK, rb_right = Some 40, rb_left = None\<rparr>,
      40 \<mapsto> \<lparr>rb_parent = Some 8, rb_color = RB_RED, rb_right = None, rb_left = None\<rparr>], root_node = Some 8\<rparr>"
  have h: "holds ?st (plug [] ?t)" by (simp add: holds_def)
  have "bal 1 ?t" by simp
  then have "rb_inv (plug [] ?t)" by (auto simp: rb_inv_def)
  from rb_erase_correct [OF h this] show ?thesis unfolding Let_def by simp
qed

end
