(* ===== verification/DebugMem.thy ===== *)
theory DebugMem
  imports Rbtree_Erase Prelude
begin

text \<open>
  \<^verbatim>\<open>public/check/debugnew.cc\<close>: the operators \<open>new\<close> and \<open>delete\<close> that put a header, a \<open>mem_chunk\<close>,
  before every block and keep the headers in a red-black tree, ordered by the address of the
  block, so that blocks that are never deleted are reported at the end. The tree node is the first
  member of the header, so \<open>rb_entry\<close> is the same address. The result of \<open>malloc\<close> and the contents of
  new memory are arguments. The mutex is taken around each operation, which is one step here.
\<close>

section \<open>Chunks\<close>

record mem_chunk =
  cptr :: u64
  csize :: nat
  cfile :: "cstring option"
  cline :: int

record DebugMemCheck =
  tree_mem :: rb_mem
  chunks :: "nat \<rightharpoonup> mem_chunk"
  startup :: bool

definition sizeof_mem_chunk :: nat where
  "sizeof_mem_chunk = 64"

definition DebugMemCheck_new :: "rb_mem \<Rightarrow> (nat \<rightharpoonup> mem_chunk) \<Rightarrow> DebugMemCheck" where
  "DebugMemCheck_new m cs = \<lparr>tree_mem = m\<lparr>root_node := None\<rparr>, chunks = cs, startup = True\<rparr>"

text \<open>The walk down to a free link; a block that is there already fails the assertion.\<close>

partial_function (option) Malloc_link ::
    "u64 \<Rightarrow> ref \<Rightarrow> ref \<Rightarrow> rb_link \<Rightarrow> DebugMemCheck \<Rightarrow> (ref \<times> rb_link) option" where
  "Malloc_link key cur parent link st =
     (case cur of None \<Rightarrow> Some (parent, link)
      | Some a \<Rightarrow> do {
          pos \<leftarrow> chunks st a;
          n \<leftarrow> deref cur (tree_mem st);
          if cptr pos = key then None
          else if cptr pos > key then Malloc_link key (rb_left n) cur (Link_left a) st
          else Malloc_link key (rb_right n) cur (Link_right a) st })"

definition Malloc :: "nat \<Rightarrow> DebugMemCheck \<Rightarrow> DebugMemCheck option" where
  "Malloc c st = do {
     chunk \<leftarrow> chunks st c;
     (parent, link) \<leftarrow> Malloc_link (cptr chunk) (root_node (tree_mem st)) None Link_root st;
     m \<leftarrow> rb_link_node (Some c) parent link (tree_mem st);
     m \<leftarrow> rb_insert_color (Some c) m;
     Some (st\<lparr>tree_mem := m\<rparr>) }"

partial_function (option) FindChunk_loop :: "u64 \<Rightarrow> ref \<Rightarrow> DebugMemCheck \<Rightarrow> ref option" where
  "FindChunk_loop p node st =
     (case node of None \<Rightarrow> Some None
      | Some a \<Rightarrow> do {
          pos \<leftarrow> chunks st a;
          n \<leftarrow> deref node (tree_mem st);
          if cptr pos > p then FindChunk_loop p (rb_left n) st
          else if cptr pos < p then FindChunk_loop p (rb_right n) st
          else Some (Some a) })"

definition FindChunkNolocked :: "u64 \<Rightarrow> DebugMemCheck \<Rightarrow> ref option" where
  "FindChunkNolocked p st = FindChunk_loop p (root_node (tree_mem st)) st"

definition Free :: "u64 \<Rightarrow> DebugMemCheck \<Rightarrow> (ref \<times> DebugMemCheck) option" where
  "Free p st = do {
     chunk \<leftarrow> FindChunkNolocked p st;
     if chunk = None then Some (None, st)
     else do {
       m \<leftarrow> rb_erase chunk (tree_mem st);
       Some (chunk, st\<lparr>tree_mem := m\<rparr>) } }"

section \<open>The operators\<close>

text \<open>\<open>malloc\<close> and \<open>free\<close> of the memory of a header.\<close>

definition new_chunk :: "nat \<Rightarrow> rb_node \<Rightarrow> mem_chunk \<Rightarrow> DebugMemCheck \<Rightarrow> DebugMemCheck" where
  "new_chunk a n c st =
     st\<lparr>tree_mem := (tree_mem st)\<lparr>nodes := (nodes (tree_mem st))(a \<mapsto> n)\<rparr>, chunks := (chunks st)(a \<mapsto> c)\<rparr>"

definition free_chunk :: "nat \<Rightarrow> DebugMemCheck \<Rightarrow> DebugMemCheck" where
  "free_chunk a st =
     st\<lparr>tree_mem := (tree_mem st)\<lparr>nodes := (nodes (tree_mem st))(a := None)\<rparr>, chunks := (chunks st)(a := None)\<rparr>"

definition operator_new_at :: "nat option \<Rightarrow> rb_node \<Rightarrow> nat \<Rightarrow> cstring option \<Rightarrow> int \<Rightarrow> DebugMemCheck \<Rightarrow> (u64 option \<times> DebugMemCheck) option" where
  "operator_new_at block n size_arg file line st =
     (if \<not> startup st then Some (map_option word_of_nat block, st)
      else case block of None \<Rightarrow> Some (None, st)
      | Some a \<Rightarrow>
          let c = \<lparr>cptr = word_of_nat (a + sizeof_mem_chunk), csize = size_arg, cfile = file, cline = line\<rparr> in
          map_option (Pair (Some (cptr c))) (Malloc a (new_chunk a n c st)))"

definition operator_new :: "nat option \<Rightarrow> rb_node \<Rightarrow> nat \<Rightarrow> DebugMemCheck \<Rightarrow> (u64 option \<times> DebugMemCheck) option" where
  "operator_new block n size_arg st = operator_new_at block n size_arg None 0 st"

definition operator_new_array :: "nat option \<Rightarrow> rb_node \<Rightarrow> nat \<Rightarrow> cstring option \<Rightarrow> int \<Rightarrow> DebugMemCheck \<Rightarrow> (u64 option \<times> DebugMemCheck) option" where
  "operator_new_array block n size_arg file line st = operator_new_at block n size_arg file line st"

text \<open>
  Before startup the block is freed as it is; a block that is not known is only logged. One of
  the four operators does not test for NULL.
\<close>

definition delete_block :: "u64 \<Rightarrow> DebugMemCheck \<Rightarrow> DebugMemCheck option" where
  "delete_block p st =
     (if \<not> startup st then Some st
      else do {
        (c, st) \<leftarrow> Free p st;
        Some (case c of None \<Rightarrow> st | Some a \<Rightarrow> free_chunk a st) })"

definition operator_delete :: "u64 \<Rightarrow> DebugMemCheck \<Rightarrow> DebugMemCheck option" where
  "operator_delete p st = (if p = 0 then Some st else delete_block p st)"

definition operator_delete_at :: "u64 \<Rightarrow> DebugMemCheck \<Rightarrow> DebugMemCheck option" where
  "operator_delete_at p st = (if p = 0 then Some st else delete_block p st)"

definition operator_delete_array :: "u64 \<Rightarrow> DebugMemCheck \<Rightarrow> DebugMemCheck option" where
  "operator_delete_array p st = (if p = 0 then Some st else delete_block p st)"

definition operator_delete_array_at :: "u64 \<Rightarrow> DebugMemCheck \<Rightarrow> DebugMemCheck option" where
  "operator_delete_array_at p st = delete_block p st"

text \<open>The destructor, with the list of the chunks that it reports.\<close>

partial_function (option) dtor_loop :: "ref \<Rightarrow> mem_chunk list \<Rightarrow> DebugMemCheck \<Rightarrow> (mem_chunk list \<times> DebugMemCheck) option" where
  "dtor_loop node report st =
     (case node of None \<Rightarrow> Some (report, st)
      | Some a \<Rightarrow> do {
          chunk \<leftarrow> chunks st a;
          next_node \<leftarrow> rb_next node (tree_mem st);
          m \<leftarrow> rb_erase (Some a) (tree_mem st);
          dtor_loop next_node (report @ [chunk]) (free_chunk a (st\<lparr>tree_mem := m\<rparr>)) })"

definition DebugMemCheck_delete :: "DebugMemCheck \<Rightarrow> (mem_chunk list \<times> DebugMemCheck) option" where
  "DebugMemCheck_delete st = do {
     let st = st\<lparr>startup := False\<rparr>;
     node \<leftarrow> rb_first (tree_mem st);
     dtor_loop node [] st }"

section \<open>The blocks that are live\<close>

text \<open>
  The abstract state is the sorted list of the addresses of the headers. The block of a
  header starts behind it.
\<close>

definition mem_ok :: "DebugMemCheck \<Rightarrow> tree \<Rightarrow> bool" where
  "mem_ok st t \<longleftrightarrow> holds (tree_mem st) t \<and> rb_inv t \<and> sorted_wrt (<) (inorder t)
     \<and> (\<forall>a\<in>set (inorder t). \<exists>c. chunks st a = Some c \<and> cptr c = word_of_nat (a + sizeof_mem_chunk) \<and> a + sizeof_mem_chunk < 2 ^ 64)"

definition live :: "DebugMemCheck \<Rightarrow> nat list \<Rightarrow> bool" where
  "live st xs \<longleftrightarrow> (\<exists>t. mem_ok st t \<and> inorder t = xs)"

lemma chunk_order:
  assumes "a + sizeof_mem_chunk < 2 ^ 64" "b + sizeof_mem_chunk < 2 ^ 64"
  shows "(word_of_nat (a + sizeof_mem_chunk) :: u64) < word_of_nat (b + sizeof_mem_chunk) \<longleftrightarrow> a < b"
    "(word_of_nat (a + sizeof_mem_chunk) :: u64) = word_of_nat (b + sizeof_mem_chunk) \<longleftrightarrow> a = b"
proof -
  have u: "unat (word_of_nat (x + sizeof_mem_chunk) :: u64) = x + sizeof_mem_chunk" if "x + sizeof_mem_chunk < 2 ^ 64" for x
    using that by (simp add: unsigned_of_nat take_bit_nat_eq_self del: of_nat_add)
  show "(word_of_nat (a + sizeof_mem_chunk) :: u64) < word_of_nat (b + sizeof_mem_chunk) \<longleftrightarrow> a < b"
    unfolding word_less_nat_alt u [OF assms(1)] u [OF assms(2)] by simp
  show "(word_of_nat (a + sizeof_mem_chunk) :: u64) = word_of_nat (b + sizeof_mem_chunk) \<longleftrightarrow> a = b"
    unfolding word_unat_eq_iff u [OF assms(1)] u [OF assms(2)] by simp
qed

abbreviation chunk_at :: "DebugMemCheck \<Rightarrow> nat \<Rightarrow> bool" where
  "chunk_at st a \<equiv> \<exists>c. chunks st a = Some c \<and> cptr c = word_of_nat (a + sizeof_mem_chunk) \<and> a + sizeof_mem_chunk < 2 ^ 64"

lemma Malloc_link_holds:
  assumes "holds (tree_mem st) (plug k t)" "sorted_wrt (<) (inorder t)" "\<forall>a\<in>set (inorder t). chunk_at st a"
    "x + sizeof_mem_chunk < 2 ^ 64" "x \<notin> set (inorder t)"
  shows "\<exists>ks. plug ks Leaf = t \<and> (\<forall>a\<in>set (before ks). a < x) \<and> (\<forall>a\<in>set (after ks). x < a)
    \<and> Malloc_link (word_of_nat (x + sizeof_mem_chunk)) (ptr_of t) (par_of k) (link_of k) st = Some (par_of (ks @ k), link_of (ks @ k))"
  using assms
proof (induction t arbitrary: k)
  case Leaf
  then show ?case by (intro exI [of _ "[]"]) (simp add: Malloc_link.simps)
next
  case (Node l a c r)
  note n = holds_node [OF Node.prems(1)]
  obtain ch where ch: "chunks st a = Some ch" "cptr ch = word_of_nat (a + sizeof_mem_chunk)" "a + sizeof_mem_chunk < 2 ^ 64"
    using Node.prems(3) by auto
  note ord = chunk_order [OF ch(3) Node.prems(4)] chunk_order [OF Node.prems(4) ch(3)]
  have s: "sorted_wrt (<) (inorder l)" "sorted_wrt (<) (inorder r)" "\<forall>b\<in>set (inorder l). b < a" "\<forall>b\<in>set (inorder r). a < b"
    using Node.prems(2) by (auto simp: sorted_wrt_append)
  have step: "Malloc_link (word_of_nat (x + sizeof_mem_chunk)) (Some a) p q st =
      (if x < a then Malloc_link (word_of_nat (x + sizeof_mem_chunk)) (ptr_of l) (Some a) (Link_left a) st
       else Malloc_link (word_of_nat (x + sizeof_mem_chunk)) (ptr_of r) (Some a) (Link_right a) st)" for p q
    using ch n ord Node.prems(5) by (subst Malloc_link.simps) (simp del: of_nat_add)
  consider "x < a" | "a < x" using Node.prems(5) by fastforce
  then show ?case
  proof cases
    case 1
    obtain ks where ks: "plug ks Leaf = l" "\<forall>b\<in>set (before ks). b < x" "\<forall>b\<in>set (after ks). x < b"
        "Malloc_link (word_of_nat (x + sizeof_mem_chunk)) (ptr_of l) (Some a) (Link_left a) st
          = Some (par_of (ks @ L a c r # k), link_of (ks @ L a c r # k))"
      using Node.IH(1) [of "L a c r # k"] Node.prems s by auto
    show ?thesis using ks 1 s(4) step
      by (intro exI [of _ "ks @ [L a c r]"]) (auto simp: plug_append before_append simp del: of_nat_add)
  next
    case 2
    obtain ks where ks: "plug ks Leaf = r" "\<forall>b\<in>set (before ks). b < x" "\<forall>b\<in>set (after ks). x < b"
        "Malloc_link (word_of_nat (x + sizeof_mem_chunk)) (ptr_of r) (Some a) (Link_right a) st
          = Some (par_of (ks @ R l a c # k), link_of (ks @ R l a c # k))"
      using Node.IH(2) [of "R l a c # k"] Node.prems s by auto
    show ?thesis using ks 2 s(3) step
      by (intro exI [of _ "ks @ [R l a c]"]) (auto simp: plug_append before_append simp del: of_nat_add)
  qed
qed

lemma find_append: "find P (xs @ ys) = (case find P xs of None \<Rightarrow> find P ys | Some v \<Rightarrow> Some v)"
  by (induction xs) auto

lemma find_none: "(\<forall>x\<in>set xs. \<not> P x) \<Longrightarrow> find P xs = None"
  by (induction xs) auto

lemma FindChunk_holds:
  assumes "holds (tree_mem st) (plug k t)" "sorted_wrt (<) (inorder t)" "\<forall>a\<in>set (inorder t). chunk_at st a"
  shows "FindChunk_loop p (ptr_of t) st = Some (find (\<lambda>a. word_of_nat (a + sizeof_mem_chunk) = p) (inorder t))"
  using assms
proof (induction t arbitrary: k)
  case Leaf
  then show ?case by (simp add: FindChunk_loop.simps)
next
  case (Node l a c r)
  let ?P = "\<lambda>a. word_of_nat (a + sizeof_mem_chunk) = p"
  note n = holds_node [OF Node.prems(1)]
  obtain ch where ch: "chunks st a = Some ch" "cptr ch = word_of_nat (a + sizeof_mem_chunk)" "a + sizeof_mem_chunk < 2 ^ 64"
    using Node.prems(3) by auto
  have s: "sorted_wrt (<) (inorder l)" "sorted_wrt (<) (inorder r)" "\<forall>b\<in>set (inorder l). b < a" "\<forall>b\<in>set (inorder r). a < b"
    using Node.prems(2) by (auto simp: sorted_wrt_append)
  have less: "(word_of_nat (a + sizeof_mem_chunk) :: u64) < word_of_nat (b + sizeof_mem_chunk)" if "b \<in> set (inorder r)" for b
    using chunk_order(1) [OF ch(3), of b] s(4) Node.prems(3) that by auto
  have more: "(word_of_nat (b + sizeof_mem_chunk) :: u64) < word_of_nat (a + sizeof_mem_chunk)" if "b \<in> set (inorder l)" for b
    using chunk_order(1) [OF _ ch(3), of b] s(3) Node.prems(3) that by auto
  have ih: "FindChunk_loop p (ptr_of l) st = Some (find ?P (inorder l))" "FindChunk_loop p (ptr_of r) st = Some (find ?P (inorder r))"
    using Node.IH(1) [of "L a c r # k"] Node.IH(2) [of "R l a c # k"] Node.prems s by auto
  let ?k = "word_of_nat (a + sizeof_mem_chunk) :: u64"
  consider (l) "?k > p" | (r) "?k < p" | (eq) "?k = p" by fastforce
  then show ?case
  proof cases
    case l
    then have "find ?P (inorder r) = None" using less by (intro find_none) fastforce
    then show ?thesis using l ch(1,2) n ih by (subst ptr_of.simps, subst FindChunk_loop.simps) (auto simp: find_append split: option.split simp del: of_nat_add)
  next
    case r
    then have "find ?P (inorder l) = None" using more by (intro find_none) fastforce
    then show ?thesis using r ch(1,2) n ih by (subst ptr_of.simps, subst FindChunk_loop.simps) (auto simp: find_append simp del: of_nat_add)
  next
    case eq
    then have "find ?P (inorder l) = None" using more by (intro find_none) fastforce
    then show ?thesis using eq ch(1,2) n by (subst ptr_of.simps, subst FindChunk_loop.simps) (simp add: find_append del: of_nat_add)
  qed
qed

lemma find_plug: "a \<in> set (inorder t) \<Longrightarrow> \<exists>k l c r. t = plug k (Node l a c r)"
proof (induction t)
  case (Node l b c r)
  then consider "a \<in> set (inorder l)" | "a = b" | "a \<in> set (inorder r)" by auto
  then show ?case
  proof cases
    case 1
    then obtain k l' c' r' where "l = plug k (Node l' a c' r')" using Node by blast
    then show ?thesis by (intro exI [of _ "k @ [L b c r]"] exI [of _ l'] exI [of _ c'] exI [of _ r']) (simp add: plug_append)
  next
    case 2
    then show ?thesis by (intro exI [of _ "[]"] exI [of _ l] exI [of _ c] exI [of _ r]) simp
  next
    case 3
    then obtain k l' c' r' where "r = plug k (Node l' a c' r')" using Node by blast
    then show ?thesis by (intro exI [of _ "k @ [R l b c]"] exI [of _ l'] exI [of _ c'] exI [of _ r']) (simp add: plug_append)
  qed
qed simp

lemma holds_outside:
  assumes "holds m t" "a \<notin> set (inorder t)"
  shows "holds (m\<lparr>nodes := (nodes m)(a := x)\<rparr>) t"
  using assms by (simp add: holds_def)

lemma live_new:
  assumes "live st xs" "startup st" "a \<notin> set xs" "a + sizeof_mem_chunk < 2 ^ 64"
  shows "\<exists>st'. operator_new_at (Some a) n size_arg filename line st = Some (Some (word_of_nat (a + sizeof_mem_chunk)), st')
    \<and> live st' (takeWhile (\<lambda>b. b < a) xs @ a # dropWhile (\<lambda>b. b < a) xs) \<and> startup st'
    \<and> chunks st' = (chunks st)(a \<mapsto> \<lparr>cptr = word_of_nat (a + sizeof_mem_chunk), csize = size_arg, cfile = filename, cline = line\<rparr>)"
proof -
  let ?c = "\<lparr>cptr = word_of_nat (a + sizeof_mem_chunk), csize = size_arg, cfile = filename, cline = line\<rparr>"
  let ?st = "new_chunk a n ?c st"
  obtain t where t: "holds (tree_mem st) t" "rb_inv t" "sorted_wrt (<) xs" "\<forall>b\<in>set xs. chunk_at st b" "inorder t = xs"
    using assms(1) by (auto simp: live_def mem_ok_def)
  have h: "holds (tree_mem ?st) (plug [] t)" using holds_outside [OF t(1)] assms(3) t(5) by (simp add: new_chunk_def)
  have ch: "\<forall>b\<in>set (inorder t). chunk_at ?st b" using t(4,5) assms(3) by (auto simp: new_chunk_def)
  obtain ks where ks: "plug ks Leaf = t" "\<forall>b\<in>set (before ks). b < a" "\<forall>b\<in>set (after ks). a < b"
      "Malloc_link (word_of_nat (a + sizeof_mem_chunk)) (ptr_of t) None Link_root ?st = Some (par_of ks, link_of ks)"
    using Malloc_link_holds [OF h _ ch assms(4)] t(3,5) assms(3) by auto
  have r: "root_node (tree_mem ?st) = ptr_of t" using h by (simp add: holds_def)
  obtain m1 m2 t' where m: "rb_link_node (Some a) (par_of ks) (link_of ks) (tree_mem ?st) = Some m1" "rb_insert_color (Some a) m1 = Some m2"
      "holds m2 t'" "rb_inv t'" "inorder t' = before ks @ a # after ks"
    using insert_holds [of "tree_mem ?st" ks a] h ks(1) t(2,5) assms(3) by (auto simp: new_chunk_def)
  have xs: "xs = before ks @ after ks" using ks(1) t(5) by (auto simp: inorder_plug)
  have split: "takeWhile (\<lambda>b. b < a) xs = before ks" "dropWhile (\<lambda>b. b < a) xs = after ks"
    using ks(2,3) unfolding xs by (induction "before ks") (cases "after ks"; auto)+
  have M: "Malloc a ?st = Some (?st\<lparr>tree_mem := m2\<rparr>)"
    using ks(4) m(1,2) r by (simp add: Malloc_def new_chunk_def del: of_nat_add)
  have "mem_ok (?st\<lparr>tree_mem := m2\<rparr>) t'"
    using m(3,4,5) t(3,4) ks(2,3) assms(3,4) xs
    by (auto simp: mem_ok_def new_chunk_def sorted_wrt_append)
  then have "live (?st\<lparr>tree_mem := m2\<rparr>) (before ks @ a # after ks)" using m(5) by (auto simp: live_def)
  then show ?thesis using M assms(2) split by (simp add: operator_new_at_def Let_def new_chunk_def del: of_nat_add)
qed

lemma erase_live:
  assumes "live st xs" "a \<in> set xs"
  shows "\<exists>m. rb_erase (Some a) (tree_mem st) = Some m \<and> live (free_chunk a (st\<lparr>tree_mem := m\<rparr>)) (remove1 a xs)"
proof -
  obtain t where t: "holds (tree_mem st) t" "rb_inv t" "sorted_wrt (<) xs" "\<forall>b\<in>set xs. chunk_at st b" "inorder t = xs"
    using assms(1) by (auto simp: live_def mem_ok_def)
  obtain k l c r where k: "t = plug k (Node l a c r)" using find_plug assms(2) t(5) by blast
  obtain m t' where m: "rb_erase (Some a) (tree_mem st) = Some m" "holds m t'" "rb_inv t'" "inorder t' = before k @ inorder l @ inorder r @ after k"
    using erase_holds [of "tree_mem st" k l a c r] t(1,2) k by auto
  have xs: "xs = (before k @ inorder l) @ a # (inorder r @ after k)" using t(5) k by (simp add: inorder_plug)
  have d: "distinct xs" using t(1,5) by (simp add: holds_def)
  have r1: "remove1 a xs = inorder t'" using d m(4) unfolding xs by (simp add: remove1_append)
  have a: "a \<notin> set (inorder t')" using d m(4) unfolding xs by auto
  have sub: "set (inorder t') \<subseteq> set xs" unfolding xs m(4) by auto
  have "sorted_wrt (<) (inorder t')" using t(3) unfolding xs m(4) by (auto simp: sorted_wrt_append)
  then have "mem_ok (free_chunk a (st\<lparr>tree_mem := m\<rparr>)) t'"
    using holds_outside [OF m(2) a] m(3) t(4) a sub by (auto simp: mem_ok_def free_chunk_def)
  then show ?thesis using m(1) r1 by (auto simp: live_def)
qed

lemma live_delete:
  assumes "live st xs" "startup st"
  shows "\<exists>st'. delete_block p st = Some st' \<and> startup st' \<and>
    (case find (\<lambda>a. word_of_nat (a + sizeof_mem_chunk) = p) xs of None \<Rightarrow> st' = st
     | Some a \<Rightarrow> live st' (remove1 a xs) \<and> chunks st' = (chunks st)(a := None))"
proof -
  let ?f = "find (\<lambda>a. word_of_nat (a + sizeof_mem_chunk) = p) xs"
  obtain t where t: "mem_ok st t" "inorder t = xs" using assms(1) by (auto simp: live_def)
  have "FindChunk_loop p (ptr_of t) st = Some ?f"
    using FindChunk_holds [of st "[]" t p] t by (simp add: mem_ok_def)
  moreover have "root_node (tree_mem st) = ptr_of t" using t(1) by (simp add: mem_ok_def holds_def)
  ultimately have F: "FindChunkNolocked p st = Some ?f" by (simp add: FindChunkNolocked_def)
  show ?thesis
  proof (cases ?f)
    case None
    then show ?thesis using F assms(2) by (simp add: delete_block_def Free_def)
  next
    case (Some a)
    then have "a \<in> set xs" by (auto simp: find_Some_iff)
    then obtain m where "rb_erase (Some a) (tree_mem st) = Some m" "live (free_chunk a (st\<lparr>tree_mem := m\<rparr>)) (remove1 a xs)"
      using erase_live [OF assms(1)] by blast
    then show ?thesis using F Some assms(2) by (simp add: delete_block_def Free_def free_chunk_def)
  qed
qed

lemma live_startup [simp]: "live (st\<lparr>startup := b\<rparr>) xs = live st xs"
  by (simp add: live_def mem_ok_def)

lemma dtor_live:
  assumes "live st xs"
  shows "\<exists>st'. dtor_loop (first_of xs) report st = Some (report @ map (\<lambda>a. the (chunks st a)) xs, st') \<and> live st' []
    \<and> startup st' = startup st"
  using assms
proof (induction xs arbitrary: st report)
  case Nil
  then show ?case by (simp add: dtor_loop.simps)
next
  case (Cons a xs)
  obtain t where t: "mem_ok st t" "inorder t = a # xs" using Cons.prems by (auto simp: live_def)
  then have d: "a \<notin> set xs" by (auto simp: mem_ok_def)
  obtain k l c r where k: "t = plug k (Node l a c r)" using find_plug [of a t] t(2) by auto
  have io: "before k @ inorder l @ a # inorder r @ after k = a # xs" using t(2) k by (simp add: inorder_plug)
  then have "(before k @ inorder l) @ a # inorder r @ after k = a # xs" by simp
  then have "before k @ inorder l = []"
    using d unfolding append_eq_Cons_conv by auto
  then have nx: "rb_next (Some a) (tree_mem st) = Some (first_of xs)"
    using next_holds(1) [of "tree_mem st" k l a c r] t(1) k io by (auto simp: mem_ok_def)
  obtain m where m: "rb_erase (Some a) (tree_mem st) = Some m" "live (free_chunk a (st\<lparr>tree_mem := m\<rparr>)) xs"
    using erase_live [OF Cons.prems, of a] by auto
  let ?st = "free_chunk a (st\<lparr>tree_mem := m\<rparr>)"
  have cs: "chunks ?st = (chunks st)(a := None)" by (simp add: free_chunk_def)
  obtain ch where ch: "chunks st a = Some ch" using t by (auto simp: mem_ok_def)
  obtain st' where st': "dtor_loop (first_of xs) (report @ [ch]) ?st = Some ((report @ [ch]) @ map (\<lambda>a. the (chunks ?st a)) xs, st')"
      "live st' []" "startup st' = startup ?st" using Cons.IH [OF m(2)] by blast
  have "map (\<lambda>a. the (chunks ?st a)) xs = map (\<lambda>a. the (chunks st a)) xs" using d by (auto simp: cs)
  moreover have "startup st' = startup st" using st'(3) by (simp add: free_chunk_def)
  ultimately show ?case using st'(1,2) nx m(1) ch by (simp add: dtor_loop.simps [of "Some a"])
qed

section \<open>Runs of the program\<close>

text \<open>
  The program is a sequence of calls of \<open>new\<close> and \<open>delete\<close>. When a specification simulates each step of
  a model, it simulates the runs.
\<close>

fun run_ops :: "('op \<Rightarrow> 's \<Rightarrow> 's option) \<Rightarrow> 'op list \<Rightarrow> 's \<Rightarrow> 's option" where
  "run_ops f [] s = Some s"
| "run_ops f (p # ps) s = do { s \<leftarrow> f p s; run_ops f ps s }"

locale step_refinement =
  fixes step :: "'op \<Rightarrow> 's \<Rightarrow> 's option"
    and spec :: "'op \<Rightarrow> 'a \<Rightarrow> 'a option"
    and sim :: "'s \<Rightarrow> 'a \<Rightarrow> bool"
  assumes step_refines: "sim s x \<Longrightarrow> spec p x = Some x' \<Longrightarrow> \<exists>s'. step p s = Some s' \<and> sim s' x'"
begin

lemma runs_simulate: "sim s x \<Longrightarrow> run_ops spec ps x = Some x' \<Longrightarrow> \<exists>s'. run_ops step ps s = Some s' \<and> sim s' x'"
proof (induction ps arbitrary: s x)
  case (Cons p ps)
  then obtain y where y: "spec p x = Some y" "run_ops spec ps y = Some x'" by (auto split: bind_splits)
  then obtain s' where "step p s = Some s'" "sim s' y" using step_refines [OF Cons.prems(1)] by blast
  then show ?case using Cons.IH y(2) by fastforce
qed simp

end

text \<open>
  The calls, with the block that \<open>malloc\<close> gives to \<open>new\<close> and the old contents of its node. In the
  specification the state is the map from the headers of the live blocks to what was recorded; it
  leaves open what happens when \<open>malloc\<close> returns a block that is in use or lies at the end of the
  address space.
\<close>

datatype mem_op = New "nat option" rb_node nat "cstring option" int | Delete u64

fun mem_step :: "mem_op \<Rightarrow> DebugMemCheck \<Rightarrow> DebugMemCheck option" where
  "mem_step (New block n size_arg filename line) st = map_option snd (operator_new_at block n size_arg filename line st)"
| "mem_step (Delete p) st = operator_delete p st"

fun live_step :: "mem_op \<Rightarrow> (nat \<rightharpoonup> mem_chunk) \<Rightarrow> (nat \<rightharpoonup> mem_chunk) option" where
  "live_step (New None n size_arg filename line) M = Some M"
| "live_step (New (Some a) n size_arg filename line) M =
     (if M a \<noteq> None \<or> a + sizeof_mem_chunk \<ge> 2 ^ 64 then None
      else Some (M(a \<mapsto> \<lparr>cptr = word_of_nat (a + sizeof_mem_chunk), csize = size_arg, cfile = filename, cline = line\<rparr>)))"
| "live_step (Delete p) M = Some (\<lambda>a. if p \<noteq> 0 \<and> p = word_of_nat (a + sizeof_mem_chunk) then None else M a)"

definition live_sim :: "DebugMemCheck \<Rightarrow> (nat \<rightharpoonup> mem_chunk) \<Rightarrow> bool" where
  "live_sim st M \<longleftrightarrow> startup st \<and> (\<exists>xs. live st xs \<and> M = chunks st |` set xs)"

lemma live_facts:
  assumes "live st xs"
  shows "distinct xs" "sorted_wrt (<) xs" "a \<in> set xs \<Longrightarrow> chunks st a \<noteq> None" "a \<in> set xs \<Longrightarrow> a + sizeof_mem_chunk < 2 ^ 64"
  using assms by (auto simp: live_def mem_ok_def holds_def)

lemma new_refines:
  assumes "live_sim st M" "live_step (New (Some a) n size_arg filename line) M = Some M'"
  shows "\<exists>st'. mem_step (New (Some a) n size_arg filename line) st = Some st' \<and> live_sim st' M'"
proof -
  obtain xs where xs: "startup st" "live st xs" "M = chunks st |` set xs" using assms(1) by (auto simp: live_sim_def)
  have a: "a \<notin> set xs" "a + sizeof_mem_chunk < 2 ^ 64"
    using assms(2) live_facts(3) [OF xs(2), of a] xs(3) by (auto simp: restrict_map_def split: if_splits)
  let ?c = "\<lparr>cptr = word_of_nat (a + sizeof_mem_chunk), csize = size_arg, cfile = filename, cline = line\<rparr>"
  let ?ys = "takeWhile (\<lambda>b. b < a) xs @ a # dropWhile (\<lambda>b. b < a) xs"
  have "M' = M(a \<mapsto> ?c)" using assms(2) by (auto split: if_splits)
  moreover have "set ?ys = insert a (set xs)" using set_append [of "takeWhile (\<lambda>b. b < a) xs" "dropWhile (\<lambda>b. b < a) xs"] by auto
  ultimately have "M' = ((chunks st)(a \<mapsto> ?c)) |` set ?ys" unfolding xs(3) by (auto simp: restrict_map_def)
  moreover obtain st' where st': "mem_step (New (Some a) n size_arg filename line) st = Some st'" "live st' ?ys" "startup st'"
      "chunks st' = (chunks st)(a \<mapsto> ?c)"
    using live_new [OF xs(2,1) a, where n = n and size_arg = size_arg and filename = filename and line = line] by auto
  ultimately have "live_sim st' M'" unfolding live_sim_def by metis
  then show ?thesis using st'(1) by blast
qed

lemma delete_refines:
  assumes "live_sim st M" "live_step (Delete p) M = Some M'"
  shows "\<exists>st'. mem_step (Delete p) st = Some st' \<and> live_sim st' M'"
proof -
  obtain xs where xs: "startup st" "live st xs" "M = chunks st |` set xs" using assms(1) by (auto simp: live_sim_def)
  note f = live_facts [OF xs(2)]
  have M': "M' a = (if p \<noteq> 0 \<and> p = word_of_nat (a + sizeof_mem_chunk) then None else M a)" for a
    using assms(2) by (auto simp del: of_nat_add)
  let ?f = "find (\<lambda>a. word_of_nat (a + sizeof_mem_chunk) = p) xs"
  obtain st' where st': "delete_block p st = Some st'" "startup st'"
      "case ?f of None \<Rightarrow> st' = st | Some a \<Rightarrow> live st' (remove1 a xs) \<and> chunks st' = (chunks st)(a := None)"
    using live_delete [OF xs(2,1), of p] by blast
  consider (null) "p = 0" | (none) "p \<noteq> 0" "?f = None" | (some) b where "p \<noteq> 0" "?f = Some b" by (cases ?f) auto
  then show ?thesis
  proof cases
    case null
    then show ?thesis using assms by (simp add: operator_delete_def)
  next
    case none
    then have "a \<notin> set xs" if "p = word_of_nat (a + sizeof_mem_chunk)" for a
      using that by (auto simp: find_None_iff simp del: of_nat_add)
    then have "M' a = M a" for a using M' [of a] by (auto simp: xs(3) simp del: of_nat_add)
    then have "M' = M" by blast
    then show ?thesis using none st' assms(1) by (simp add: operator_delete_def)
  next
    case (some b)
    then have b: "b \<in> set xs" "p = word_of_nat (b + sizeof_mem_chunk)" by (auto simp: find_Some_iff simp del: of_nat_add)
    have "p = word_of_nat (a + sizeof_mem_chunk) \<longleftrightarrow> a = b" if "a \<in> set xs" for a
      unfolding b(2) using chunk_order(2) [OF f(4) [OF that] f(4) [OF b(1)]] by auto
    then have "M' a = (((chunks st)(b := None)) |` set (remove1 b xs)) a" for a
      using M' [of a] some(1) f(1) b by (auto simp: xs(3) restrict_map_def simp del: of_nat_add)
    then have "M' = ((chunks st)(b := None)) |` set (remove1 b xs)" by blast
    then show ?thesis using st' some by (auto simp: operator_delete_def live_sim_def)
  qed
qed

interpretation memcheck: step_refinement mem_step live_step live_sim
proof
  fix s x p x'
  assume a: "live_sim s x" "live_step p x = Some x'"
  show "\<exists>s'. mem_step p s = Some s' \<and> live_sim s' x'"
  proof (cases p)
    case (New block n size_arg filename line)
    show ?thesis
    proof (cases block)
      case None
      then show ?thesis using a New by (simp add: operator_new_at_def live_sim_def)
    next
      case (Some b)
      then show ?thesis using new_refines a New by blast
    qed
  qed (use a delete_refines in blast)
qed

lemma live_sim_init: "live_sim (DebugMemCheck_new m cs) Map.empty"
proof -
  have "bal 0 Leaf" by simp
  then have "mem_ok (DebugMemCheck_new m cs) Leaf" by (auto simp: mem_ok_def DebugMemCheck_new_def holds_def rb_inv_def)
  then show ?thesis by (force simp: live_sim_def live_def DebugMemCheck_new_def)
qed

lemma report_live:
  assumes "live_sim st M"
  shows "\<exists>st'. DebugMemCheck_delete st = Some (map (\<lambda>a. the (M a)) (sorted_list_of_set (dom M)), st') \<and> live st' [] \<and> \<not> startup st'"
proof -
  obtain xs where xs: "live st xs" "M = chunks st |` set xs" using assms by (auto simp: live_sim_def)
  note f = live_facts [OF xs(1)]
  have l: "live (st\<lparr>startup := False\<rparr>) xs" using xs(1) by simp
  then obtain t where "holds (tree_mem st) t" "inorder t = xs" by (auto simp: live_def mem_ok_def)
  then have r: "rb_first (tree_mem st) = Some (first_of xs)" using walk_holds(1) by auto
  have "dom M = set xs" using f(3) xs(2) by (auto simp: dom_def restrict_map_def split: if_splits)
  then have "sorted_list_of_set (dom M) = xs"
    using f(1,2) by (simp add: strict_sorted_iff sorted_list_of_set.idem_if_sorted_distinct)
  moreover have "map (\<lambda>a. the (chunks st a)) xs = map (\<lambda>a. the (M a)) xs" by (auto simp: xs(2))
  ultimately show ?thesis using dtor_live [OF l, of "[]"] r by (auto simp: DebugMemCheck_delete_def)
qed

section \<open>Properties\<close>

text \<open>
  (C7) The leak report is exact. Take any program run, a sequence of \<open>new\<close> and \<open>delete\<close> in which \<open>malloc\<close>
  never returns a block that is in use; \<open>delete\<close> may get any address. Then no operation faults, and
  the destructor at the end reports exactly the blocks that were not deleted, each once, with the
  size, file and line of its \<open>new\<close>, in the order of the addresses, and leaves the tree empty.
\<close>

theorem leak_report_exact:
  assumes "run_ops live_step ops Map.empty = Some M"
  shows "\<exists>st st'. run_ops mem_step ops (DebugMemCheck_new m cs) = Some st
    \<and> DebugMemCheck_delete st = Some (map (\<lambda>a. the (M a)) (sorted_list_of_set (dom M)), st')
    \<and> root_node (tree_mem st') = None \<and> \<not> startup st'"
proof -
  obtain st where st: "run_ops mem_step ops (DebugMemCheck_new m cs) = Some st" "live_sim st M"
    using memcheck.runs_simulate [OF live_sim_init assms] by blast
  obtain st' where "DebugMemCheck_delete st = Some (map (\<lambda>a. the (M a)) (sorted_list_of_set (dom M)), st')" "live st' []" "\<not> startup st'"
    using report_live [OF st(2)] by blast
  moreover have "root_node (tree_mem st') = None" using \<open>live st' []\<close> by (auto simp: live_def mem_ok_def holds_def)
  ultimately show ?thesis using st(1) by blast
qed

theorem leak_report_exact_witness:
  "let n = \<lparr>rb_parent = None, rb_color = RB_BLACK, rb_right = None, rb_left = None\<rparr>
   in \<exists>st st'. run_ops mem_step [New (Some 512) n 3 None 7, New (Some 256) n 5 None 8, Delete 320, Delete 12]
          (DebugMemCheck_new \<lparr>nodes = Map.empty, root_node = None\<rparr> Map.empty) = Some st
    \<and> DebugMemCheck_delete st = Some ([\<lparr>cptr = 576, csize = 3, cfile = None, cline = 7\<rparr>], st')
    \<and> root_node (tree_mem st') = None \<and> \<not> startup st'"
proof -
  let ?n = "\<lparr>rb_parent = None, rb_color = RB_BLACK, rb_right = None, rb_left = None\<rparr>"
  have "run_ops live_step [New (Some 512) ?n 3 None 7, New (Some 256) ?n 5 None 8, Delete 320, Delete 12] Map.empty
    = Some [512 \<mapsto> \<lparr>cptr = 576, csize = 3, cfile = None, cline = 7\<rparr>]"
    by (auto simp: sizeof_mem_chunk_def fun_eq_iff)
  from leak_report_exact [OF this, of "\<lparr>nodes = Map.empty, root_node = None\<rparr>" Map.empty] show ?thesis
    unfolding Let_def by simp
qed

end
