(* ===== verification/Ring.thy ===== *)
theory Ring
  imports Main "HOL-Library.Monad_Syntax"
begin

text \<open>
  \<^verbatim>\<open>public/thread/base_ring.h\<close>: the macros for doubly linked rings. A ring is a head and elements that
  each contain a pair of pointers; \<open>link\<close> is the first member of every element, so the sentinel, the
  address that the head would have as an element, is the address of the head. The memory
  is the two fields of every address. Each macro is the sequence of its assignments, and the theorems
  show that on a ring that holds a list it does what its name says to the list, and nothing to
  other rings.
\<close>

section \<open>The macros\<close>

record ring_mem =
  nxt :: "nat \<Rightarrow> nat"
  prv :: "nat \<Rightarrow> nat"

definition set_next :: "nat \<Rightarrow> nat \<Rightarrow> ring_mem \<Rightarrow> ring_mem" where
  "set_next a x m = m\<lparr>nxt := (nxt m)(a := x)\<rparr>"

definition set_prev :: "nat \<Rightarrow> nat \<Rightarrow> ring_mem \<Rightarrow> ring_mem" where
  "set_prev a x m = m\<lparr>prv := (prv m)(a := x)\<rparr>"

definition BASE_RING_SENTINEL :: "nat \<Rightarrow> nat" where
  "BASE_RING_SENTINEL hp = hp"

definition BASE_RING_FIRST :: "nat \<Rightarrow> ring_mem \<Rightarrow> nat" where
  "BASE_RING_FIRST hp m = nxt m hp"

definition BASE_RING_LAST :: "nat \<Rightarrow> ring_mem \<Rightarrow> nat" where
  "BASE_RING_LAST hp m = prv m hp"

definition BASE_RING_NEXT :: "nat \<Rightarrow> ring_mem \<Rightarrow> nat" where
  "BASE_RING_NEXT ep m = nxt m ep"

definition BASE_RING_PREV :: "nat \<Rightarrow> ring_mem \<Rightarrow> nat" where
  "BASE_RING_PREV ep m = prv m ep"

definition BASE_RING_INIT :: "nat \<Rightarrow> ring_mem \<Rightarrow> ring_mem" where
  "BASE_RING_INIT hp m = set_prev hp (BASE_RING_SENTINEL hp) (set_next hp (BASE_RING_SENTINEL hp) m)"

definition BASE_RING_EMPTY :: "nat \<Rightarrow> ring_mem \<Rightarrow> bool" where
  "BASE_RING_EMPTY hp m \<longleftrightarrow> BASE_RING_FIRST hp m = BASE_RING_SENTINEL hp"

definition BASE_RING_ELEM_INIT :: "nat \<Rightarrow> ring_mem \<Rightarrow> ring_mem" where
  "BASE_RING_ELEM_INIT ep m = set_prev ep ep (set_next ep ep m)"

definition BASE_RING_SPLICE_BEFORE :: "nat \<Rightarrow> nat \<Rightarrow> nat \<Rightarrow> ring_mem \<Rightarrow> ring_mem" where
  "BASE_RING_SPLICE_BEFORE lep ep1 epN m =
     (let m = set_next epN lep m;
          m = set_prev ep1 (BASE_RING_PREV lep m) m;
          m = set_next (BASE_RING_PREV lep m) ep1 m
      in set_prev lep epN m)"

definition BASE_RING_SPLICE_AFTER :: "nat \<Rightarrow> nat \<Rightarrow> nat \<Rightarrow> ring_mem \<Rightarrow> ring_mem" where
  "BASE_RING_SPLICE_AFTER lep ep1 epN m =
     (let m = set_prev ep1 lep m;
          m = set_next epN (BASE_RING_NEXT lep m) m;
          m = set_prev (BASE_RING_NEXT lep m) epN m
      in set_next lep ep1 m)"

definition BASE_RING_INSERT_BEFORE :: "nat \<Rightarrow> nat \<Rightarrow> ring_mem \<Rightarrow> ring_mem" where
  "BASE_RING_INSERT_BEFORE lep nep m = BASE_RING_SPLICE_BEFORE lep nep nep m"

definition BASE_RING_INSERT_AFTER :: "nat \<Rightarrow> nat \<Rightarrow> ring_mem \<Rightarrow> ring_mem" where
  "BASE_RING_INSERT_AFTER lep nep m = BASE_RING_SPLICE_AFTER lep nep nep m"

definition BASE_RING_SPLICE_HEAD :: "nat \<Rightarrow> nat \<Rightarrow> nat \<Rightarrow> ring_mem \<Rightarrow> ring_mem" where
  "BASE_RING_SPLICE_HEAD hp ep1 epN m = BASE_RING_SPLICE_AFTER (BASE_RING_SENTINEL hp) ep1 epN m"

definition BASE_RING_SPLICE_TAIL :: "nat \<Rightarrow> nat \<Rightarrow> nat \<Rightarrow> ring_mem \<Rightarrow> ring_mem" where
  "BASE_RING_SPLICE_TAIL hp ep1 epN m = BASE_RING_SPLICE_BEFORE (BASE_RING_SENTINEL hp) ep1 epN m"

definition BASE_RING_INSERT_HEAD :: "nat \<Rightarrow> nat \<Rightarrow> ring_mem \<Rightarrow> ring_mem" where
  "BASE_RING_INSERT_HEAD hp nep m = BASE_RING_SPLICE_HEAD hp nep nep m"

definition BASE_RING_INSERT_TAIL :: "nat \<Rightarrow> nat \<Rightarrow> ring_mem \<Rightarrow> ring_mem" where
  "BASE_RING_INSERT_TAIL hp nep m = BASE_RING_SPLICE_TAIL hp nep nep m"

definition BASE_RING_CONCAT :: "nat \<Rightarrow> nat \<Rightarrow> ring_mem \<Rightarrow> ring_mem" where
  "BASE_RING_CONCAT h1 h2 m =
     (if BASE_RING_EMPTY h2 m then m
      else BASE_RING_INIT h2
             (BASE_RING_SPLICE_BEFORE (BASE_RING_SENTINEL h1) (BASE_RING_FIRST h2 m) (BASE_RING_LAST h2 m) m))"

definition BASE_RING_PREPEND :: "nat \<Rightarrow> nat \<Rightarrow> ring_mem \<Rightarrow> ring_mem" where
  "BASE_RING_PREPEND h1 h2 m =
     (if BASE_RING_EMPTY h2 m then m
      else BASE_RING_INIT h2
             (BASE_RING_SPLICE_AFTER (BASE_RING_SENTINEL h1) (BASE_RING_FIRST h2 m) (BASE_RING_LAST h2 m) m))"

definition BASE_RING_UNSPLICE :: "nat \<Rightarrow> nat \<Rightarrow> ring_mem \<Rightarrow> ring_mem" where
  "BASE_RING_UNSPLICE ep1 epN m =
     (let m = set_next (BASE_RING_PREV ep1 m) (BASE_RING_NEXT epN m) m
      in set_prev (BASE_RING_NEXT epN m) (BASE_RING_PREV ep1 m) m)"

definition BASE_RING_REMOVE :: "nat \<Rightarrow> ring_mem \<Rightarrow> ring_mem" where
  "BASE_RING_REMOVE ep m = BASE_RING_UNSPLICE ep ep m"

text \<open>The loop of \<open>BASE_RING_FOREACH\<close>, as the list of the elements it visits.\<close>

partial_function (option) BASE_RING_FOREACH :: "nat \<Rightarrow> nat \<Rightarrow> ring_mem \<Rightarrow> nat list option" where
  "BASE_RING_FOREACH ep head m =
     (if ep = BASE_RING_SENTINEL head then Some []
      else do { eps \<leftarrow> BASE_RING_FOREACH (BASE_RING_NEXT ep m) head m; Some (ep # eps) })"

section \<open>Rings as lists\<close>

text \<open>\<open>linked m as\<close>: every address of the list points to the next one and back.\<close>

fun linked :: "ring_mem \<Rightarrow> nat list \<Rightarrow> bool" where
  "linked m (a # b # as) \<longleftrightarrow> nxt m a = b \<and> prv m b = a \<and> linked m (b # as)"
| "linked m as \<longleftrightarrow> True"

definition ring_at :: "ring_mem \<Rightarrow> nat \<Rightarrow> nat list \<Rightarrow> bool" where
  "ring_at m h xs \<longleftrightarrow> distinct (h # xs) \<and> linked m (h # xs @ [h])"

lemma linked_Cons: "linked m (a # as) \<longleftrightarrow> as = [] \<or> nxt m a = hd as \<and> prv m (hd as) = a \<and> linked m as"
  by (cases as) auto

lemma linked_join:
  assumes "as \<noteq> []" "bs \<noteq> []"
  shows "linked m (as @ bs) \<longleftrightarrow> linked m as \<and> linked m bs \<and> nxt m (last as) = hd bs \<and> prv m (hd bs) = last as"
  using assms by (induction as) (auto simp: linked_Cons hd_append)

lemma linked_frame:
  assumes "\<And>a. a \<in> set (butlast as) \<Longrightarrow> nxt m' a = nxt m a" "\<And>a. a \<in> set (tl as) \<Longrightarrow> prv m' a = prv m a"
  shows "linked m' as = linked m as"
  using assms by (induction as rule: linked.induct [of _ m]) auto

lemma linked_upd [simp]:
  "a \<notin> set (butlast as) \<Longrightarrow> linked (set_next a x m) as = linked m as"
  "b \<notin> set (tl as) \<Longrightarrow> linked (set_prev b x m) as = linked m as"
  by (intro linked_frame; auto simp: set_next_def set_prev_def)+

lemma linked_outside [simp]:
  "a \<notin> set as \<Longrightarrow> linked (set_next a x m) as = linked m as"
  "a \<notin> set as \<Longrightarrow> linked (set_prev a x m) as = linked m as"
  by (intro linked_upd; auto dest: in_set_butlastD list.set_sel(2) [rotated]; cases as; auto)+

lemma ring_upd [simp]:
  "nxt (set_next a x m) = (nxt m)(a := x)" "prv (set_next a x m) = prv m"
  "nxt (set_prev a x m) = nxt m" "prv (set_prev a x m) = (prv m)(a := x)"
  by (simp_all add: set_next_def set_prev_def)

lemma splice_before_at:
  assumes "ring_at m h (xs @ ys)" "linked m es" "es \<noteq> []" "distinct es" "set es \<inter> set (h # xs @ ys) = {}"
  shows "ring_at (BASE_RING_SPLICE_BEFORE (hd (ys @ [h])) (hd es) (last es) m) h (xs @ es @ ys)"
proof -
  let ?l = "hd (ys @ [h])" and ?p = "last (h # xs)"
  let ?m = "set_prev ?l (last es) (set_next ?p (hd es) (set_prev (hd es) ?p (set_next (last es) ?l m)))"
  have d: "distinct (h # xs @ ys)" "linked m (h # xs)" "linked m (ys @ [h])" "prv m ?l = ?p"
    using assms(1) linked_join [of "h # xs" "ys @ [h]" m] by (auto simp: ring_at_def simp del: last.simps)
  have e: "hd es \<in> set es" "last es \<in> set es" using assms(3) by auto
  have p: "?p \<in> set (h # xs)" "?l \<in> set (h # ys)" "?p \<notin> set (butlast (h # xs))" "?l \<notin> set xs"
      "?l \<notin> set (tl (ys @ [h]))" "?p \<notin> set ys"
    using d(1) by (cases xs rule: rev_cases; cases ys; auto)+
  have e': "hd es \<notin> set (tl es)" "last es \<notin> set (butlast es)"
    using assms(3,4) by (cases es; simp) (cases es rule: rev_cases; use assms(3,4) in simp)
  have neq: "?l \<noteq> hd es" "?p \<noteq> last es" "?p \<noteq> hd es" "?l \<noteq> last es" using e p(1,2) assms(5) by (auto simp del: last.simps)
  have eq: "BASE_RING_SPLICE_BEFORE ?l (hd es) (last es) m = ?m"
    using neq d(4) by (simp add: BASE_RING_SPLICE_BEFORE_def BASE_RING_PREV_def Let_def del: last.simps)
  have out: "hd es \<notin> set (h # xs @ ys)" "last es \<notin> set (h # xs @ ys)" "?l \<notin> set es" "?p \<notin> set es"
    using e p(1,2) assms(5) by (auto simp del: last.simps)
  have "linked ?m (h # xs)" using d(2) p out by (simp del: last.simps butlast.simps)
  moreover have "linked ?m es" using assms(2) e' out by (simp del: last.simps)
  moreover have "linked ?m (ys @ [h])" using d(3) p out by (simp del: last.simps)
  ultimately have "linked ?m ((h # xs) @ es @ ys @ [h])"
    using neq assms(3) by (subst linked_join; (subst linked_join)?; simp del: last.simps)
  then show ?thesis using eq d(1) assms(4,5) by (auto simp: ring_at_def)
qed

lemma splice_after_before:
  assumes "nxt m p = l" "prv m l = p" "p \<noteq> eN" "l \<noteq> e1"
  shows "BASE_RING_SPLICE_AFTER p e1 eN m = BASE_RING_SPLICE_BEFORE l e1 eN m"
  using assms
  by (auto simp: BASE_RING_SPLICE_AFTER_def BASE_RING_SPLICE_BEFORE_def BASE_RING_PREV_def BASE_RING_NEXT_def
      set_next_def set_prev_def Let_def fun_eq_iff)

lemma ring_links:
  assumes "ring_at m h (xs @ ys)"
  shows "nxt m (last (h # xs)) = hd (ys @ [h])" "prv m (hd (ys @ [h])) = last (h # xs)"
  using assms linked_join [of "h # xs" "ys @ [h]" m] by (auto simp: ring_at_def simp del: last.simps)

lemma splice_after_at:
  assumes "ring_at m h (xs @ ys)" "linked m es" "es \<noteq> []" "distinct es" "set es \<inter> set (h # xs @ ys) = {}"
  shows "ring_at (BASE_RING_SPLICE_AFTER (last (h # xs)) (hd es) (last es) m) h (xs @ es @ ys)"
proof -
  have e: "hd es \<in> set es" "last es \<in> set es" using assms(3) by auto
  have "last (h # xs) \<in> set (h # xs)" "hd (ys @ [h]) \<in> set (h # ys)" by (auto simp: hd_append)
  then have "last (h # xs) \<noteq> last es" "hd (ys @ [h]) \<noteq> hd es" using e assms(5) by (auto simp del: last.simps)
  then show ?thesis
    using splice_before_at [OF assms] splice_after_before [OF ring_links [OF assms(1)]] by metis
qed

lemma unsplice_at:
  assumes "ring_at m h (xs @ es @ ys)" "es \<noteq> []"
  shows "ring_at (BASE_RING_UNSPLICE (hd es) (last es) m) h (xs @ ys)"
proof -
  let ?l = "hd (ys @ [h])" and ?p = "last (h # xs)"
  let ?m = "set_prev ?l ?p (set_next ?p ?l m)"
  have d: "distinct (h # xs @ es @ ys)" "linked m (h # xs)" "linked m (ys @ [h])" "prv m (hd es) = ?p" "nxt m (last es) = ?l"
    using assms linked_join [of "h # xs" "es @ ys @ [h]" m] linked_join [of es "ys @ [h]" m]
    by (auto simp: ring_at_def simp del: last.simps)
  have p: "?p \<in> set (h # xs)" "?p \<notin> set (butlast (h # xs))" "?l \<notin> set xs" "?l \<notin> set (tl (ys @ [h]))" "?p \<notin> set ys"
    using d(1) by (cases xs rule: rev_cases; cases ys; auto)+
  have "?p \<noteq> last es" using p(1) d(1) assms(2) last_in_set by (auto simp del: last.simps)
  then have eq: "BASE_RING_UNSPLICE (hd es) (last es) m = ?m"
    using d(4,5) by (simp add: BASE_RING_UNSPLICE_def BASE_RING_PREV_def BASE_RING_NEXT_def Let_def del: last.simps)
  have "linked ?m (h # xs)" using d(2) p by (simp del: last.simps butlast.simps)
  moreover have "linked ?m (ys @ [h])" using d(3) p by (simp del: last.simps)
  ultimately have "linked ?m ((h # xs) @ ys @ [h])" by (subst linked_join; simp del: last.simps)
  then show ?thesis using eq d(1) by (auto simp: ring_at_def)
qed

text \<open>A ring none of whose addresses are touched stays what it is.\<close>

lemma splice_before_frame:
  assumes "ring_at m k zs" "l \<notin> set (k # zs)" "prv m l \<notin> set (k # zs)" "e1 \<notin> set (k # zs)" "eN \<notin> set (k # zs)"
  shows "ring_at (BASE_RING_SPLICE_BEFORE l e1 eN m) k zs"
proof -
  have "linked (BASE_RING_SPLICE_BEFORE l e1 eN m) (k # zs @ [k]) = linked m (k # zs @ [k])"
    using assms by (intro linked_frame) (auto simp: BASE_RING_SPLICE_BEFORE_def BASE_RING_PREV_def Let_def)
  then show ?thesis using assms(1) by (simp add: ring_at_def)
qed

lemma unsplice_frame:
  assumes "ring_at m k zs" "prv m e1 \<notin> set (k # zs)" "nxt m eN \<notin> set (k # zs)" "eN \<noteq> prv m e1"
  shows "ring_at (BASE_RING_UNSPLICE e1 eN m) k zs"
proof -
  have "linked (BASE_RING_UNSPLICE e1 eN m) (k # zs @ [k]) = linked m (k # zs @ [k])"
    using assms by (intro linked_frame) (auto simp: BASE_RING_UNSPLICE_def BASE_RING_PREV_def BASE_RING_NEXT_def Let_def)
  then show ?thesis using assms(1) by (simp add: ring_at_def)
qed

lemma init_frame: "ring_at m k zs \<Longrightarrow> h \<notin> set (k # zs) \<Longrightarrow> ring_at (BASE_RING_INIT h m) k zs"
  by (simp add: ring_at_def BASE_RING_INIT_def)

lemma init_at: "ring_at (BASE_RING_INIT h m) h []"
  by (simp add: ring_at_def BASE_RING_INIT_def BASE_RING_SENTINEL_def)

section \<open>The operations on lists\<close>

text \<open>A location is an element of the ring or, as \<open>None\<close>, its sentinel.\<close>

definition ring_loc :: "nat \<Rightarrow> nat option \<Rightarrow> nat" where
  "ring_loc h loc = (case loc of None \<Rightarrow> h | Some a \<Rightarrow> a)"

definition ring_first :: "nat list \<Rightarrow> nat option" where
  "ring_first xs = (case xs of [] \<Rightarrow> None | x # _ \<Rightarrow> Some x)"

fun ring_next :: "nat \<Rightarrow> nat list \<Rightarrow> nat option" where
  "ring_next x [] = None"
| "ring_next x (y # ys) = (if x = y then ring_first ys else ring_next x ys)"

definition ring_insert_before :: "nat option \<Rightarrow> nat \<Rightarrow> nat list \<Rightarrow> nat list" where
  "ring_insert_before loc x xs =
     (case loc of None \<Rightarrow> xs @ [x] | Some l \<Rightarrow> takeWhile (\<lambda>y. y \<noteq> l) xs @ x # dropWhile (\<lambda>y. y \<noteq> l) xs)"

lemma ring_loc_first: "ring_loc h (ring_first ys) = hd (ys @ [h])"
  by (cases ys) (simp_all add: ring_loc_def ring_first_def)

lemma ring_next_split: "x \<notin> set xs \<Longrightarrow> ring_next x (xs @ x # ys) = ring_first ys"
  by (induction xs) auto

lemma ring_insert_split:
  assumes "loc = None \<or> loc \<in> Some ` set xs"
  shows "\<exists>as bs. xs = as @ bs \<and> loc = ring_first bs \<and> ring_insert_before loc x xs = as @ x # bs"
proof (cases loc)
  case None
  then show ?thesis by (intro exI [of _ xs] exI [of _ "[]"]) (simp add: ring_first_def ring_insert_before_def)
next
  case (Some l)
  then obtain ys zs where "xs = ys @ l # zs" "l \<notin> set ys" using assms split_list_first [of l xs] by auto
  then show ?thesis using Some
    by (intro exI [of _ ys] exI [of _ "l # zs"]) (auto simp: ring_first_def ring_insert_before_def takeWhile_append dropWhile_append)
qed

lemma ring_first_at: "ring_at m h xs \<Longrightarrow> BASE_RING_FIRST h m = ring_loc h (ring_first xs)"
  using ring_links(1) [of m h "[]" xs] by (simp add: BASE_RING_FIRST_def ring_loc_first)

lemma ring_last_at: "ring_at m h xs \<Longrightarrow> BASE_RING_LAST h m = last (h # xs)"
  using ring_links(2) [of m h xs "[]"] by (simp add: BASE_RING_LAST_def)

lemma ring_empty_at: "ring_at m h xs \<Longrightarrow> BASE_RING_EMPTY h m \<longleftrightarrow> xs = []"
  using ring_first_at [of m h xs] by (cases xs) (auto simp: ring_at_def BASE_RING_EMPTY_def BASE_RING_SENTINEL_def ring_loc_def ring_first_def)

lemma ring_next_at:
  assumes "ring_at m h xs" "x \<in> set xs" shows "BASE_RING_NEXT x m = ring_loc h (ring_next x xs)"
proof -
  obtain ys zs where s: "xs = ys @ x # zs" "x \<notin> set ys" using assms(2) split_list_first by fast
  then show ?thesis using ring_links(1) [of m h "ys @ [x]" zs] assms(1)
    by (simp add: ring_next_split ring_loc_first BASE_RING_NEXT_def)
qed

lemma insert_before_at:
  assumes "ring_at m h xs" "loc = None \<or> loc \<in> Some ` set xs" "x \<notin> set (h # xs)"
  shows "ring_at (BASE_RING_INSERT_BEFORE (ring_loc h loc) x m) h (ring_insert_before loc x xs)"
proof -
  obtain as bs where "xs = as @ bs" "loc = ring_first bs" "ring_insert_before loc x xs = as @ x # bs"
    using ring_insert_split [OF assms(2)] by blast
  then show ?thesis using splice_before_at [of m h as bs "[x]"] assms(1,3)
    by (simp add: BASE_RING_INSERT_BEFORE_def ring_loc_first)
qed

lemma remove_at:
  assumes "ring_at m h xs" "x \<in> set xs" shows "ring_at (BASE_RING_REMOVE x m) h (remove1 x xs)"
proof -
  obtain ys zs where s: "xs = ys @ x # zs" "x \<notin> set ys" using assms(2) split_list_first by fast
  then show ?thesis using unsplice_at [of m h ys "[x]" zs] assms(1) by (simp add: BASE_RING_REMOVE_def remove1_append)
qed

lemma foreach_at:
  assumes "ring_at m h (xs @ ys)" shows "BASE_RING_FOREACH (hd (ys @ [h])) h m = Some ys"
  using assms
proof (induction ys arbitrary: xs)
  case Nil
  then show ?case by (simp add: BASE_RING_FOREACH.simps BASE_RING_SENTINEL_def)
next
  case (Cons y ys)
  have "y \<noteq> h" "nxt m y = hd (ys @ [h])"
    using Cons.prems ring_links(1) [of m h "xs @ [y]" ys] by (auto simp: ring_at_def)
  then show ?case using Cons.IH [of "xs @ [y]"] Cons.prems
    by (simp add: BASE_RING_FOREACH.simps [of y] BASE_RING_SENTINEL_def BASE_RING_NEXT_def)
qed

lemma segment_linked: "ring_at m h (xs @ es @ ys) \<Longrightarrow> linked m es"
  using linked_join [of "h # xs" "es @ ys @ [h]" m] linked_join [of es "ys @ [h]" m] by (cases es) (auto simp: ring_at_def simp del: last.simps)

lemma concat_at:
  assumes "ring_at m h1 xs" "ring_at m h2 ys" "set (h1 # xs) \<inter> set (h2 # ys) = {}"
  shows "ring_at (BASE_RING_CONCAT h1 h2 m) h1 (xs @ ys)" "ring_at (BASE_RING_CONCAT h1 h2 m) h2 []"
    "ring_at (BASE_RING_PREPEND h1 h2 m) h1 (ys @ xs)" "ring_at (BASE_RING_PREPEND h1 h2 m) h2 []"
proof -
  have e: "BASE_RING_EMPTY h2 m \<longleftrightarrow> ys = []" by (rule ring_empty_at [OF assms(2)])
  have f: "BASE_RING_FIRST h2 m = hd ys" "BASE_RING_LAST h2 m = last ys" if "ys \<noteq> []"
    using that ring_first_at [OF assms(2)] ring_last_at [OF assms(2)] by (auto simp: ring_loc_first)
  have y: "linked m ys" "distinct ys" "set ys \<inter> set (h1 # xs) = {}" "h2 \<notin> set (h1 # xs @ ys)"
    using segment_linked [of m h2 "[]" ys "[]"] assms by (auto simp: ring_at_def)
  have "ring_at (BASE_RING_SPLICE_BEFORE h1 (hd ys) (last ys) m) h1 (xs @ ys)" if "ys \<noteq> []"
    using splice_before_at [of m h1 xs "[]" ys] assms(1) y that by auto
  then show "ring_at (BASE_RING_CONCAT h1 h2 m) h1 (xs @ ys)" "ring_at (BASE_RING_CONCAT h1 h2 m) h2 []"
    using assms e f y(4) init_frame init_at by (auto simp: BASE_RING_CONCAT_def BASE_RING_SENTINEL_def)
  have "ring_at (BASE_RING_SPLICE_AFTER h1 (hd ys) (last ys) m) h1 (ys @ xs)" if "ys \<noteq> []"
    using splice_after_at [of m h1 "[]" xs ys] assms(1) y that by auto
  then show "ring_at (BASE_RING_PREPEND h1 h2 m) h1 (ys @ xs)" "ring_at (BASE_RING_PREPEND h1 h2 m) h2 []"
    using assms e f y(4) init_frame init_at by (auto simp: BASE_RING_PREPEND_def BASE_RING_SENTINEL_def)
qed

lemma insert_ends_at:
  assumes "ring_at m h xs" "x \<notin> set (h # xs)"
  shows "ring_at (BASE_RING_INSERT_TAIL h x m) h (xs @ [x])" "ring_at (BASE_RING_INSERT_HEAD h x m) h (x # xs)"
  using splice_before_at [of m h xs "[]" "[x]"] splice_after_at [of m h "[]" xs "[x]"] assms
  by (auto simp: BASE_RING_INSERT_TAIL_def BASE_RING_INSERT_HEAD_def BASE_RING_SPLICE_TAIL_def BASE_RING_SPLICE_HEAD_def BASE_RING_SENTINEL_def)

lemma insert_remove_frame:
  assumes "ring_at m h xs" "ring_at m k zs" "set (h # xs) \<inter> set (k # zs) = {}"
  shows "loc = None \<or> loc \<in> Some ` set xs \<Longrightarrow> x \<notin> set (k # zs) \<Longrightarrow> ring_at (BASE_RING_INSERT_BEFORE (ring_loc h loc) x m) k zs"
    "x \<in> set xs \<Longrightarrow> ring_at (BASE_RING_REMOVE x m) k zs"
proof -
  assume loc: "loc = None \<or> loc \<in> Some ` set xs" and x: "x \<notin> set (k # zs)"
  obtain as bs where ab: "xs = as @ bs" "loc = ring_first bs" using ring_insert_split [OF loc] by blast
  have "ring_loc h loc \<in> set (h # xs)" "prv m (ring_loc h loc) \<in> set (h # xs)"
    using ring_links(2) [of m h as bs] assms(1) ab by (auto simp: ring_loc_first hd_append)
  then show "ring_at (BASE_RING_INSERT_BEFORE (ring_loc h loc) x m) k zs"
    unfolding BASE_RING_INSERT_BEFORE_def using assms(2,3) x by (intro splice_before_frame) blast+
next
  assume "x \<in> set xs"
  then obtain ys zs' where s: "xs = ys @ x # zs'" "x \<notin> set ys" using split_list_first by fast
  have l: "prv m x = last (h # ys)" "nxt m x = hd (zs' @ [h])"
    using ring_links(2) [of m h ys "x # zs'"] ring_links(1) [of m h "ys @ [x]" zs'] assms(1) s by auto
  have "last (h # ys) \<in> set (h # ys)" "hd (zs' @ [h]) \<in> set (h # zs')" by (auto simp: hd_append)
  then have "prv m x \<in> set (h # xs)" "nxt m x \<in> set (h # xs)" "x \<noteq> prv m x"
    using l s assms(1) by (auto simp: ring_at_def simp del: last.simps)
  then show "ring_at (BASE_RING_REMOVE x m) k zs"
    unfolding BASE_RING_REMOVE_def using assms(2,3) by (intro unsplice_frame) blast+
qed

section \<open>The interface\<close>

text \<open>What a user of the rings relies on, and two consequences that need only this.\<close>

locale ring_ops =
  fixes holds_ring :: "'m \<Rightarrow> nat \<Rightarrow> nat list \<Rightarrow> bool"
    and first :: "nat \<Rightarrow> 'm \<Rightarrow> nat"
    and insert_before :: "nat \<Rightarrow> nat \<Rightarrow> 'm \<Rightarrow> 'm"
    and remove :: "nat \<Rightarrow> 'm \<Rightarrow> 'm"
  assumes first_law: "holds_ring m h xs \<Longrightarrow> first h m = ring_loc h (ring_first xs)"
    and insert_law: "holds_ring m h xs \<Longrightarrow> loc = None \<or> loc \<in> Some ` set xs \<Longrightarrow> x \<notin> set (h # xs)
      \<Longrightarrow> holds_ring (insert_before (ring_loc h loc) x m) h (ring_insert_before loc x xs)"
    and remove_law: "holds_ring m h xs \<Longrightarrow> x \<in> set xs \<Longrightarrow> holds_ring (remove x m) h (remove1 x xs)"
begin

lemma insert_remove:
  assumes "holds_ring m h xs" "loc = None \<or> loc \<in> Some ` set xs" "x \<notin> set (h # xs)"
  shows "holds_ring (remove x (insert_before (ring_loc h loc) x m)) h xs"
proof -
  obtain as bs where ab: "xs = as @ bs" "ring_insert_before loc x xs = as @ x # bs"
    using ring_insert_split [OF assms(2)] by blast
  then show ?thesis using remove_law [OF insert_law [OF assms], of x] assms(3) by (auto simp: remove1_append)
qed

lemma first_in_first_out:
  assumes "holds_ring m h xs" "x \<notin> set (h # xs)"
  defines "m' \<equiv> insert_before h x m"
  shows "first h m' = hd (xs @ [x]) \<and> holds_ring (remove (first h m') m') h (tl (xs @ [x]))"
proof -
  have i: "holds_ring m' h (xs @ [x])" using insert_law [OF assms(1), of None x] assms(2)
    by (simp add: m'_def ring_loc_def ring_insert_before_def)
  then have f: "first h m' = hd (xs @ [x])" using first_law [OF i] by (cases xs) (simp_all add: ring_loc_first)
  then show ?thesis using remove_law [OF i, of "hd (xs @ [x])"] by (cases xs) auto
qed

end

interpretation base_ring: ring_ops ring_at BASE_RING_FIRST BASE_RING_INSERT_BEFORE BASE_RING_REMOVE
  by unfold_locales (fact ring_first_at insert_before_at remove_at)+

section \<open>Properties\<close>

text \<open>
  (C19) The ring macros implement lists. On linked memory that holds the list \<open>xs\<close>, the accessors and
  the loop give its elements in order, \<open>INSERT_BEFORE\<close>, \<open>INSERT_TAIL\<close>, \<open>INSERT_HEAD\<close> and \<open>REMOVE\<close> leave
  memory that holds the changed list, and a second ring stays as it is or, with \<open>CONCAT\<close> and
  \<open>PREPEND\<close>, is moved as a whole.
\<close>

theorem ring_refines_list:
  assumes "ring_at m h xs" "ring_at m k ys" "set (h # xs) \<inter> set (k # ys) = {}"
  shows "BASE_RING_FIRST h m = ring_loc h (ring_first xs) \<and> (BASE_RING_EMPTY h m \<longleftrightarrow> xs = [])
    \<and> BASE_RING_FOREACH (BASE_RING_FIRST h m) h m = Some xs
    \<and> (x \<in> set xs \<longrightarrow> BASE_RING_NEXT x m = ring_loc h (ring_next x xs)
         \<and> ring_at (BASE_RING_REMOVE x m) h (remove1 x xs) \<and> ring_at (BASE_RING_REMOVE x m) k ys)
    \<and> (n \<notin> set (h # xs) \<union> set (k # ys) \<longrightarrow>
         ring_at (BASE_RING_INSERT_TAIL h n m) h (xs @ [n]) \<and> ring_at (BASE_RING_INSERT_HEAD h n m) h (n # xs)
         \<and> (loc = None \<or> loc \<in> Some ` set xs \<longrightarrow>
              ring_at (BASE_RING_INSERT_BEFORE (ring_loc h loc) n m) h (ring_insert_before loc n xs)
              \<and> ring_at (BASE_RING_INSERT_BEFORE (ring_loc h loc) n m) k ys))
    \<and> ring_at (BASE_RING_CONCAT h k m) h (xs @ ys) \<and> ring_at (BASE_RING_CONCAT h k m) k []
    \<and> ring_at (BASE_RING_PREPEND h k m) h (ys @ xs) \<and> ring_at (BASE_RING_PREPEND h k m) k []"
proof (intro conjI impI)
  show "BASE_RING_FOREACH (BASE_RING_FIRST h m) h m = Some xs"
    using foreach_at [of m h "[]" xs] ring_first_at [OF assms(1)] assms(1) by (simp add: ring_loc_first)
qed (use assms in \<open>auto intro!: base_ring.first_law ring_empty_at ring_next_at base_ring.remove_law base_ring.insert_law
      insert_ends_at insert_remove_frame concat_at\<close>)

theorem ring_refines_list_witness:
  "let m = \<lparr>nxt = id(3 := 5, 5 := 3), prv = id(3 := 5, 5 := 3)\<rparr>
   in BASE_RING_FOREACH (BASE_RING_FIRST 3 m) 3 m = Some [5] \<and> ring_at (BASE_RING_REMOVE 5 m) 3 []
     \<and> ring_at (BASE_RING_INSERT_TAIL 3 7 m) 3 [5, 7] \<and> ring_at (BASE_RING_INSERT_BEFORE 5 7 m) 3 [7, 5]
     \<and> ring_at (BASE_RING_CONCAT 3 2 m) 3 [5]"
proof -
  let ?m = "\<lparr>nxt = id(3 := 5, 5 := 3), prv = id(3 := 5, 5 := 3)\<rparr> :: ring_mem"
  have r: "ring_at ?m 3 [5]" "ring_at ?m 2 []" "set [3, 5] \<inter> set [2] = ({} :: nat set)" by (simp_all add: ring_at_def)
  from ring_refines_list [OF r, of 5 7 "Some 5"] show ?thesis
    unfolding Let_def ring_loc_def ring_insert_before_def by auto
qed

end
