(* ===== verification/Threadpool.thy ===== *)
theory Threadpool
  imports Ring Prelude
begin

text \<open>
  \<^verbatim>\<open>public/thread/base_threadpool.{h,c}\<close>: a pool of threads with a queue of prioritised tasks, a queue
  of timed tasks and rings of busy, idle and recycled objects. The rings are lists of
  addresses, with the operations that \<open>Ring\<close> shows the macros to implement; tasks and thread objects
  are in stores. A critical section, from taking the mutex to giving it back, is one
  definition; the results of \<open>calloc\<close>, of the clock and of thread creation are arguments. \<open>None\<close>
  is a failed assertion or an access through a pointer that is not there.

  The counters are \<^verbatim>\<open>size_t\<close> in the code and integers here; the invariant shows that those
  that are decremented are lengths of lists, so that they do not wrap around.
\<close>

section \<open>Tasks and threads\<close>

text \<open>The union \<open>dispatch\<close> is a word of 64 bits; \<open>priority\<close> is its lower half, \<open>time\<close> all of it.\<close>

record pool_task =
  func :: nat
  flag :: u32
  param :: nat
  task_owner :: nat
  dispatch :: u64

definition dispatch_priority :: "pool_task \<Rightarrow> int" where
  "dispatch_priority t = sint (ucast (dispatch t) :: u32)"

definition dispatch_time :: "pool_task \<Rightarrow> int" where
  "dispatch_time t = sint (dispatch t)"

definition set_dispatch_priority :: "u32 \<Rightarrow> pool_task \<Rightarrow> pool_task" where
  "set_dispatch_priority priority t = t\<lparr>dispatch := (dispatch t AND 0xFFFFFFFF00000000) OR ucast priority\<rparr>"

definition TASK_PRIORITY_SEG :: "pool_task \<Rightarrow> nat" where
  "TASK_PRIORITY_SEG t = unat ((ucast (dispatch t) :: u32) AND 0xFF) div 64"

datatype th_state = TH_RUN | TH_STOP | TH_PROBATION

record thread_elt =
  thd :: nat
  current_owner :: nat
  state :: th_state

record base_threadpool =
  thd_max :: int
  idle_max :: int
  idle_wait :: int
  thd_cnt :: int
  idle_cnt :: int
  task_cnt :: int
  scheduled_task_cnt :: int
  threshold :: int
  tasks_run :: int
  tasks_high :: int
  thd_high :: int
  thd_timed_out :: int
  tasks :: "nat list"
  scheduled_tasks :: "nat list"
  busy_thds :: "nat list"
  idle_thds :: "nat list"
  terminated :: bool
  recycled_tasks :: "nat list"
  recycled_thds :: "nat list"
  task_idx :: "nat \<Rightarrow> nat option"
  task_max :: int
  task_at :: "nat \<Rightarrow> pool_task"
  elt_at :: "nat \<Rightarrow> thread_elt"

definition ENOMEM :: int where "ENOMEM = 12"
definition ERANGE :: int where "ERANGE = 34"

definition thread_pool_construct ::
    "int \<Rightarrow> int \<Rightarrow> bool \<Rightarrow> (nat \<Rightarrow> pool_task) \<Rightarrow> (nat \<Rightarrow> thread_elt) \<Rightarrow> int \<Rightarrow> int \<Rightarrow> int \<Rightarrow> int + base_threadpool" where
  "thread_pool_construct rv_lock rv_cond mem_ok ts es init_threads max_threads max_tasks =
     (if rv_lock \<noteq> 0 then Inl rv_lock
      else if rv_cond \<noteq> 0 then Inl rv_cond
      else if \<not> mem_ok then Inl ENOMEM
      else Inr \<lparr>thd_max = max_threads, idle_max = init_threads, idle_wait = 0, thd_cnt = 0, idle_cnt = 0, task_cnt = 0,
             scheduled_task_cnt = 0, threshold = init_threads div 2, tasks_run = 0, tasks_high = 0, thd_high = 0,
             thd_timed_out = 0, tasks = [], scheduled_tasks = [], busy_thds = [], idle_thds = [], terminated = False,
             recycled_tasks = [], recycled_thds = [], task_idx = (\<lambda>_. None), task_max = max_tasks, task_at = ts, elt_at = es\<rparr>)"

section \<open>Taking a task\<close>

text \<open>The new first task of a segment of the index, when the old one is taken out of the ring.\<close>

definition idx_after :: "nat \<Rightarrow> base_threadpool \<Rightarrow> nat option" where
  "idx_after t me =
     (case ring_next t (tasks me) of None \<Rightarrow> None
      | Some u \<Rightarrow> if TASK_PRIORITY_SEG (task_at me u) \<noteq> TASK_PRIORITY_SEG (task_at me t) then None else Some u)"

definition take_task :: "nat \<Rightarrow> base_threadpool \<Rightarrow> base_threadpool" where
  "take_task t me =
     (let seg = TASK_PRIORITY_SEG (task_at me t)
      in me\<lparr>task_cnt := task_cnt me - 1,
           task_idx := (if task_idx me seg = Some t then (task_idx me)(seg := idx_after t me) else task_idx me),
           tasks := remove1 t (tasks me)\<rparr>)"

definition pop_task :: "int \<Rightarrow> base_threadpool \<Rightarrow> (nat option \<times> base_threadpool) option" where
  "pop_task now me =
     (let rest = (if task_cnt me = 0 then Some (None, me)
                  else case ring_first (tasks me) of None \<Rightarrow> None
                  | Some t \<Rightarrow> Some (Some t, take_task t me))
      in if scheduled_task_cnt me > 0
         then case ring_first (scheduled_tasks me) of None \<Rightarrow> None
           | Some t \<Rightarrow>
               if dispatch_time (task_at me t) \<le> now
               then Some (Some t, me\<lparr>scheduled_task_cnt := scheduled_task_cnt me - 1,
                                    scheduled_tasks := remove1 t (scheduled_tasks me)\<rparr>)
               else rest
         else rest)"

definition waiting_time :: "int \<Rightarrow> base_threadpool \<Rightarrow> int option" where
  "waiting_time now me =
     (case ring_first (scheduled_tasks me) of None \<Rightarrow> None | Some t \<Rightarrow> Some (dispatch_time (task_at me t) - now))"

section \<open>The threads\<close>

definition elt_new :: "nat option \<Rightarrow> nat \<Rightarrow> base_threadpool \<Rightarrow> nat option \<times> base_threadpool" where
  "elt_new alloc t me =
     (let elt = (if recycled_thds me = [] then alloc else ring_first (recycled_thds me))
      in case elt of None \<Rightarrow> (None, me)
         | Some e \<Rightarrow> (Some e, me\<lparr>recycled_thds := remove1 e (recycled_thds me),
                             elt_at := (elt_at me)(e := \<lparr>thd = t, current_owner = 0, state = TH_RUN\<rparr>)\<rparr>))"

text \<open>
  What a thread does when it gives the mutex back: it runs a task, waits for the condition (or
  calls the timed wait with a number), or ends; a task that was taken but is not run because the
  pool is terminated is reported with the end.
\<close>

datatype thread_next = Run nat | Wait | Timed_wait int | Exit "nat option"

definition become_idle :: "int \<Rightarrow> nat \<Rightarrow> base_threadpool \<Rightarrow> (thread_next \<times> base_threadpool) option" where
  "become_idle now elt me = do {
     let me = me\<lparr>idle_cnt := idle_cnt me + 1, idle_thds := idle_thds me @ [elt]\<rparr>;
     if scheduled_task_cnt me \<noteq> 0 then do {
       wait \<leftarrow> waiting_time now me;
       Some (if wait \<ge> 0 then Timed_wait wait else Wait, me) }
     else if idle_cnt me > idle_max me then
       Some (if idle_wait me \<ge> 0 then Timed_wait (idle_wait me) else Wait,
             me\<lparr>elt_at := (elt_at me)(elt := (elt_at me elt)\<lparr>state := TH_PROBATION\<rparr>)\<rparr>)
     else Some (Wait, me) }"

definition leaves_pool :: "nat \<Rightarrow> base_threadpool \<Rightarrow> bool" where
  "leaves_pool elt me \<longleftrightarrow>
     idle_cnt me \<ge> idle_max me \<and> \<not> (scheduled_task_cnt me \<noteq> 0 \<and> 0 \<ge> idle_max me) \<and> idle_wait me = 0
     \<or> terminated me \<or> state (elt_at me elt) \<noteq> TH_RUN"

definition tasks_done :: "int \<Rightarrow> nat \<Rightarrow> nat option \<Rightarrow> base_threadpool \<Rightarrow> (thread_next \<times> base_threadpool) option" where
  "tasks_done now elt dropped me =
     (if current_owner (elt_at me elt) \<noteq> 0 then None
      else
        let me = (if state (elt_at me elt) \<noteq> TH_STOP then me\<lparr>busy_thds := remove1 elt (busy_thds me)\<rparr> else me)
        in if leaves_pool elt me
           then Some (Exit dropped,
                  me\<lparr>thd_cnt := thd_cnt me - 1,
                     thd_timed_out := thd_timed_out me + (if state (elt_at me elt) = TH_PROBATION \<and> idle_wait me \<noteq> 0 then 1 else 0),
                     recycled_thds := recycled_thds me @ [elt]\<rparr>)
           else become_idle now elt me)"

definition next_task :: "int \<Rightarrow> int \<Rightarrow> nat \<Rightarrow> base_threadpool \<Rightarrow> (thread_next \<times> base_threadpool) option" where
  "next_task now now' elt me = do {
     (task, me) \<leftarrow> pop_task now me;
     case task of None \<Rightarrow> tasks_done now' elt None me
     | Some k \<Rightarrow>
         if terminated me then tasks_done now' elt (Some k) me
         else Some (Run k, me\<lparr>tasks_run := tasks_run me + 1,
                              elt_at := (elt_at me)(elt := (elt_at me elt)\<lparr>current_owner := task_owner (task_at me k)\<rparr>)\<rparr>) }"

definition thread_loop :: "int \<Rightarrow> int \<Rightarrow> nat \<Rightarrow> base_threadpool \<Rightarrow> (thread_next \<times> base_threadpool) option" where
  "thread_loop now now' elt me =
     (if terminated me \<or> state (elt_at me elt) = TH_STOP
      then Some (Exit None, me\<lparr>thd_cnt := thd_cnt me - 1\<rparr>)
      else
        let me = (if elt \<in> set (idle_thds me)
                  then me\<lparr>idle_cnt := idle_cnt me - 1, idle_thds := remove1 elt (idle_thds me)\<rparr> else me)
        in next_task now now' elt (me\<lparr>busy_thds := busy_thds me @ [elt]\<rparr>))"

text \<open>The start of a thread; without memory it ends, and is still counted.\<close>

definition thread_start ::
    "nat option \<Rightarrow> int \<Rightarrow> int \<Rightarrow> nat \<Rightarrow> base_threadpool \<Rightarrow> nat option \<times> (thread_next \<times> base_threadpool) option" where
  "thread_start alloc now now' t me =
     (case elt_new alloc t me of
        (None, me) \<Rightarrow> (None, Some (Exit None, me))
      | (Some e, me) \<Rightarrow> (Some e, thread_loop now now' e me))"

definition task_ended :: "int \<Rightarrow> int \<Rightarrow> nat \<Rightarrow> nat \<Rightarrow> base_threadpool \<Rightarrow> (thread_next \<times> base_threadpool) option" where
  "task_ended now now' elt task me =
     (let me = me\<lparr>recycled_tasks := recycled_tasks me @ [task],
                  elt_at := (elt_at me)(elt := (elt_at me elt)\<lparr>current_owner := 0\<rparr>)\<rparr>
      in if state (elt_at me elt) = TH_STOP then tasks_done now' elt None me
         else next_task now now' elt me)"

section \<open>Adding and removing tasks\<close>

definition task_new ::
    "nat option \<Rightarrow> int \<Rightarrow> nat \<Rightarrow> u32 \<Rightarrow> nat \<Rightarrow> u32 \<Rightarrow> nat \<Rightarrow> int \<Rightarrow> base_threadpool \<Rightarrow> nat option \<times> base_threadpool" where
  "task_new alloc now fn fl par priority owner time me =
     (case (if recycled_tasks me = [] then alloc else ring_first (recycled_tasks me)) of
        None \<Rightarrow> (None, me)
      | Some t \<Rightarrow>
          let old = (if recycled_tasks me = [] then 0 else dispatch (task_at me t));
              task = \<lparr>func = fn, flag = fl, param = par, task_owner = owner, dispatch = old\<rparr>;
              task = (if time > 0 then task\<lparr>dispatch := word_of_int (now + time)\<rparr> else set_dispatch_priority priority task)
          in (Some t, me\<lparr>recycled_tasks := remove1 t (recycled_tasks me), task_at := (task_at me)(t := task)\<rparr>))"

text \<open>
  \<open>add_if_empty\<close> returns NULL when it has put the task into the ring, and otherwise the location
  before which it belongs, which may be the sentinel.
\<close>

datatype place = Null | Place "nat option"

fun skip_higher :: "base_threadpool \<Rightarrow> int \<Rightarrow> nat list \<Rightarrow> nat option" where
  "skip_higher me pr [] = None"
| "skip_higher me pr (u # us) = (if dispatch_priority (task_at me u) > pr then skip_higher me pr us else Some u)"

fun lower_idx :: "nat \<Rightarrow> base_threadpool \<Rightarrow> nat option" where
  "lower_idx 0 me = None"
| "lower_idx (Suc next_seg) me = (if task_idx me next_seg \<noteq> None then task_idx me next_seg else lower_idx next_seg me)"

definition ring_from :: "nat \<Rightarrow> nat list \<Rightarrow> nat list" where
  "ring_from u xs = dropWhile (\<lambda>y. y \<noteq> u) xs"

definition add_if_empty :: "nat \<Rightarrow> base_threadpool \<Rightarrow> (place \<times> base_threadpool) option" where
  "add_if_empty t me =
     (let seg = TASK_PRIORITY_SEG (task_at me t) in
      case task_idx me seg of
        Some i \<Rightarrow>
          if i \<notin> set (tasks me) then None
          else Some (Place (skip_higher me (dispatch_priority (task_at me t)) (ring_from i (tasks me))), me)
      | None \<Rightarrow>
          (case lower_idx seg me of
             Some i \<Rightarrow>
               if i \<notin> set (tasks me) then None
               else Some (Null, me\<lparr>tasks := ring_insert_before (Some i) t (tasks me), task_idx := (task_idx me)(seg := Some t)\<rparr>)
           | None \<Rightarrow> Some (Null, me\<lparr>tasks := tasks me @ [t], task_idx := (task_idx me)(seg := Some t)\<rparr>)))"

text \<open>The walk of \<open>add_task\<close> past the tasks of the same priority, from a location on.\<close>

fun skip_equal :: "base_threadpool \<Rightarrow> int \<Rightarrow> nat list \<Rightarrow> nat option" where
  "skip_equal me pr [] = None"
| "skip_equal me pr (u # us) = (if dispatch_priority (task_at me u) \<ge> pr then skip_equal me pr us else Some u)"

definition from_loc :: "nat option \<Rightarrow> nat list \<Rightarrow> nat list" where
  "from_loc loc xs = (case loc of None \<Rightarrow> [] | Some u \<Rightarrow> ring_from u xs)"

definition place_task :: "nat \<Rightarrow> bool \<Rightarrow> base_threadpool \<Rightarrow> base_threadpool option" where
  "place_task t push me = do {
     (t_loc, me) \<leftarrow> add_if_empty t me;
     case t_loc of Null \<Rightarrow> Some me
     | Place loc \<Rightarrow>
         let loc = (if push then skip_equal me (dispatch_priority (task_at me t)) (from_loc loc (tasks me)) else loc);
             seg = TASK_PRIORITY_SEG (task_at me t)
         in Some (me\<lparr>tasks := ring_insert_before loc t (tasks me),
                    task_idx := (if \<not> push \<and> loc \<noteq> None \<and> loc = task_idx me seg then (task_idx me)(seg := Some t) else task_idx me)\<rparr>) }"

text \<open>
  A client call either refuses with an error or adds the task; then it says whether it started
  a thread, and signals the condition. \<open>rv\<close> is the result of \<open>base_init_thread\<close>.
\<close>

datatype add_result = Refused int | Added int bool

definition count_thread :: "int \<Rightarrow> base_threadpool \<Rightarrow> base_threadpool" where
  "count_thread rv me =
     (if rv = 0 then me\<lparr>thd_cnt := thd_cnt me + 1, thd_high := max (thd_high me) (thd_cnt me + 1)\<rparr> else me)"

definition add_task ::
    "nat option \<Rightarrow> int \<Rightarrow> nat \<Rightarrow> u32 \<Rightarrow> nat \<Rightarrow> u32 \<Rightarrow> bool \<Rightarrow> nat \<Rightarrow> base_threadpool \<Rightarrow> (add_result \<times> base_threadpool) option" where
  "add_task alloc rv fn fl par priority push owner me =
     (if task_max me \<noteq> 0 \<and> task_cnt me \<ge> task_max me then Some (Refused ERANGE, me)
      else case task_new alloc 0 fn fl par priority owner 0 me of
        (None, me) \<Rightarrow> Some (Refused ENOMEM, me)
      | (Some t, me) \<Rightarrow> do {
          me \<leftarrow> place_task t push me;
          let me = me\<lparr>task_cnt := task_cnt me + 1, tasks_high := max (tasks_high me) (task_cnt me + 1)\<rparr>;
          if thd_cnt me = 0 \<or> idle_cnt me = 0 \<and> thd_cnt me < thd_max me \<and> task_cnt me > threshold me
          then Some (Added rv (rv = 0), count_thread rv me)
          else Some (Added 0 False, me) })"

text \<open>
  The timed tasks are in the order of their times. When there is none the loop compares with
  the member \<open>time\<close> of the sentinel, which lies behind the memory of the head; \<open>beyond\<close> is what
  it finds there.
\<close>

fun sched_loc :: "base_threadpool \<Rightarrow> int \<Rightarrow> nat list \<Rightarrow> nat option" where
  "sched_loc me time [] = None"
| "sched_loc me time (u # us) = (if time < dispatch_time (task_at me u) then Some u else sched_loc me time us)"

definition sched_place :: "int \<Rightarrow> base_threadpool \<Rightarrow> int \<Rightarrow> nat option" where
  "sched_place beyond me time =
     (if ring_first (scheduled_tasks me) = None
      then (if time < beyond then None else ring_first (scheduled_tasks me))
      else sched_loc me time (scheduled_tasks me))"

definition schedule_task ::
    "nat option \<Rightarrow> int \<Rightarrow> int \<Rightarrow> int \<Rightarrow> nat \<Rightarrow> u32 \<Rightarrow> nat \<Rightarrow> nat \<Rightarrow> int \<Rightarrow> base_threadpool \<Rightarrow> add_result \<times> base_threadpool" where
  "schedule_task alloc now beyond rv fn fl par owner time me =
     (case task_new alloc now fn fl par 0 owner time me of
        (None, me) \<Rightarrow> (Refused ENOMEM, me)
      | (Some t, me) \<Rightarrow>
          let loc = sched_place beyond me (dispatch_time (task_at me t));
              me = me\<lparr>scheduled_task_cnt := scheduled_task_cnt me + 1,
                      scheduled_tasks := ring_insert_before loc t (scheduled_tasks me)\<rparr>
          in if thd_cnt me = 0 then (Added rv (rv = 0), count_thread rv me) else (Added 0 False, me))"

fun remove_scheduled_loop :: "nat \<Rightarrow> nat list \<Rightarrow> base_threadpool \<Rightarrow> base_threadpool" where
  "remove_scheduled_loop owner [] me = me"
| "remove_scheduled_loop owner (t # ts) me =
     remove_scheduled_loop owner ts
       (if task_owner (task_at me t) = owner
        then me\<lparr>scheduled_task_cnt := scheduled_task_cnt me - 1, scheduled_tasks := remove1 t (scheduled_tasks me)\<rparr> else me)"

definition remove_scheduled_tasks :: "nat \<Rightarrow> base_threadpool \<Rightarrow> base_threadpool" where
  "remove_scheduled_tasks owner me = remove_scheduled_loop owner (scheduled_tasks me) me"

fun remove_tasks_loop :: "nat \<Rightarrow> nat list \<Rightarrow> base_threadpool \<Rightarrow> base_threadpool" where
  "remove_tasks_loop owner [] me = me"
| "remove_tasks_loop owner (t # ts) me =
     remove_tasks_loop owner ts (if task_owner (task_at me t) = owner then take_task t me else me)"

definition remove_tasks :: "nat \<Rightarrow> base_threadpool \<Rightarrow> base_threadpool" where
  "remove_tasks owner me = remove_tasks_loop owner (tasks me) me"

text \<open>The first half of \<open>base_threadpool_cancel_tasks\<close>; then it polls until no busy thread has the owner.\<close>

definition cancel_tasks :: "nat \<Rightarrow> base_threadpool \<Rightarrow> base_threadpool" where
  "cancel_tasks owner me =
     (let me = (if task_cnt me > 0 then remove_tasks owner me else me)
      in if scheduled_task_cnt me > 0 then remove_scheduled_tasks owner me else me)"

definition owner_busy :: "nat \<Rightarrow> base_threadpool \<Rightarrow> bool" where
  "owner_busy owner me \<longleftrightarrow> list_ex (\<lambda>e. current_owner (elt_at me e) = owner) (busy_thds me)"

section \<open>Settings and counters\<close>

text \<open>
  \<open>trim_threads\<close> for idle threads takes all but the first \<open>cnt\<close> out of the ring and marks them.
  \<open>trim_idle_threads\<close> then joins them with the arguments of \<open>base_join_thread\<close> exchanged: the address of a
  local variable is used as a thread, which is undefined.
\<close>

definition trim_idle :: "nat \<Rightarrow> base_threadpool \<Rightarrow> nat list \<times> base_threadpool" where
  "trim_idle cnt me =
     (if idle_cnt me \<le> int cnt then ([], me)
      else (drop cnt (idle_thds me),
            me\<lparr>idle_thds := take cnt (idle_thds me), idle_cnt := int cnt,
               elt_at := (\<lambda>e. if e \<in> set (drop cnt (idle_thds me)) then (elt_at me e)\<lparr>state := TH_STOP\<rparr> else elt_at me e)\<rparr>))"

definition trim_idle_threads :: "nat \<Rightarrow> base_threadpool \<Rightarrow> base_threadpool option" where
  "trim_idle_threads cnt me = (case trim_idle cnt me of (elts, me) \<Rightarrow> if elts = [] then Some me else None)"

definition set_idle_max :: "nat \<Rightarrow> base_threadpool \<Rightarrow> base_threadpool option" where
  "set_idle_max cnt me = trim_idle_threads cnt (me\<lparr>idle_max := int cnt\<rparr>)"

definition set_idle_wait :: "int \<Rightarrow> base_threadpool \<Rightarrow> int \<times> base_threadpool" where
  "set_idle_wait timeout me = (idle_wait me, me\<lparr>idle_wait := timeout\<rparr>)"

definition set_threshold :: "int \<Rightarrow> base_threadpool \<Rightarrow> int \<times> base_threadpool" where
  "set_threshold val me = (threshold me, me\<lparr>threshold := val\<rparr>)"

definition busy_count :: "base_threadpool \<Rightarrow> int" where
  "busy_count me = thd_cnt me - idle_cnt me"

text \<open>\<open>thread_pool_cleanup\<close> up to its loop, which waits until \<open>thd_cnt\<close> is zero.\<close>

definition cleanup :: "base_threadpool \<Rightarrow> base_threadpool option" where
  "cleanup me = set_idle_max 0 (me\<lparr>terminated := True\<rparr>)"

section \<open>The pool with its threads\<close>

text \<open>
  A thread is between two critical sections: not yet started, running a task, waiting for the
  condition, woken but not yet in possession of the mutex, ended, ended for lack of memory, or
  lost in a timed wait, whose argument is a number where the function takes a pointer.
\<close>

datatype thread_pc = T_none | T_start | T_run nat nat | T_wait nat | T_woken nat | T_exited | T_failed | T_fault nat

record pool_sys =
  pool :: base_threadpool
  thr :: "nat \<Rightarrow> thread_pc"

fun pc_after :: "nat \<Rightarrow> thread_next \<Rightarrow> thread_pc" where
  "pc_after e (Run k) = T_run e k"
| "pc_after e Wait = T_wait e"
| "pc_after e (Timed_wait w) = T_fault e"
| "pc_after e (Exit d) = T_exited"

text \<open>
  The loop of \<open>base_init_threadpool\<close>, when it starts all \<open>n\<close> threads. It counts them without the
  mutex; with \<open>n\<close> not above \<open>idle_max\<close> no thread can leave before the loop ends, and none reads the counter.
\<close>

definition init_threadpool :: "nat \<Rightarrow> base_threadpool \<Rightarrow> pool_sys" where
  "init_threadpool n me =
     \<lparr>pool = me\<lparr>thd_cnt := thd_cnt me + int n, thd_high := max (thd_high me) (thd_cnt me + int n)\<rparr>,
      thr = (\<lambda>t. if t < n then T_start else T_none)\<rparr>"

text \<open>\<open>pthread_cond_signal\<close> wakes a waiting thread if there is one.\<close>

inductive signalled :: "(nat \<Rightarrow> thread_pc) \<Rightarrow> (nat \<Rightarrow> thread_pc) \<Rightarrow> bool" where
  nobody: "(\<And>t e. f t \<noteq> T_wait e) \<Longrightarrow> signalled f f"
| somebody: "f t = T_wait e \<Longrightarrow> signalled f (f(t := T_woken e))"

definition broadcast :: "(nat \<Rightarrow> thread_pc) \<Rightarrow> nat \<Rightarrow> thread_pc" where
  "broadcast f t = (case f t of T_wait e \<Rightarrow> T_woken e | pc \<Rightarrow> pc)"

text \<open>What happens to a job, the part of a task that its client gave.\<close>

type_synonym job = "nat \<times> u32 \<times> nat \<times> nat"

definition job_of :: "pool_task \<Rightarrow> job" where
  "job_of t = (func t, flag t, param t, task_owner t)"

text \<open>
  The steps of the threads and of the clients. \<open>base_threadpool_set_idle_max\<close> and
  \<open>thread_pool_cleanup\<close> store their first value without the mutex, so these are steps of their own.
\<close>

datatype event = Submit job | Begin job | Cancel "job list" | Drop job | Quiet

fun event_of :: "base_threadpool \<Rightarrow> thread_next \<Rightarrow> event" where
  "event_of me (Run k) = Begin (job_of (task_at me k))"
| "event_of me (Exit (Some k)) = Drop (job_of (task_at me k))"
| "event_of me _ = Quiet"

definition used_tasks :: "pool_sys \<Rightarrow> nat set" where
  "used_tasks s = set (tasks (pool s)) \<union> set (scheduled_tasks (pool s)) \<union> set (recycled_tasks (pool s))
     \<union> {k. \<exists>t e. thr s t = T_run e k}"

definition used_elts :: "pool_sys \<Rightarrow> nat set" where
  "used_elts s = set (busy_thds (pool s)) \<union> set (idle_thds (pool s)) \<union> set (recycled_thds (pool s))
     \<union> {e. \<exists>t k. thr s t \<in> {T_run e k, T_wait e, T_woken e, T_fault e}}"

definition start_threads :: "bool \<Rightarrow> nat \<Rightarrow> (nat \<Rightarrow> thread_pc) \<Rightarrow> nat \<Rightarrow> thread_pc" where
  "start_threads started n f = (if started then f(n := T_start) else f)"

inductive pool_step :: "pool_sys \<Rightarrow> event \<Rightarrow> pool_sys \<Rightarrow> bool" where
  starts: "thr s t = T_start \<Longrightarrow> (\<And>a. alloc = Some a \<Longrightarrow> a \<notin> used_elts s)
    \<Longrightarrow> thread_start alloc now now' t (pool s) = (Some e, Some (nx, me))
    \<Longrightarrow> pool_step s (event_of me nx) (s\<lparr>pool := me, thr := (thr s)(t := pc_after e nx)\<rparr>)"
| fails: "thr s t = T_start \<Longrightarrow> thread_start None now now' t (pool s) = (None, Some (nx, me))
    \<Longrightarrow> pool_step s Quiet (s\<lparr>pool := me, thr := (thr s)(t := T_failed)\<rparr>)"
| goes_on: "thr s t = T_woken e \<Longrightarrow> thread_loop now now' e (pool s) = Some (nx, me)
    \<Longrightarrow> pool_step s (event_of me nx) (s\<lparr>pool := me, thr := (thr s)(t := pc_after e nx)\<rparr>)"
| ends: "thr s t = T_run e k \<Longrightarrow> task_ended now now' e k (pool s) = Some (nx, me)
    \<Longrightarrow> pool_step s (event_of me nx) (s\<lparr>pool := me, thr := (thr s)(t := pc_after e nx)\<rparr>)"
| wakes: "thr s t = T_wait e \<Longrightarrow> pool_step s Quiet (s\<lparr>thr := (thr s)(t := T_woken e)\<rparr>)"
| adds: "(\<And>a. alloc = Some a \<Longrightarrow> a \<notin> used_tasks s) \<Longrightarrow> thr s n = T_none
    \<Longrightarrow> add_task alloc rv fn fl par priority push owner (pool s) = Some (Added r started, me)
    \<Longrightarrow> signalled (start_threads started n (thr s)) f
    \<Longrightarrow> pool_step s (Submit (fn, fl, par, owner)) (s\<lparr>pool := me, thr := f\<rparr>)"
| schedules: "(\<And>a. alloc = Some a \<Longrightarrow> a \<notin> used_tasks s) \<Longrightarrow> thr s n = T_none
    \<Longrightarrow> schedule_task alloc now beyond rv fn fl par owner time (pool s) = (Added r started, me)
    \<Longrightarrow> signalled (start_threads started n (thr s)) f
    \<Longrightarrow> pool_step s (Submit (fn, fl, par, owner)) (s\<lparr>pool := me, thr := f\<rparr>)"
| cancels: "pool_step s (Cancel (map (job_of \<circ> task_at (pool s)) (filter (\<lambda>t. task_owner (task_at (pool s) t) = owner)
      (tasks (pool s) @ scheduled_tasks (pool s))))) (s\<lparr>pool := cancel_tasks owner (pool s)\<rparr>)"
| sets_idle_max: "pool_step s Quiet (s\<lparr>pool := (pool s)\<lparr>idle_max := cnt\<rparr>\<rparr>)"
| trims: "trim_idle_threads cnt (pool s) = Some me \<Longrightarrow> pool_step s Quiet (s\<lparr>pool := me, thr := broadcast (thr s)\<rparr>)"
| sets_idle_wait: "pool_step s Quiet (s\<lparr>pool := snd (set_idle_wait wait (pool s))\<rparr>)"
| sets_threshold: "pool_step s Quiet (s\<lparr>pool := snd (set_threshold val (pool s))\<rparr>)"
| terminates: "pool_step s Quiet (s\<lparr>pool := (pool s)\<lparr>terminated := True\<rparr>\<rparr>)"

inductive pool_run :: "pool_sys \<Rightarrow> event list \<Rightarrow> pool_sys \<Rightarrow> bool" where
  refl: "pool_run s [] s"
| step: "pool_run s es s' \<Longrightarrow> pool_step s' e s'' \<Longrightarrow> pool_run s (es @ [e]) s''"

end
