(* ===== verification/Threadpool_Inv.thy ===== *)
theory Threadpool_Inv
  imports Threadpool "HOL-Library.Multiset"
begin

text \<open>
  The invariant of the pool of \<^verbatim>\<open>public/thread/base_threadpool.c\<close> with its threads: what the queues, the
  index, the rings of threads and the counters have in common in every reachable state, that every
  critical section keeps it and is defined, and how the jobs of the clients are accounted for.
\<close>

section \<open>The queues\<close>

text \<open>
  The queues are lists without repetition that share no task, the counters are their lengths,
  an entry of the index is a task of its segment, and the timed tasks are in the order of their times.
\<close>

definition queue_ok :: "base_threadpool \<Rightarrow> bool" where
  "queue_ok me \<longleftrightarrow> distinct (tasks me @ scheduled_tasks me @ recycled_tasks me)
     \<and> task_cnt me = int (length (tasks me)) \<and> scheduled_task_cnt me = int (length (scheduled_tasks me))
     \<and> (\<forall>seg i. task_idx me seg = Some i \<longrightarrow> i \<in> set (tasks me) \<and> TASK_PRIORITY_SEG (task_at me i) = seg)
     \<and> sorted (map (dispatch_time \<circ> task_at me) (scheduled_tasks me))"

definition pending :: "base_threadpool \<Rightarrow> job multiset" where
  "pending me = image_mset (job_of \<circ> task_at me) (mset (tasks me) + mset (scheduled_tasks me))"

lemma idx_after_Some:
  assumes "idx_after t me = Some u" "distinct (tasks me)" "t \<in> set (tasks me)"
  shows "u \<in> set (tasks me)" "u \<noteq> t" "TASK_PRIORITY_SEG (task_at me u) = TASK_PRIORITY_SEG (task_at me t)"
proof -
  obtain ys zs where s: "tasks me = ys @ t # zs" "t \<notin> set ys" using assms(3) split_list_first by fast
  then have "ring_next t (tasks me) = ring_first zs" by (simp add: ring_next_split)
  then show "u \<in> set (tasks me)" "u \<noteq> t" "TASK_PRIORITY_SEG (task_at me u) = TASK_PRIORITY_SEG (task_at me t)"
    using assms(1,2) s(1) by (cases zs; auto simp: idx_after_def ring_first_def split: if_splits)+
qed

lemma take_task_sel [simp]:
  "tasks (take_task t me) = remove1 t (tasks me)" "task_cnt (take_task t me) = task_cnt me - 1" "task_at (take_task t me) = task_at me"
  "scheduled_tasks (take_task t me) = scheduled_tasks me" "scheduled_task_cnt (take_task t me) = scheduled_task_cnt me"
  "recycled_tasks (take_task t me) = recycled_tasks me"
  by (simp_all add: take_task_def Let_def)

lemma take_task_idx:
  "task_idx (take_task t me) seg =
     (if seg = TASK_PRIORITY_SEG (task_at me t) \<and> task_idx me seg = Some t then idx_after t me else task_idx me seg)"
  by (auto simp: take_task_def Let_def)

lemma queue_okD:
  assumes "queue_ok me"
  shows "distinct (tasks me)" "distinct (scheduled_tasks me)" "distinct (recycled_tasks me)"
    "set (tasks me) \<inter> set (scheduled_tasks me) = {}" "set (tasks me) \<inter> set (recycled_tasks me) = {}"
    "set (scheduled_tasks me) \<inter> set (recycled_tasks me) = {}"
    "task_cnt me = int (length (tasks me))" "scheduled_task_cnt me = int (length (scheduled_tasks me))"
    "task_idx me seg = Some i \<Longrightarrow> i \<in> set (tasks me)" "task_idx me seg = Some i \<Longrightarrow> TASK_PRIORITY_SEG (task_at me i) = seg"
    "sorted (map (dispatch_time \<circ> task_at me) (scheduled_tasks me))"
  using assms by (auto simp: queue_ok_def)

lemma queue_okI:
  assumes "distinct (tasks me @ scheduled_tasks me @ recycled_tasks me)" "task_cnt me = int (length (tasks me))"
    "scheduled_task_cnt me = int (length (scheduled_tasks me))"
    "\<And>seg i. task_idx me seg = Some i \<Longrightarrow> i \<in> set (tasks me) \<and> TASK_PRIORITY_SEG (task_at me i) = seg"
    "sorted (map (dispatch_time \<circ> task_at me) (scheduled_tasks me))"
  shows "queue_ok me"
  using assms unfolding queue_ok_def by blast

lemma int_length_remove1: "x \<in> set xs \<Longrightarrow> int (length (remove1 x xs)) = int (length xs) - 1"
  by (induction xs) auto

lemma image_mset_remove1: "t \<in> set xs \<Longrightarrow> image_mset f (mset xs) = add_mset (f t) (image_mset f (mset (remove1 t xs)))"
  by (induction xs) auto

lemma take_task_ok:
  assumes "queue_ok me" "t \<in> set (tasks me)"
  shows "queue_ok (take_task t me)" "pending me = pending (take_task t me) + {#job_of (task_at me t)#}"
proof -
  note q = queue_okD [OF assms(1)]
  show "queue_ok (take_task t me)"
  proof (rule queue_okI)
    fix seg i
    assume i: "task_idx (take_task t me) seg = Some i"
    show "i \<in> set (tasks (take_task t me)) \<and> TASK_PRIORITY_SEG (task_at (take_task t me) i) = seg"
    proof (cases "seg = TASK_PRIORITY_SEG (task_at me t) \<and> task_idx me seg = Some t")
      case True
      then have "idx_after t me = Some i" using i unfolding take_task_idx by auto
      from idx_after_Some [OF this q(1) assms(2)] show ?thesis using True q(1) by simp
    next
      case False
      then have "task_idx me seg = Some i" using i by (auto simp: take_task_idx split: if_splits)
      then show ?thesis using False q(1) q(9,10) [of seg i] by auto
    qed
  qed (use q assms(2) in \<open>auto simp: int_length_remove1 simp del: length_remove1\<close>)
  show "pending me = pending (take_task t me) + {#job_of (task_at me t)#}"
    unfolding pending_def image_mset_union by (simp add: image_mset_remove1 [OF assms(2)] del: mset_remove1)
qed

text \<open>What taking a task changes of the pool.\<close>

definition same_but_queues :: "base_threadpool \<Rightarrow> base_threadpool \<Rightarrow> bool" where
  "same_but_queues me me' \<longleftrightarrow> me' = me\<lparr>task_cnt := task_cnt me', scheduled_task_cnt := scheduled_task_cnt me', tasks := tasks me',
     scheduled_tasks := scheduled_tasks me', task_idx := task_idx me'\<rparr>"

lemma same_but_queuesD:
  assumes "same_but_queues me me'"
  shows "recycled_tasks me' = recycled_tasks me" "task_at me' = task_at me" "elt_at me' = elt_at me" "busy_thds me' = busy_thds me"
    "idle_thds me' = idle_thds me" "recycled_thds me' = recycled_thds me" "idle_cnt me' = idle_cnt me" "thd_cnt me' = thd_cnt me"
    "terminated me' = terminated me" "idle_max me' = idle_max me"
  by (subst assms [unfolded same_but_queues_def], simp)+

lemma pop_task_ok:
  assumes "queue_ok me"
  obtains (none) "pop_task now me = Some (None, me)" "tasks me = []"
  | (some) k me' where "pop_task now me = Some (Some k, me')" "queue_ok me'" "same_but_queues me me'"
      "k \<in> set (tasks me) \<union> set (scheduled_tasks me)" "k \<notin> set (tasks me') \<union> set (scheduled_tasks me') \<union> set (recycled_tasks me)"
      "set (tasks me') \<subseteq> set (tasks me)" "set (scheduled_tasks me') \<subseteq> set (scheduled_tasks me)"
      "pending me = pending me' + {#job_of (task_at me k)#}"
proof -
  have d: "distinct (tasks me @ scheduled_tasks me @ recycled_tasks me)" "task_cnt me = int (length (tasks me))"
      "scheduled_task_cnt me = int (length (scheduled_tasks me))" using assms by (auto simp: queue_ok_def)
  consider (s) t where "scheduled_task_cnt me > 0" "ring_first (scheduled_tasks me) = Some t" "dispatch_time (task_at me t) \<le> now"
    | (n) "tasks me = []" "\<not> (scheduled_task_cnt me > 0 \<and> (\<exists>t. ring_first (scheduled_tasks me) = Some t \<and> dispatch_time (task_at me t) \<le> now))"
    | (t) t ts where "tasks me = t # ts" "\<not> (scheduled_task_cnt me > 0 \<and> (\<exists>t. ring_first (scheduled_tasks me) = Some t \<and> dispatch_time (task_at me t) \<le> now))"
    by (cases "tasks me") auto
  then show ?thesis
  proof cases
    case s
    let ?me = "me\<lparr>scheduled_task_cnt := scheduled_task_cnt me - 1, scheduled_tasks := remove1 t (scheduled_tasks me)\<rparr>"
    obtain ts where ts: "scheduled_tasks me = t # ts" using s(2) by (cases "scheduled_tasks me") (auto simp: ring_first_def)
    have "queue_ok ?me" using assms ts by (auto simp: queue_ok_def)
    moreover have "same_but_queues me ?me" by (simp add: same_but_queues_def)
    moreover have "pop_task now me = Some (Some t, ?me)" using s by (simp add: pop_task_def)
    ultimately show ?thesis using some [of t ?me] ts d by (auto simp: pending_def)
  next
    case n
    have "pop_task now me = Some (None, me)"
      using n d by (cases "scheduled_tasks me") (auto simp: pop_task_def ring_first_def Let_def)
    then show ?thesis using none n by blast
  next
    case t
    have "pop_task now me = Some (Some t, take_task t me)"
      using t d by (cases "scheduled_tasks me") (auto simp: pop_task_def ring_first_def Let_def)
    moreover have "same_but_queues me (take_task t me)" by (simp add: same_but_queues_def take_task_def Let_def)
    ultimately show ?thesis using some [of t "take_task t me"] take_task_ok [OF assms, of t] t d
      by (auto simp: take_task_def Let_def)
  qed
qed

section \<open>The invariant\<close>

text \<open>
  A thread that has an object is busy, from taking tasks on, or idle. Objects are not shared, the
  ring of busy threads has the objects of the busy ones and, while the pool is not terminated, the
  ring of idle threads has those of the idle ones. Tasks that are run are in no ring and not
  shared.
\<close>

datatype role = Busy nat | Idle nat

fun role_of :: "thread_pc \<Rightarrow> role option" where
  "role_of (T_run e k) = Some (Busy e)"
| "role_of (T_wait e) = Some (Idle e)"
| "role_of (T_woken e) = Some (Idle e)"
| "role_of (T_fault e) = Some (Idle e)"
| "role_of _ = None"

fun run_of :: "thread_pc \<Rightarrow> nat option" where
  "run_of (T_run e k) = Some k"
| "run_of _ = None"

fun elt_of :: "role \<Rightarrow> nat" where
  "elt_of (Busy e) = e"
| "elt_of (Idle e) = e"

definition elts_ok :: "base_threadpool \<Rightarrow> (nat \<Rightarrow> role option) \<Rightarrow> bool" where
  "elts_ok me rl \<longleftrightarrow>
     (\<forall>t t' r r'. rl t = Some r \<and> rl t' = Some r' \<and> elt_of r = elt_of r' \<longrightarrow> t = t')
     \<and> (\<forall>t r. rl t = Some r \<longrightarrow> elt_of r \<notin> set (recycled_thds me) \<and> state (elt_at me (elt_of r)) \<noteq> TH_STOP)
     \<and> (\<forall>t e. rl t = Some (Idle e) \<longrightarrow> current_owner (elt_at me e) = 0)
     \<and> distinct (recycled_thds me) \<and> distinct (busy_thds me) \<and> set (busy_thds me) = {e. \<exists>t. rl t = Some (Busy e)}
     \<and> idle_cnt me = int (length (idle_thds me))
     \<and> (\<not> terminated me \<longrightarrow> distinct (idle_thds me) \<and> set (idle_thds me) = {e. \<exists>t. rl t = Some (Idle e)})"

definition runs_ok :: "base_threadpool \<Rightarrow> (nat \<Rightarrow> nat option) \<Rightarrow> bool" where
  "runs_ok me rn \<longleftrightarrow>
     (\<forall>t k. rn t = Some k \<longrightarrow> k \<notin> set (tasks me) \<union> set (scheduled_tasks me) \<union> set (recycled_tasks me))
     \<and> (\<forall>t t' k. rn t = Some k \<and> rn t' = Some k \<longrightarrow> t = t')"

lemma elts_ok_cong:
  assumes "elts_ok me rl" "recycled_thds me' = recycled_thds me" "busy_thds me' = busy_thds me" "idle_thds me' = idle_thds me"
    "idle_cnt me' = idle_cnt me" "terminated me' = terminated me" "elt_at me' = elt_at me"
  shows "elts_ok me' rl"
  using assms by (simp add: elts_ok_def)

lemma elts_okD:
  assumes "elts_ok me rl"
  shows "rl t = Some r \<Longrightarrow> rl t' = Some r' \<Longrightarrow> elt_of r = elt_of r' \<Longrightarrow> t = t'"
    "rl t = Some r \<Longrightarrow> elt_of r \<notin> set (recycled_thds me)" "rl t = Some r \<Longrightarrow> state (elt_at me (elt_of r)) \<noteq> TH_STOP"
    "rl t = Some (Idle e) \<Longrightarrow> current_owner (elt_at me e) = 0"
    "distinct (recycled_thds me)" "distinct (busy_thds me)" "e \<in> set (busy_thds me) \<longleftrightarrow> (\<exists>t. rl t = Some (Busy e))"
    "\<not> terminated me \<Longrightarrow> distinct (idle_thds me)" "\<not> terminated me \<Longrightarrow> e \<in> set (idle_thds me) \<longleftrightarrow> (\<exists>t. rl t = Some (Idle e))"
    "idle_cnt me = int (length (idle_thds me))"
  using assms unfolding elts_ok_def by blast+

lemma elts_okI:
  assumes "\<And>t t' r r'. rl t = Some r \<Longrightarrow> rl t' = Some r' \<Longrightarrow> elt_of r = elt_of r' \<Longrightarrow> t = t'"
    "\<And>t r. rl t = Some r \<Longrightarrow> elt_of r \<notin> set (recycled_thds me) \<and> state (elt_at me (elt_of r)) \<noteq> TH_STOP"
    "\<And>t e. rl t = Some (Idle e) \<Longrightarrow> current_owner (elt_at me e) = 0"
    "distinct (recycled_thds me)" "distinct (busy_thds me)" "\<And>e. e \<in> set (busy_thds me) \<longleftrightarrow> (\<exists>t. rl t = Some (Busy e))"
    "\<not> terminated me \<Longrightarrow> distinct (idle_thds me)" "\<And>e. \<not> terminated me \<Longrightarrow> e \<in> set (idle_thds me) \<longleftrightarrow> (\<exists>t. rl t = Some (Idle e))"
    "idle_cnt me = int (length (idle_thds me))"
  shows "elts_ok me rl"
  using assms unfolding elts_ok_def by blast

text \<open>A busy thread becomes idle, or leaves the pool; a thread with a new or an idle object becomes busy.\<close>

lemma elts_to_idle:
  assumes "elts_ok me rl" "rl t = Some (Busy e)" "state x \<noteq> TH_STOP" "current_owner x = 0" "elt_at me' = (elt_at me)(e := x)"
    "busy_thds me' = remove1 e (busy_thds me)" "idle_thds me' = idle_thds me @ [e]" "idle_cnt me' = idle_cnt me + 1"
    "recycled_thds me' = recycled_thds me" "terminated me' = terminated me"
  shows "elts_ok me' (rl(t := Some (Idle e)))"
proof -
  note i = elts_okD [OF assms(1)]
  have e: "t' = t" if "rl t' = Some r" "elt_of r = e" for t' r using i(1) [OF that(1) assms(2)] that(2) by simp
  have e': "rl t' \<noteq> Some (Busy e)" "rl t' \<noteq> Some (Idle e)" if "t' \<noteq> t" for t' using e that by fastforce+
  show ?thesis
  proof (rule elts_okI)
    show "t1 = t2" if "(rl(t := Some (Idle e))) t1 = Some r" "(rl(t := Some (Idle e))) t2 = Some r'" "elt_of r = elt_of r'" for t1 t2 r r'
      using that i(1) e by (metis elt_of.simps(2) fun_upd_apply option.inject)
    show "elt_of r \<notin> set (recycled_thds me') \<and> state (elt_at me' (elt_of r)) \<noteq> TH_STOP" if "(rl(t := Some (Idle e))) t1 = Some r" for t1 r
      using that i(2,3) i(2) [OF assms(2)] assms(3,5,9) by (auto split: if_splits)
    show "current_owner (elt_at me' e1) = 0" if "(rl(t := Some (Idle e))) t1 = Some (Idle e1)" for t1 e1
      using that i(4) assms(4,5) by (auto split: if_splits)
    show "(e1 \<in> set (busy_thds me')) = (\<exists>t1. (rl(t := Some (Idle e))) t1 = Some (Busy e1))" for e1
      using i(6,7) assms(2,6) e' by (auto; metis option.inject role.inject(1))
    show "(e1 \<in> set (idle_thds me')) = (\<exists>t1. (rl(t := Some (Idle e))) t1 = Some (Idle e1))" if "\<not> terminated me'" for e1
      using that i(9) assms(2,7,10) by (auto; metis option.inject role.distinct(1))
    show "distinct (idle_thds me')" if "\<not> terminated me'"
    proof -
      have "\<not> terminated me" using that assms(10) by simp
      then have "e \<notin> set (idle_thds me)" using i(9) [of e] e'(2) assms(2) by (metis option.inject role.distinct(1))
      then show ?thesis using i(8) \<open>\<not> terminated me\<close> assms(7) by simp
    qed
  qed (use i assms in auto)
qed

lemma elts_to_none:
  assumes "elts_ok me rl" "rl t = Some (Busy e)"
    "busy_thds me' = remove1 e (busy_thds me)" "recycled_thds me' = recycled_thds me @ [e]"
    "idle_thds me' = idle_thds me" "idle_cnt me' = idle_cnt me" "elt_at me' = elt_at me" "terminated me' = terminated me"
  shows "elts_ok me' (rl(t := None))"
proof -
  note i = elts_okD [OF assms(1)]
  have e: "t' = t" if "rl t' = Some r" "elt_of r = e" for t' r using i(1) [OF that(1) assms(2)] that(2) by simp
  have e': "rl t' \<noteq> Some (Busy e)" "rl t' \<noteq> Some (Idle e)" if "t' \<noteq> t" for t' using e that by fastforce+
  show ?thesis
  proof (rule elts_okI)
    show "t1 = t2" if "(rl(t := None)) t1 = Some r" "(rl(t := None)) t2 = Some r'" "elt_of r = elt_of r'" for t1 t2 r r'
      using that i(1) by (auto split: if_splits)
    show "elt_of r \<notin> set (recycled_thds me') \<and> state (elt_at me' (elt_of r)) \<noteq> TH_STOP" if "(rl(t := None)) t1 = Some r" for t1 r
      using that i(2,3) e assms(4,7) by (auto split: if_splits)
    show "(e1 \<in> set (busy_thds me')) = (\<exists>t1. (rl(t := None)) t1 = Some (Busy e1))" for e1
      using i(6,7) assms(2,3) e' by (auto; metis option.inject role.inject(1))
    show "(e1 \<in> set (idle_thds me')) = (\<exists>t1. (rl(t := None)) t1 = Some (Idle e1))" if "\<not> terminated me'" for e1
      using that i(9) assms(2,5,8) by (auto; metis option.inject role.distinct(1))
    show "distinct (recycled_thds me')" using i(5) i(2) [OF assms(2)] assms(4) by simp
    show "current_owner (elt_at me' e1) = 0" if "(rl(t := None)) t1 = Some (Idle e1)" for t1 e1
      using that i(4) assms(7) by (auto split: if_splits)
  qed (use i assms in auto)
qed

lemma elts_idle_to_busy:
  assumes "elts_ok me rl" "rl t = Some (Idle e)" "\<not> terminated me" "elt_at me' = elt_at me"
    "busy_thds me' = busy_thds me @ [e]" "idle_thds me' = remove1 e (idle_thds me)" "idle_cnt me' = idle_cnt me - 1"
    "recycled_thds me' = recycled_thds me" "terminated me' = terminated me"
  shows "elts_ok me' (rl(t := Some (Busy e)))"
proof -
  note i = elts_okD [OF assms(1)]
  have e: "t' = t" if "rl t' = Some r" "elt_of r = e" for t' r using i(1) [OF that(1) assms(2)] that(2) by simp
  have e': "rl t' \<noteq> Some (Busy e)" "rl t' \<noteq> Some (Idle e)" if "t' \<noteq> t" for t' using e that by fastforce+
  have b: "e \<notin> set (busy_thds me)" "e \<in> set (idle_thds me)" using i(7) i(9) [OF assms(3)] e' assms(2) by (auto; metis option.inject role.distinct(1))+
  show ?thesis
  proof (rule elts_okI)
    show "t1 = t2" if "(rl(t := Some (Busy e))) t1 = Some r" "(rl(t := Some (Busy e))) t2 = Some r'" "elt_of r = elt_of r'" for t1 t2 r r'
      using that i(1) e by (metis elt_of.simps(1) fun_upd_apply option.inject)
    show "elt_of r \<notin> set (recycled_thds me') \<and> state (elt_at me' (elt_of r)) \<noteq> TH_STOP" if "(rl(t := Some (Busy e))) t1 = Some r" for t1 r
      using that i(2,3) i(2,3) [OF assms(2)] assms(4,8) by (auto split: if_splits)
    show "current_owner (elt_at me' e1) = 0" if "(rl(t := Some (Busy e))) t1 = Some (Idle e1)" for t1 e1
      using that i(4) assms(4) by (auto split: if_splits)
    show "(e1 \<in> set (busy_thds me')) = (\<exists>t1. (rl(t := Some (Busy e))) t1 = Some (Busy e1))" for e1
      using i(7) assms(2,5) by (auto; metis option.inject role.distinct(1))
    show "(e1 \<in> set (idle_thds me')) = (\<exists>t1. (rl(t := Some (Busy e))) t1 = Some (Idle e1))" if "\<not> terminated me'" for e1
      using i(8,9) [OF assms(3)] assms(2,6) e' by (auto; metis option.inject role.inject(2))
    show "idle_cnt me' = int (length (idle_thds me'))"
      using i(10) assms(6,7) b(2) by (simp add: int_length_remove1)
  qed (use i assms b in auto)
qed

lemma elts_new_to_busy:
  assumes "elts_ok me rl" "rl t = None" "\<And>t r. rl t = Some r \<Longrightarrow> elt_of r \<noteq> e" "state x \<noteq> TH_STOP" "elt_at me' = (elt_at me)(e := x)"
    "busy_thds me' = busy_thds me @ [e]" "idle_thds me' = idle_thds me" "idle_cnt me' = idle_cnt me"
    "recycled_thds me' = remove1 e (recycled_thds me)" "terminated me' = terminated me"
  shows "elts_ok me' (rl(t := Some (Busy e)))"
proof -
  note i = elts_okD [OF assms(1)]
  have e': "rl t' \<noteq> Some (Busy e)" "rl t' \<noteq> Some (Idle e)" for t' using assms(3) by fastforce+
  have b: "e \<notin> set (busy_thds me)" using i(7) e' by auto
  show ?thesis
  proof (rule elts_okI)
    show "t1 = t2" if "(rl(t := Some (Busy e))) t1 = Some r" "(rl(t := Some (Busy e))) t2 = Some r'" "elt_of r = elt_of r'" for t1 t2 r r'
      using that i(1) assms(3) by (metis elt_of.simps(1) fun_upd_apply option.inject)
    show "elt_of r \<notin> set (recycled_thds me') \<and> state (elt_at me' (elt_of r)) \<noteq> TH_STOP" if "(rl(t := Some (Busy e))) t1 = Some r" for t1 r
      using that i(2,3,5) assms(3,4,5,9) by (auto split: if_splits dest: notin_set_remove1)
    show "current_owner (elt_at me' e1) = 0" if "(rl(t := Some (Busy e))) t1 = Some (Idle e1)" for t1 e1
      using that i(4) assms(5) e' by (auto split: if_splits)
    show "(e1 \<in> set (busy_thds me')) = (\<exists>t1. (rl(t := Some (Busy e))) t1 = Some (Busy e1))" for e1
      using i(7) assms(2,6) by (auto; metis option.distinct(1))
    show "(e1 \<in> set (idle_thds me')) = (\<exists>t1. (rl(t := Some (Busy e))) t1 = Some (Idle e1))" if "\<not> terminated me'" for e1
      using i(9) assms(2,7,10) that by (auto; metis option.distinct(1))
  qed (use i assms b in auto)
qed

lemma elts_drop:
  assumes "elts_ok me rl" "terminated me" "rl t = None \<or> (\<exists>e. rl t = Some (Idle e))" shows "elts_ok me (rl(t := None))"
proof -
  note i = elts_okD [OF assms(1)]
  show ?thesis
  proof (rule elts_okI)
    show "(e1 \<in> set (busy_thds me)) = (\<exists>t1. (rl(t := None)) t1 = Some (Busy e1))" for e1
      using i(7) assms(3) by (auto; metis option.distinct(1) option.inject role.distinct(1))
    show "t1 = t2" if "(rl(t := None)) t1 = Some r" "(rl(t := None)) t2 = Some r'" "elt_of r = elt_of r'" for t1 t2 r r'
      using that i(1) by (auto split: if_splits)
  qed (use i assms(2) in \<open>auto split: if_splits\<close>)
qed

section \<open>The steps of a thread\<close>

definition same_queues :: "base_threadpool \<Rightarrow> base_threadpool \<Rightarrow> bool" where
  "same_queues me me' \<longleftrightarrow> tasks me' = tasks me \<and> scheduled_tasks me' = scheduled_tasks me \<and> recycled_tasks me' = recycled_tasks me
     \<and> task_cnt me' = task_cnt me \<and> scheduled_task_cnt me' = scheduled_task_cnt me \<and> task_idx me' = task_idx me \<and> task_at me' = task_at me"

lemma same_queues_ok:
  assumes "same_queues me me'"
  shows "queue_ok me \<Longrightarrow> queue_ok me'" "runs_ok me rn \<Longrightarrow> runs_ok me' rn" "pending me' = pending me" "tasks me' = tasks me" "task_at me' = task_at me"
  using assms by (simp_all add: same_queues_def queue_ok_def runs_ok_def pending_def)

fun out_jobs :: "event \<Rightarrow> job multiset" where
  "out_jobs (Begin j) = {#j#}"
| "out_jobs (Drop j) = {#j#}"
| "out_jobs (Cancel js) = mset js"
| "out_jobs _ = {#}"

text \<open>What holds after a critical section of a thread with the object \<open>e\<close>.\<close>

definition section_ok ::
    "nat \<Rightarrow> nat \<Rightarrow> base_threadpool \<Rightarrow> (nat \<Rightarrow> nat option) \<Rightarrow> (nat \<Rightarrow> role option) \<Rightarrow> thread_next \<Rightarrow> base_threadpool \<Rightarrow> bool" where
  "section_ok t e me rn rl nx me' \<longleftrightarrow> queue_ok me' \<and> runs_ok me' (rn(t := run_of (pc_after e nx)))
     \<and> elts_ok me' (rl(t := role_of (pc_after e nx)))
     \<and> thd_cnt me' = thd_cnt me - (if pc_after e nx = T_exited then 1 else 0) \<and> terminated me' = terminated me
     \<and> pending me = pending me' + out_jobs (event_of me' nx)
     \<and> (\<not> terminated me \<longrightarrow> (\<exists>k. nx = Run k) \<or> tasks me = [] \<and> tasks me' = []) \<and> (\<forall>j. event_of me' nx = Drop j \<longrightarrow> terminated me)"

text \<open>A thread that has found no task, or may not run it.\<close>

lemma become_idle_ok:
  assumes "queue_ok me" "elts_ok (me\<lparr>busy_thds := busy_thds me0\<rparr>) rl" "busy_thds me = remove1 e (busy_thds me0)" "rl t = Some (Busy e)"
    "current_owner (elt_at me e) = 0" "state (elt_at me e) \<noteq> TH_STOP"
  shows "\<exists>nx me'. become_idle now e me = Some (nx, me') \<and> same_queues me me' \<and> elts_ok me' (rl(t := Some (Idle e)))
    \<and> role_of (pc_after e nx) = Some (Idle e) \<and> run_of (pc_after e nx) = None \<and> event_of me' nx = Quiet
    \<and> thd_cnt me' = thd_cnt me \<and> terminated me' = terminated me"
proof -
  let ?me = "me\<lparr>idle_cnt := idle_cnt me + 1, idle_thds := idle_thds me @ [e]\<rparr>"
  let ?x = "(elt_at me e)\<lparr>state := TH_PROBATION\<rparr>"
  have 1: "elts_ok ?me (rl(t := Some (Idle e)))"
    by (rule elts_to_idle [OF assms(2,4), of "elt_at me e"]) (use assms(3,5,6) in auto)
  have 2: "elts_ok (?me\<lparr>elt_at := (elt_at me)(e := ?x)\<rparr>) (rl(t := Some (Idle e)))"
    by (rule elts_to_idle [OF assms(2,4), of ?x]) (use assms(3,5) in auto)
  have sc: "\<exists>k. ring_first (scheduled_tasks me) = Some k" if "scheduled_task_cnt me \<noteq> 0"
    using that queue_okD(8) [OF assms(1)] by (cases "scheduled_tasks me") (auto simp: ring_first_def)
  have "\<exists>nx me'. become_idle now e me = Some (nx, me') \<and> (nx = Wait \<or> (\<exists>w. nx = Timed_wait w))
      \<and> (me' = ?me \<or> me' = ?me\<lparr>elt_at := (elt_at me)(e := ?x)\<rparr>)"
  proof (cases "scheduled_task_cnt me \<noteq> 0")
    case True
    then show ?thesis using sc by (auto simp: become_idle_def Let_def waiting_time_def)
  next
    case False
    then show ?thesis by (cases "idle_cnt me + 1 > idle_max me") (auto simp: become_idle_def Let_def)
  qed
  then obtain nx me' where r: "become_idle now e me = Some (nx, me')" "nx = Wait \<or> (\<exists>w. nx = Timed_wait w)"
      "me' = ?me \<or> me' = ?me\<lparr>elt_at := (elt_at me)(e := ?x)\<rparr>" by blast
  have "elts_ok me' (rl(t := Some (Idle e)))" using r(3) 1 2 by blast
  moreover have "same_queues me me' \<and> thd_cnt me' = thd_cnt me \<and> terminated me' = terminated me" using r(3) by (auto simp: same_queues_def)
  moreover have "role_of (pc_after e nx) = Some (Idle e) \<and> run_of (pc_after e nx) = None \<and> event_of me' nx = Quiet" using r(2) by auto
  ultimately show ?thesis using r(1) by blast
qed

lemma tasks_done_ok:
  assumes "queue_ok me" "runs_ok me rn" "rn t = None" "elts_ok me rl" "rl t = Some (Busy e)" "current_owner (elt_at me e) = 0"
  shows "\<exists>nx me'. tasks_done now e d me = Some (nx, me') \<and> same_queues me me' \<and> elts_ok me' (rl(t := role_of (pc_after e nx)))
    \<and> run_of (pc_after e nx) = None \<and> thd_cnt me' = thd_cnt me - (if pc_after e nx = T_exited then 1 else 0) \<and> terminated me' = terminated me
    \<and> (nx = Exit d \<or> \<not> terminated me \<and> event_of me' nx = Quiet)"
proof -
  let ?me = "me\<lparr>busy_thds := remove1 e (busy_thds me)\<rparr>"
  have ns: "state (elt_at me e) \<noteq> TH_STOP" using elts_okD(3) [OF assms(4,5)] by simp
  show ?thesis
  proof (cases "leaves_pool e ?me")
    case True
    let ?me' = "?me\<lparr>thd_cnt := thd_cnt me - 1, thd_timed_out := thd_timed_out me + (if state (elt_at me e) = TH_PROBATION \<and> idle_wait me \<noteq> 0 then 1 else 0),
      recycled_thds := recycled_thds me @ [e]\<rparr>"
    have "elts_ok ?me' (rl(t := None))" by (rule elts_to_none [OF assms(4,5)]) auto
    moreover have "tasks_done now e d me = Some (Exit d, ?me')" using True ns assms(6) by (simp add: tasks_done_def Let_def)
    ultimately show ?thesis by (intro exI [of _ "Exit d"] exI [of _ ?me']) (simp add: same_queues_def)
  next
    case False
    then have "\<not> terminated me" by (simp add: leaves_pool_def)
    have q: "queue_ok ?me" using assms(1) by (simp add: queue_ok_def)
    have "elts_ok (?me\<lparr>busy_thds := busy_thds me\<rparr>) rl" using assms(4) by simp
    from become_idle_ok [OF q this _ assms(5), of now] obtain nx me' where r: "become_idle now e ?me = Some (nx, me')"
        "same_queues ?me me'" "elts_ok me' (rl(t := Some (Idle e)))" "role_of (pc_after e nx) = Some (Idle e)" "run_of (pc_after e nx) = None"
        "event_of me' nx = Quiet" "thd_cnt me' = thd_cnt me" "terminated me' = terminated me"
      using assms(6) ns by auto
    have "tasks_done now e d me = Some (nx, me')" using False ns assms(6) r(1) by (simp add: tasks_done_def Let_def)
    moreover have "same_queues me me'" using r(2) by (simp add: same_queues_def)
    moreover have "pc_after e nx \<noteq> T_exited" using r(4) by auto
    ultimately show ?thesis using r \<open>\<not> terminated me\<close> by auto
  qed
qed

lemma next_task_ok:
  assumes "queue_ok me" "runs_ok me rn" "rn t = None" "elts_ok me rl" "rl t = Some (Busy e)" "current_owner (elt_at me e) = 0"
  shows "\<exists>nx me'. next_task now now' e me = Some (nx, me') \<and> section_ok t e me rn rl nx me'"
  using assms(1)
proof (cases rule: pop_task_ok [of me now])
  case none
  obtain nx me' where r: "tasks_done now' e None me = Some (nx, me')" "same_queues me me'" "elts_ok me' (rl(t := role_of (pc_after e nx)))"
      "run_of (pc_after e nx) = None" "thd_cnt me' = thd_cnt me - (if pc_after e nx = T_exited then 1 else 0)" "terminated me' = terminated me"
      "nx = Exit None \<or> \<not> terminated me \<and> event_of me' nx = Quiet" using tasks_done_ok [OF assms, of now' None] by blast
  note s = same_queues_ok [OF r(2)]
  have "rn(t := None) = rn" using assms(3) by auto
  moreover have "out_jobs (event_of me' nx) = {#}" using r(7) by auto
  moreover have "event_of me' nx \<noteq> Drop j" for j using r(7) by auto
  ultimately have "section_ok t e me rn rl nx me'" using r s assms(1,2) none(2) by (auto simp: section_ok_def)
  then show ?thesis using none(1) r(1) by (simp add: next_task_def)
next
  case (some k me1)
  note f = same_but_queuesD [OF some(3)]
  have el: "elts_ok me1 rl" by (rule elts_ok_cong [OF assms(4)]) (simp_all add: f)
  have rn1: "runs_ok me1 rn" using assms(2) some(6,7) unfolding runs_ok_def f(1) by (meson UnE UnI1 UnI2 subsetD)
  show ?thesis
  proof (cases "terminated me1")
    case True
    obtain nx me' where r: "tasks_done now' e (Some k) me1 = Some (nx, me')" "same_queues me1 me'" "elts_ok me' (rl(t := role_of (pc_after e nx)))"
        "run_of (pc_after e nx) = None" "thd_cnt me' = thd_cnt me1 - (if pc_after e nx = T_exited then 1 else 0)" "terminated me' = terminated me1"
        "nx = Exit (Some k)" using tasks_done_ok [OF some(2) rn1 assms(3) el assms(5), of now' "Some k"] assms(6) f(3) True by auto
    note s = same_queues_ok [OF r(2)]
    have "rn(t := None) = rn" using assms(3) by auto
    then have "section_ok t e me rn rl nx me'" using r s some(2,8) rn1 f True by (auto simp: section_ok_def)
    then show ?thesis using some(1) r(1) True by (simp add: next_task_def)
  next
    case False
    let ?me = "me1\<lparr>tasks_run := tasks_run me1 + 1, elt_at := (elt_at me1)(e := (elt_at me1 e)\<lparr>current_owner := task_owner (task_at me1 k)\<rparr>)\<rparr>"
    have "queue_ok ?me" using some(2) by (simp add: queue_ok_def)
    moreover have "runs_ok ?me (rn(t := Some k))"
      using rn1 some(4,5) f(1) assms(2) unfolding runs_ok_def by (auto split: if_splits)
    moreover have "elts_ok ?me (rl(t := Some (Busy e)))"
    proof -
      have "rl(t := Some (Busy e)) = rl" using assms(5) by auto
      moreover have "rl t' \<noteq> Some (Idle e)" for t' using elts_okD(1) [OF el _ assms(5)] assms(5) by fastforce
      ultimately show ?thesis using el by (auto simp: elts_ok_def)
    qed
    moreover have "pending ?me = pending me1" by (simp add: pending_def)
    ultimately have "section_ok t e me rn rl (Run k) ?me" using some(8) f by (simp add: section_ok_def)
    moreover have "next_task now now' e me = Some (Run k, ?me)" using some(1) False by (simp add: next_task_def)
    ultimately show ?thesis by blast
  qed
qed

lemma thread_loop_ok:
  assumes "queue_ok me" "runs_ok me rn" "rn t = None" "elts_ok me rl" "rl t = Some (Idle e)"
  shows "\<exists>nx me'. thread_loop now now' e me = Some (nx, me') \<and> section_ok t e me rn rl nx me'"
proof (cases "terminated me")
  case True
  have "queue_ok (me\<lparr>thd_cnt := thd_cnt me - 1\<rparr>)" "runs_ok (me\<lparr>thd_cnt := thd_cnt me - 1\<rparr>) (rn(t := None))"
      "pending (me\<lparr>thd_cnt := thd_cnt me - 1\<rparr>) = pending me"
    using assms(1-3) by (auto simp: queue_ok_def runs_ok_def pending_def)
  moreover have "elts_ok (me\<lparr>thd_cnt := thd_cnt me - 1\<rparr>) (rl(t := None))"
    by (rule elts_ok_cong [OF elts_drop [OF assms(4) True]]) (use assms(5) in auto)
  ultimately have "section_ok t e me rn rl (Exit None) (me\<lparr>thd_cnt := thd_cnt me - 1\<rparr>)"
    using True by (simp add: section_ok_def)
  then show ?thesis using True by (simp add: thread_loop_def)
next
  case False
  have ns: "state (elt_at me e) \<noteq> TH_STOP" "current_owner (elt_at me e) = 0" "e \<in> set (idle_thds me)"
    using elts_okD(3,4) [OF assms(4)] elts_okD(9) [OF assms(4) False] assms(5) by fastforce+
  let ?me = "me\<lparr>idle_cnt := idle_cnt me - 1, idle_thds := remove1 e (idle_thds me), busy_thds := busy_thds me @ [e]\<rparr>"
  have q: "queue_ok ?me" "runs_ok ?me rn" "pending ?me = pending me" using assms(1,2) by (auto simp: queue_ok_def runs_ok_def pending_def)
  have "elts_ok ?me (rl(t := Some (Busy e)))" by (rule elts_idle_to_busy [OF assms(4,5) False]) simp_all
  from next_task_ok [OF q(1,2) assms(3) this, of e now now'] obtain nx me' where
    "next_task now now' e ?me = Some (nx, me')" "section_ok t e ?me rn (rl(t := Some (Busy e))) nx me'" using ns by auto
  then show ?thesis using False ns q(3) by (auto simp: thread_loop_def section_ok_def Let_def)
qed

lemma thread_start_ok:
  assumes "queue_ok me" "runs_ok me rn" "rn t = None" "elts_ok me rl" "rl t = None"
    "\<And>a. alloc = Some a \<Longrightarrow> a \<notin> set (recycled_thds me) \<and> a \<notin> set (idle_thds me) \<and> (\<forall>t r. rl t = Some r \<longrightarrow> elt_of r \<noteq> a)"
    "elt_new alloc t me = (Some e, me1)"
  shows "\<exists>nx me'. thread_start alloc now now' t me = (Some e, Some (nx, me')) \<and> section_ok t e me rn rl nx me'"
proof -
  let ?x = "\<lparr>thd = t, current_owner = 0, state = TH_RUN\<rparr>"
  have me1: "me1 = me\<lparr>recycled_thds := remove1 e (recycled_thds me), elt_at := (elt_at me)(e := ?x)\<rparr>"
    using assms(7) by (auto simp: elt_new_def Let_def split: option.splits)
  have r: "recycled_thds me = [] \<and> alloc = Some e \<or> e \<in> set (recycled_thds me)"
    using assms(7) by (cases "recycled_thds me") (auto simp: elt_new_def Let_def ring_first_def split: option.splits if_splits)
  have fresh: "elt_of r \<noteq> e" if "rl t' = Some r" for t' r
    using r assms(6) [of e] elts_okD(2) [OF assms(4) that] that by auto
  have idle: "e \<notin> set (idle_thds me)" if "\<not> terminated me" using elts_okD(9) [OF assms(4) that, of e] fresh by fastforce
  have q: "queue_ok me1" "runs_ok me1 rn" "pending me1 = pending me" using assms(1,2) by (auto simp: me1 queue_ok_def runs_ok_def pending_def)
  have "\<exists>nx me'. thread_loop now now' e me1 = Some (nx, me') \<and> section_ok t e me rn rl nx me'"
  proof (cases "terminated me")
    case True
    have "elts_ok (me1\<lparr>thd_cnt := thd_cnt me1 - 1\<rparr>) rl"
      using assms(4) fresh True unfolding elts_ok_def me1 by (auto dest: notin_set_remove1)
    moreover have "rl(t := None) = rl" "rn(t := None) = rn" using assms(3,5) by auto
    moreover have "queue_ok (me1\<lparr>thd_cnt := thd_cnt me1 - 1\<rparr>)" "runs_ok (me1\<lparr>thd_cnt := thd_cnt me1 - 1\<rparr>) rn"
        "pending (me1\<lparr>thd_cnt := thd_cnt me1 - 1\<rparr>) = pending me"
      using q by (auto simp: queue_ok_def runs_ok_def pending_def)
    ultimately have "section_ok t e me rn rl (Exit None) (me1\<lparr>thd_cnt := thd_cnt me1 - 1\<rparr>)"
      using True by (simp add: section_ok_def me1)
    moreover have "terminated me1" using True by (simp add: me1)
    ultimately show ?thesis by (simp add: thread_loop_def)
  next
    case False
    let ?me = "me1\<lparr>busy_thds := busy_thds me1 @ [e]\<rparr>"
    have q2: "queue_ok ?me" "runs_ok ?me rn" "pending ?me = pending me" using q by (auto simp: queue_ok_def runs_ok_def pending_def)
    have "elts_ok ?me (rl(t := Some (Busy e)))"
      by (rule elts_new_to_busy [OF assms(4,5), where x = ?x]) (use fresh in \<open>auto simp: me1\<close>)
    from next_task_ok [OF q2(1,2) assms(3) this, of e now now'] obtain nx me' where
      n: "next_task now now' e ?me = Some (nx, me')" "section_ok t e ?me rn (rl(t := Some (Busy e))) nx me'" by (auto simp: me1)
    moreover have "thread_loop now now' e me1 = next_task now now' e ?me"
      using False idle by (simp add: thread_loop_def me1)
    ultimately show ?thesis using q2(3) by (auto simp: section_ok_def me1)
  qed
  then show ?thesis using assms(7) by (auto simp: thread_start_def)
qed

lemma task_ended_ok:
  assumes "queue_ok me" "runs_ok me rn" "rn t = Some k" "elts_ok me rl" "rl t = Some (Busy e)"
  shows "\<exists>nx me'. task_ended now now' e k me = Some (nx, me') \<and> section_ok t e me rn rl nx me'"
proof -
  let ?me = "me\<lparr>recycled_tasks := recycled_tasks me @ [k], elt_at := (elt_at me)(e := (elt_at me e)\<lparr>current_owner := 0\<rparr>)\<rparr>"
  have k: "k \<notin> set (tasks me) \<union> set (scheduled_tasks me) \<union> set (recycled_tasks me)" using assms(2,3) unfolding runs_ok_def by blast
  have q: "queue_ok ?me" "pending ?me = pending me" using assms(1) k by (auto simp: queue_ok_def pending_def)
  have r: "runs_ok ?me (rn(t := None))" using assms(2,3) unfolding runs_ok_def by (auto split: if_splits)
  have el: "elts_ok ?me rl" using assms(4) by (auto simp: elts_ok_def)
  have ns: "state (elt_at me e) \<noteq> TH_STOP" using elts_okD(3) [OF assms(4,5)] by simp
  from next_task_ok [OF q(1) r _ el assms(5), of now now'] obtain nx me' where
    "next_task now now' e ?me = Some (nx, me')" "section_ok t e ?me (rn(t := None)) rl nx me'" by auto
  then show ?thesis using ns q(2) by (auto simp: task_ended_def section_ok_def Let_def)
qed

section \<open>The calls of the clients\<close>

text \<open>The three walks look for the first task that fails a test.\<close>

lemma walks_first:
  "skip_higher me pr xs = ring_first (dropWhile (\<lambda>u. dispatch_priority (task_at me u) > pr) xs)"
  "skip_equal me pr xs = ring_first (dropWhile (\<lambda>u. dispatch_priority (task_at me u) \<ge> pr) xs)"
  "sched_loc me tm xs = ring_first (dropWhile (\<lambda>u. dispatch_time (task_at me u) \<le> tm) xs)"
  by (induction xs) (auto simp: ring_first_def)

lemma insert_first:
  assumes "distinct xs"
  shows "ring_insert_before (ring_first (dropWhile P xs)) t xs = takeWhile P xs @ t # dropWhile P xs"
proof (cases "dropWhile P xs")
  case Nil
  then have t: "takeWhile P xs = xs" using takeWhile_dropWhile_id [of P xs] by (metis append_Nil2)
  show ?thesis unfolding Nil t by (simp add: ring_first_def ring_insert_before_def)
next
  case (Cons u us)
  have xs: "xs = takeWhile P xs @ u # us" using takeWhile_dropWhile_id [of P xs] Cons by simp
  then have u: "u \<notin> set (takeWhile P xs)" using assms by (metis distinct_append disjoint_iff list.set_intros(1))
  then have "takeWhile (\<lambda>y. y \<noteq> u) (takeWhile P xs @ u # us) = takeWhile P xs"
      "dropWhile (\<lambda>y. y \<noteq> u) (takeWhile P xs @ u # us) = u # us"
    by (auto simp: takeWhile_append dropWhile_append)
  then show ?thesis using xs Cons by (simp add: ring_first_def ring_insert_before_def)
qed

lemma insert_any:
  assumes "loc = None \<or> loc \<in> Some ` set xs"
  shows "mset (ring_insert_before loc t xs) = add_mset t (mset xs)" "set (ring_insert_before loc t xs) = insert t (set xs)"
    "distinct (ring_insert_before loc t xs) \<longleftrightarrow> t \<notin> set xs \<and> distinct xs" "length (ring_insert_before loc t xs) = Suc (length xs)"
proof -
  show 1: "mset (ring_insert_before loc t xs) = add_mset t (mset xs)" using ring_insert_split [OF assms, of t] by auto
  show "set (ring_insert_before loc t xs) = insert t (set xs)" using ring_insert_split [OF assms, of t] by auto
  show "distinct (ring_insert_before loc t xs) \<longleftrightarrow> t \<notin> set xs \<and> distinct xs" using ring_insert_split [OF assms, of t] by auto
  show "length (ring_insert_before loc t xs) = Suc (length xs)" using ring_insert_split [OF assms, of t] by auto
qed

lemma ring_first_in: "ring_first xs = Some u \<Longrightarrow> u \<in> set xs"
  by (cases xs) (auto simp: ring_first_def)

lemma first_drop_loc: "set ys \<subseteq> set xs \<Longrightarrow> ring_first (dropWhile P ys) = None \<or> ring_first (dropWhile P ys) \<in> Some ` set xs"
  by (metis image_eqI list.case_eq_if ring_first_def ring_first_in set_dropWhileD subsetD)

lemma set_ring_from: "set (ring_from u xs) \<subseteq> set xs" "set (from_loc loc xs) \<subseteq> set xs"
  by (auto simp: ring_from_def from_loc_def dest: set_dropWhileD split: option.splits)

lemma lower_idx_Some: "lower_idx n me = Some i \<Longrightarrow> \<exists>seg. task_idx me seg = Some i"
  by (induction n) (auto split: if_splits)

text \<open>A new task object is in no queue.\<close>

lemma task_new_ok:
  assumes "queue_ok me" "task_new alloc now fn fl par priority owner time me = (Some t, me')"
    "\<And>a. alloc = Some a \<Longrightarrow> a \<notin> set (tasks me) \<union> set (scheduled_tasks me) \<union> set (recycled_tasks me)"
  shows "\<exists>x. me' = me\<lparr>recycled_tasks := remove1 t (recycled_tasks me), task_at := (task_at me)(t := x)\<rparr> \<and> job_of x = (fn, fl, par, owner)"
    "t \<in> set (recycled_tasks me) \<or> alloc = Some t"
    "t \<notin> set (tasks me) \<union> set (scheduled_tasks me)" "queue_ok me'" "pending me' = pending me"
proof -
  show ex: "\<exists>x. me' = me\<lparr>recycled_tasks := remove1 t (recycled_tasks me), task_at := (task_at me)(t := x)\<rparr> \<and> job_of x = (fn, fl, par, owner)"
    using assms(2) by (auto simp: task_new_def Let_def job_of_def set_dispatch_priority_def split: option.splits)
  show al: "t \<in> set (recycled_tasks me) \<or> alloc = Some t"
    using assms(2) by (cases "recycled_tasks me") (auto simp: task_new_def Let_def ring_first_def split: option.splits)
  then show t: "t \<notin> set (tasks me) \<union> set (scheduled_tasks me)" using queue_okD(5,6) [OF assms(1)] assms(3) by blast
  obtain x where x: "me' = me\<lparr>recycled_tasks := remove1 t (recycled_tasks me), task_at := (task_at me)(t := x)\<rparr>" using ex by blast
  have m: "map (dispatch_time \<circ> task_at me') (scheduled_tasks me') = map (dispatch_time \<circ> task_at me) (scheduled_tasks me)" using t by (auto simp: x)
  show "queue_ok me'"
  proof (rule queue_okI)
    show "sorted (map (dispatch_time \<circ> task_at me') (scheduled_tasks me'))" unfolding m by (rule queue_okD(11) [OF assms(1)])
  qed (use queue_okD [OF assms(1)] t in \<open>auto simp: x dest: notin_set_remove1\<close>)
  show "pending me' = pending me" using t unfolding pending_def x by (auto intro!: image_mset_cong arg_cong2 [of _ _ _ _ "(+)"])
qed

lemma place_task_ok:
  assumes "queue_ok me" "t \<notin> set (tasks me) \<union> set (scheduled_tasks me) \<union> set (recycled_tasks me)"
  shows "\<exists>loc idx. place_task t push me = Some (me\<lparr>tasks := ring_insert_before loc t (tasks me), task_idx := idx\<rparr>)
    \<and> (loc = None \<or> loc \<in> Some ` set (tasks me))
    \<and> (\<forall>seg i. idx seg = Some i \<longrightarrow> i \<in> insert t (set (tasks me)) \<and> TASK_PRIORITY_SEG (task_at me i) = seg)"
proof -
  let ?seg = "TASK_PRIORITY_SEG (task_at me t)" and ?pr = "dispatch_priority (task_at me t)"
  note q = queue_okD [OF assms(1)]
  have idx: "i \<in> insert t (set (tasks me)) \<and> TASK_PRIORITY_SEG (task_at me i) = seg"
    if "((task_idx me)(?seg := Some t)) seg = Some i \<or> task_idx me seg = Some i" for seg i
    using that q(9,10) by (auto split: if_splits)
  show ?thesis
  proof (cases "task_idx me ?seg")
    case None
    have "place_task t push me = Some (me\<lparr>tasks := ring_insert_before (lower_idx ?seg me) t (tasks me), task_idx := (task_idx me)(?seg := Some t)\<rparr>)"
      using None q(9) lower_idx_Some [of ?seg me]
      by (cases "lower_idx ?seg me") (auto simp: place_task_def add_if_empty_def Let_def ring_insert_before_def)
    moreover have "lower_idx ?seg me = None \<or> lower_idx ?seg me \<in> Some ` set (tasks me)"
      using lower_idx_Some [of ?seg me] q(9) by (cases "lower_idx ?seg me") auto
    ultimately show ?thesis using idx by blast
  next
    case (Some i)
    let ?l = "skip_higher me ?pr (ring_from i (tasks me))"
    let ?loc = "if push then skip_equal me ?pr (from_loc ?l (tasks me)) else ?l"
    have "place_task t push me = Some (me\<lparr>tasks := ring_insert_before ?loc t (tasks me),
        task_idx := (if \<not> push \<and> ?loc \<noteq> None \<and> ?loc = task_idx me ?seg then (task_idx me)(?seg := Some t) else task_idx me)\<rparr>)"
      using Some q(9) by (simp add: place_task_def add_if_empty_def Let_def)
    moreover have "?loc = None \<or> ?loc \<in> Some ` set (tasks me)"
      unfolding walks_first by (cases push) (simp_all only: if_True if_False first_drop_loc [OF set_ring_from(1)] first_drop_loc [OF set_ring_from(2)])
    moreover have "j \<in> insert t (set (tasks me)) \<and> TASK_PRIORITY_SEG (task_at me j) = seg"
      if "(if \<not> push \<and> ?loc \<noteq> None \<and> ?loc = task_idx me ?seg then (task_idx me)(?seg := Some t) else task_idx me) seg = Some j" for seg j
      using that idx [of seg j] by (auto split: if_splits)
    ultimately show ?thesis by blast
  qed
qed

definition same_threads :: "base_threadpool \<Rightarrow> base_threadpool \<Rightarrow> bool" where
  "same_threads me me' \<longleftrightarrow> busy_thds me' = busy_thds me \<and> idle_thds me' = idle_thds me \<and> recycled_thds me' = recycled_thds me
     \<and> idle_cnt me' = idle_cnt me \<and> elt_at me' = elt_at me \<and> terminated me' = terminated me"

lemma same_threads_ok: "same_threads me me' \<Longrightarrow> elts_ok me rl \<Longrightarrow> elts_ok me' rl"
  by (rule elts_ok_cong) (auto simp: same_threads_def)

text \<open>What holds after a task was added.\<close>

definition added_ok :: "base_threadpool \<Rightarrow> (nat \<Rightarrow> nat option) \<Rightarrow> job \<Rightarrow> bool \<Rightarrow> base_threadpool \<Rightarrow> bool" where
  "added_ok me rn j started me' \<longleftrightarrow> queue_ok me' \<and> runs_ok me' rn \<and> same_threads me me' \<and> pending me' = add_mset j (pending me)
     \<and> thd_cnt me' = thd_cnt me + (if started then 1 else 0)"

lemma count_thread_ok:
  "added_ok me rn j False me' \<Longrightarrow> added_ok me rn j (rv = 0) (count_thread rv me')"
  by (auto simp: added_ok_def count_thread_def queue_ok_def runs_ok_def same_threads_def pending_def)

lemma runs_ok_new:
  assumes "runs_ok me rn" "t \<in> set (recycled_tasks me) \<or> (\<forall>t'. rn t' \<noteq> Some t)"
    "set (tasks me') \<union> set (scheduled_tasks me') \<union> set (recycled_tasks me') \<subseteq> insert t (set (tasks me) \<union> set (scheduled_tasks me) \<union> set (recycled_tasks me))"
  shows "runs_ok me' rn"
proof -
  have "k \<notin> insert t (set (tasks me) \<union> set (scheduled_tasks me) \<union> set (recycled_tasks me))" if "rn t' = Some k" for t' k
    using assms(1,2) that unfolding runs_ok_def by blast
  then show ?thesis using assms(1,3) unfolding runs_ok_def by blast
qed

lemma add_task_ok:
  assumes "queue_ok me" "runs_ok me rn"
    "\<And>a. alloc = Some a \<Longrightarrow> a \<notin> set (tasks me) \<union> set (scheduled_tasks me) \<union> set (recycled_tasks me) \<and> (\<forall>t. rn t \<noteq> Some a)"
  shows "(\<exists>err. add_task alloc rv fn fl par priority push owner me = Some (Refused err, me))
    \<or> (\<exists>r started me'. add_task alloc rv fn fl par priority push owner me = Some (Added r started, me') \<and> added_ok me rn (fn, fl, par, owner) started me')"
proof (cases "task_max me \<noteq> 0 \<and> task_cnt me \<ge> task_max me")
  case True
  then show ?thesis by (simp add: add_task_def)
next
  case False
  note refuse = this
  obtain tt me1 where n: "task_new alloc 0 fn fl par priority owner 0 me = (tt, me1)" by (cases "task_new alloc 0 fn fl par priority owner 0 me")
  show ?thesis
  proof (cases tt)
    case None
    then have "me1 = me" using n by (auto simp: task_new_def Let_def split: option.splits)
    then show ?thesis using None n refuse by (auto simp: add_task_def)
  next
    case (Some t)
    have fresh: "a \<notin> set (tasks me) \<union> set (scheduled_tasks me) \<union> set (recycled_tasks me)" if "alloc = Some a" for a using assms(3) that by blast
    note tn = task_new_ok [OF assms(1) n [unfolded Some] fresh]
    obtain x where x: "me1 = me\<lparr>recycled_tasks := remove1 t (recycled_tasks me), task_at := (task_at me)(t := x)\<rparr>" "job_of x = (fn, fl, par, owner)"
      using tn(1) by blast
    have nr: "t \<notin> set (recycled_tasks me1)" using queue_okD(3) [OF assms(1)] tn(2) fresh by (auto simp: x dest: notin_set_remove1)
    have "t \<notin> set (tasks me1) \<union> set (scheduled_tasks me1) \<union> set (recycled_tasks me1)" using tn(3) nr by (simp add: x)
    from place_task_ok [OF tn(4) this, of push] obtain loc idx where
      p: "place_task t push me1 = Some (me1\<lparr>tasks := ring_insert_before loc t (tasks me1), task_idx := idx\<rparr>)"
        "loc = None \<or> loc \<in> Some ` set (tasks me1)"
        "\<And>seg i. idx seg = Some i \<Longrightarrow> i \<in> insert t (set (tasks me1)) \<and> TASK_PRIORITY_SEG (task_at me1 i) = seg" by blast
    let ?me = "me1\<lparr>tasks := ring_insert_before loc t (tasks me1), task_idx := idx, task_cnt := task_cnt me1 + 1, tasks_high := max (tasks_high me1) (task_cnt me1 + 1)\<rparr>"
    note ins = insert_any [OF p(2), of t]
    note q1 = queue_okD [OF tn(4)]
    have "queue_ok ?me"
      by (rule queue_okI) (use ins q1 tn(3) nr p(3) in \<open>auto simp: x(1)\<close>)
    moreover have "runs_ok ?me rn"
      using runs_ok_new [OF assms(2), of t ?me] tn(2) assms(3) ins(2) by (auto simp: x(1) dest: notin_set_remove1)
    moreover have "pending ?me = add_mset (fn, fl, par, owner) (pending me)"
      using tn(5) ins(1) x(2) by (simp add: pending_def x(1))
    ultimately have ok: "added_ok me rn (fn, fl, par, owner) False ?me" by (simp add: added_ok_def same_threads_def x(1))
    show ?thesis using ok count_thread_ok [OF ok, of rv] n refuse Some p(1)
      by (simp add: add_task_def Let_def; blast)
  qed
qed

lemma add_task_Added:
  assumes "queue_ok me" "runs_ok me rn"
    "\<And>a. alloc = Some a \<Longrightarrow> a \<notin> set (tasks me) \<union> set (scheduled_tasks me) \<union> set (recycled_tasks me) \<and> (\<forall>t. rn t \<noteq> Some a)"
    "add_task alloc rv fn fl par priority push owner me = Some (Added r started, me')"
  shows "added_ok me rn (fn, fl, par, owner) started me'"
proof -
  have "(\<exists>err. Some (Added r started, me') = Some (Refused err, me))
    \<or> (\<exists>r1 started1 me1. Some (Added r started, me') = Some (Added r1 started1, me1) \<and> added_ok me rn (fn, fl, par, owner) started1 me1)"
    using add_task_ok [OF assms(1-3)] unfolding assms(4) [symmetric] .
  then show ?thesis by auto
qed

lemma sched_place_first: "sched_place beyond me tm = ring_first (dropWhile (\<lambda>u. dispatch_time (task_at me u) \<le> tm) (scheduled_tasks me))"
  by (cases "scheduled_tasks me") (auto simp: sched_place_def walks_first ring_first_def)

lemma sorted_place:
  assumes "sorted (map f xs)" shows "sorted (map f (takeWhile (\<lambda>u. f u \<le> f t) xs @ t # dropWhile (\<lambda>u. f u \<le> f t) xs))"
  using assms
proof (induction xs)
  case (Cons u us)
  show ?case
  proof (cases "f u \<le> f t")
    case True
    have "set (takeWhile (\<lambda>u. f u \<le> f t) us @ dropWhile (\<lambda>u. f u \<le> f t) us) = set us" by simp
    then have "\<forall>y\<in>set (takeWhile (\<lambda>u. f u \<le> f t) us @ t # dropWhile (\<lambda>u. f u \<le> f t) us). f u \<le> f y"
      using Cons.prems True by (auto dest: set_takeWhileD set_dropWhileD)
    then show ?thesis using Cons True by auto
  qed (use Cons.prems in auto)
qed simp

lemma schedule_task_ok:
  assumes "queue_ok me" "runs_ok me rn"
    "\<And>a. alloc = Some a \<Longrightarrow> a \<notin> set (tasks me) \<union> set (scheduled_tasks me) \<union> set (recycled_tasks me) \<and> (\<forall>t. rn t \<noteq> Some a)"
    "schedule_task alloc now beyond rv fn fl par owner time me = (Added r started, me')"
  shows "added_ok me rn (fn, fl, par, owner) started me'" "tasks me' = tasks me"
proof -
  obtain t me1 where n: "task_new alloc now fn fl par 0 owner time me = (Some t, me1)"
    using assms(4) by (auto simp: schedule_task_def split: prod.splits option.splits)
  have fresh: "a \<notin> set (tasks me) \<union> set (scheduled_tasks me) \<union> set (recycled_tasks me)" if "alloc = Some a" for a using assms(3) that by blast
  note tn = task_new_ok [OF assms(1) n fresh]
  obtain x where x: "me1 = me\<lparr>recycled_tasks := remove1 t (recycled_tasks me), task_at := (task_at me)(t := x)\<rparr>" "job_of x = (fn, fl, par, owner)"
    using tn(1) by blast
  have nr: "t \<notin> set (recycled_tasks me1)" using queue_okD(3) [OF assms(1)] tn(2) fresh by (auto simp: x dest: notin_set_remove1)
  note q1 = queue_okD [OF tn(4)]
  define loc where "loc = sched_place beyond me1 (dispatch_time (task_at me1 t))"
  have p: "loc = None \<or> loc \<in> Some ` set (scheduled_tasks me1)"
    unfolding loc_def sched_place_first by (rule first_drop_loc) simp
  let ?me = "me1\<lparr>scheduled_task_cnt := scheduled_task_cnt me1 + 1, scheduled_tasks := ring_insert_before loc t (scheduled_tasks me1)\<rparr>"
  note ins = insert_any [OF p, of t]
  have "sorted (map (dispatch_time \<circ> task_at me1) (ring_insert_before loc t (scheduled_tasks me1)))"
    using sorted_place [OF q1(11), of t] by (simp add: loc_def sched_place_first insert_first [OF q1(2)])
  then have "queue_ok ?me"
    by (intro queue_okI) (use ins q1 tn(3) nr in \<open>auto simp: x(1)\<close>)
  moreover have "runs_ok ?me rn"
    using runs_ok_new [OF assms(2), of t ?me] tn(2) assms(3) ins(2) by (auto simp: x(1) dest: notin_set_remove1)
  moreover have "pending ?me = add_mset (fn, fl, par, owner) (pending me)"
    using tn(5) ins(1) x(2) by (simp add: pending_def x(1))
  ultimately have ok: "added_ok me rn (fn, fl, par, owner) False ?me" by (simp add: added_ok_def same_threads_def x(1))
  have r: "(Added r started, me') = (if thd_cnt ?me = 0 then (Added rv (rv = 0), count_thread rv ?me) else (Added 0 False, ?me))"
    using assms(4) n by (auto simp: schedule_task_def Let_def loc_def split: if_splits)
  then show "added_ok me rn (fn, fl, par, owner) started me'" using ok count_thread_ok [OF ok, of rv] by (auto split: if_splits)
  show "tasks me' = tasks me" using r by (auto simp: x(1) count_thread_def split: if_splits)
qed

text \<open>Cancelling takes out the tasks of the owner.\<close>

lemma same_but_queues_refl: "same_but_queues me me"
  by (simp add: same_but_queues_def)

lemma same_but_queues_trans:
  assumes "same_but_queues a b" "same_but_queues b c" shows "same_but_queues a c"
  unfolding same_but_queues_def
  by (subst assms(2) [unfolded same_but_queues_def], subst assms(1) [unfolded same_but_queues_def], simp)

lemma take_task_same: "same_but_queues me (take_task t me)"
  by (simp add: same_but_queues_def take_task_def Let_def)

abbreviation owned :: "nat \<Rightarrow> base_threadpool \<Rightarrow> nat \<Rightarrow> bool" where
  "owned owner me t \<equiv> task_owner (task_at me t) = owner"

lemma remove_tasks_loop_ok:
  assumes "queue_ok me" "set ts \<subseteq> set (tasks me)" "distinct ts"
  shows "queue_ok (remove_tasks_loop owner ts me) \<and> same_but_queues me (remove_tasks_loop owner ts me)
    \<and> scheduled_tasks (remove_tasks_loop owner ts me) = scheduled_tasks me
    \<and> set (tasks (remove_tasks_loop owner ts me)) = set (tasks me) - {t \<in> set ts. owned owner me t}
    \<and> pending me = pending (remove_tasks_loop owner ts me) + image_mset (job_of \<circ> task_at me) (mset (filter (owned owner me) ts))"
  using assms
proof (induction ts arbitrary: me)
  case (Cons t ts)
  let ?me = "if owned owner me t then take_task t me else me"
  have q: "queue_ok ?me" using take_task_ok(1) [OF Cons.prems(1), of t] Cons.prems by auto
  have dd: "distinct (tasks me)" by (rule queue_okD(1) [OF Cons.prems(1)])
  have sub: "set ts \<subseteq> set (tasks ?me)" using Cons.prems(2,3) dd by auto
  have s: "same_but_queues me ?me" using take_task_same same_but_queues_refl by simp
  have ta: "task_at ?me = task_at me" "scheduled_tasks ?me = scheduled_tasks me" by simp_all
  have p: "pending me = pending ?me + (if owned owner me t then {#job_of (task_at me t)#} else {#})"
    using take_task_ok(2) [OF Cons.prems(1), of t] Cons.prems(2) by simp
  have st: "set (tasks ?me) = set (tasks me) - (if owned owner me t then {t} else {})" using dd by simp
  have d: "distinct ts" using Cons.prems(3) by simp
  from Cons.IH [OF q sub d] have IH: "queue_ok (remove_tasks_loop owner ts ?me)" "same_but_queues ?me (remove_tasks_loop owner ts ?me)"
      "scheduled_tasks (remove_tasks_loop owner ts ?me) = scheduled_tasks me"
      "set (tasks (remove_tasks_loop owner ts ?me)) = set (tasks ?me) - {t \<in> set ts. owned owner me t}"
      "pending ?me = pending (remove_tasks_loop owner ts ?me) + image_mset (job_of \<circ> task_at me) (mset (filter (owned owner me) ts))"
    unfolding ta by blast+
  have r: "remove_tasks_loop owner (t # ts) me = remove_tasks_loop owner ts ?me" by simp
  have 1: "set (tasks (remove_tasks_loop owner ts ?me)) = set (tasks me) - {u \<in> set (t # ts). owned owner me u}"
    unfolding IH(4) st by auto
  have 2: "pending me = pending (remove_tasks_loop owner ts ?me) + image_mset (job_of \<circ> task_at me) (mset (filter (owned owner me) (t # ts)))"
    unfolding p IH(5) by simp
  show ?case unfolding r using IH(1,3) same_but_queues_trans [OF s IH(2)] 1 2 by blast
qed (simp add: same_but_queues_refl)

lemma remove_scheduled_loop_ok:
  assumes "queue_ok me" "set ts \<subseteq> set (scheduled_tasks me)" "distinct ts"
  shows "queue_ok (remove_scheduled_loop owner ts me) \<and> same_but_queues me (remove_scheduled_loop owner ts me)
    \<and> tasks (remove_scheduled_loop owner ts me) = tasks me
    \<and> set (scheduled_tasks (remove_scheduled_loop owner ts me)) = set (scheduled_tasks me) - {t \<in> set ts. owned owner me t}
    \<and> pending me = pending (remove_scheduled_loop owner ts me) + image_mset (job_of \<circ> task_at me) (mset (filter (owned owner me) ts))"
  using assms
proof (induction ts arbitrary: me)
  case (Cons t ts)
  let ?r = "me\<lparr>scheduled_task_cnt := scheduled_task_cnt me - 1, scheduled_tasks := remove1 t (scheduled_tasks me)\<rparr>"
  let ?me = "if owned owner me t then ?r else me"
  note qs = queue_okD [OF Cons.prems(1)]
  have t: "t \<in> set (scheduled_tasks me)" using Cons.prems(2) by simp
  have "sorted (map (dispatch_time \<circ> task_at me) (remove1 t (scheduled_tasks me)))"
    using sorted_map_remove1 [OF qs(11)] by simp
  then have "queue_ok ?r"
    by (intro queue_okI) (use qs int_length_remove1 [OF t] in \<open>auto dest: notin_set_remove1\<close>)
  then have q: "queue_ok ?me" using Cons.prems(1) by simp
  have sub: "set ts \<subseteq> set (scheduled_tasks ?me)" using Cons.prems(2,3) qs(2) by auto
  have "same_but_queues me ?r" by (simp add: same_but_queues_def)
  then have s: "same_but_queues me ?me" using same_but_queues_refl by simp
  have ta: "task_at ?me = task_at me" "tasks ?me = tasks me" by simp_all
  have p: "pending me = pending ?me + (if owned owner me t then {#job_of (task_at me t)#} else {#})"
    unfolding pending_def image_mset_union by (simp add: image_mset_remove1 [OF t] del: mset_remove1)
  have st: "set (scheduled_tasks ?me) = set (scheduled_tasks me) - (if owned owner me t then {t} else {})" using qs(2) by simp
  have d: "distinct ts" using Cons.prems(3) by simp
  from Cons.IH [OF q sub d] have IH: "queue_ok (remove_scheduled_loop owner ts ?me)" "same_but_queues ?me (remove_scheduled_loop owner ts ?me)"
      "tasks (remove_scheduled_loop owner ts ?me) = tasks me"
      "set (scheduled_tasks (remove_scheduled_loop owner ts ?me)) = set (scheduled_tasks ?me) - {t \<in> set ts. owned owner me t}"
      "pending ?me = pending (remove_scheduled_loop owner ts ?me) + image_mset (job_of \<circ> task_at me) (mset (filter (owned owner me) ts))"
    unfolding ta by blast+
  have r: "remove_scheduled_loop owner (t # ts) me = remove_scheduled_loop owner ts ?me" by simp
  have 1: "set (scheduled_tasks (remove_scheduled_loop owner ts ?me)) = set (scheduled_tasks me) - {u \<in> set (t # ts). owned owner me u}"
    unfolding IH(4) st by auto
  have 2: "pending me = pending (remove_scheduled_loop owner ts ?me) + image_mset (job_of \<circ> task_at me) (mset (filter (owned owner me) (t # ts)))"
    unfolding p IH(5) by simp
  show ?case unfolding r using IH(1,3) same_but_queues_trans [OF s IH(2)] 1 2 by blast
qed (simp add: same_but_queues_refl)

lemma cancel_tasks_ok:
  assumes "queue_ok me"
  shows "queue_ok (cancel_tasks owner me)" "same_but_queues me (cancel_tasks owner me)"
    "set (tasks (cancel_tasks owner me)) = {t \<in> set (tasks me). \<not> owned owner me t}"
    "set (scheduled_tasks (cancel_tasks owner me)) = {t \<in> set (scheduled_tasks me). \<not> owned owner me t}"
    "pending me = pending (cancel_tasks owner me) + mset (map (job_of \<circ> task_at me) (filter (owned owner me) (tasks me @ scheduled_tasks me)))"
proof -
  note q = queue_okD [OF assms]
  let ?m1 = "remove_tasks_loop owner (tasks me) me"
  have e1: "(if task_cnt me > 0 then remove_tasks owner me else me) = ?m1" using q(7) by (cases "tasks me") (auto simp: remove_tasks_def)
  note 1 = remove_tasks_loop_ok [OF assms subset_refl q(1), of owner]
  have ta: "task_at ?m1 = task_at me" using 1 same_but_queuesD(2) by blast
  let ?m2 = "remove_scheduled_loop owner (scheduled_tasks ?m1) ?m1"
  have e2: "cancel_tasks owner me = ?m2"
    using queue_okD(8) [of ?m1] 1 unfolding cancel_tasks_def e1 Let_def by (cases "scheduled_tasks ?m1") (auto simp: remove_scheduled_tasks_def)
  have 2: "queue_ok ?m2 \<and> same_but_queues ?m1 ?m2 \<and> tasks ?m2 = tasks ?m1
      \<and> set (scheduled_tasks ?m2) = set (scheduled_tasks ?m1) - {t \<in> set (scheduled_tasks ?m1). owned owner ?m1 t}
      \<and> pending ?m1 = pending ?m2 + image_mset (job_of \<circ> task_at ?m1) (mset (filter (owned owner ?m1) (scheduled_tasks ?m1)))"
    using 1 queue_okD(2) [of ?m1] by (intro remove_scheduled_loop_ok) auto
  show "queue_ok (cancel_tasks owner me)" "same_but_queues me (cancel_tasks owner me)"
    unfolding e2 using 1 2 same_but_queues_trans by blast+
  show "set (tasks (cancel_tasks owner me)) = {t \<in> set (tasks me). \<not> owned owner me t}" unfolding e2 using 1 2 by auto
  show "set (scheduled_tasks (cancel_tasks owner me)) = {t \<in> set (scheduled_tasks me). \<not> owned owner me t}" unfolding e2 using 1 2 by (auto simp: ta)
  have p1: "pending me = pending ?m1 + image_mset (job_of \<circ> task_at me) (mset (filter (owned owner me) (tasks me)))" using 1 by blast
  have p2: "pending ?m1 = pending ?m2 + image_mset (job_of \<circ> task_at me) (mset (filter (owned owner me) (scheduled_tasks me)))"
    using 1 2 by (simp add: ta)
  show "pending me = pending (cancel_tasks owner me) + mset (map (job_of \<circ> task_at me) (filter (owned owner me) (tasks me @ scheduled_tasks me)))"
    unfolding e2 p1 p2 by simp
qed

section \<open>Reachable states\<close>

definition alive :: "(nat \<Rightarrow> thread_pc) \<Rightarrow> nat set" where
  "alive f = {t. f t \<noteq> T_none \<and> f t \<noteq> T_exited}"

text \<open>While a task waits in the priority queue and a thread waits for the condition, another is on its way.\<close>

definition wake_ok :: "pool_sys \<Rightarrow> bool" where
  "wake_ok s \<longleftrightarrow> (\<not> terminated (pool s) \<and> tasks (pool s) \<noteq> [] \<and> (\<exists>t e. thr s t = T_wait e)
     \<longrightarrow> (\<exists>t e k. thr s t = T_woken e \<or> thr s t = T_run e k))"

definition pool_inv :: "pool_sys \<Rightarrow> bool" where
  "pool_inv s \<longleftrightarrow> queue_ok (pool s) \<and> runs_ok (pool s) (run_of \<circ> thr s) \<and> elts_ok (pool s) (role_of \<circ> thr s)
     \<and> finite (alive (thr s)) \<and> thd_cnt (pool s) = int (card (alive (thr s))) \<and> wake_ok s"

lemma comp_upd: "f \<circ> g(t := x) = (f \<circ> g)(t := f x)"
  by auto

lemma alive_upd:
  assumes "finite (alive f)" "t \<in> alive f"
  shows "finite (alive (f(t := x)))" "x \<noteq> T_none \<Longrightarrow> int (card (alive (f(t := x)))) = int (card (alive f)) - (if x = T_exited then 1 else 0)"
proof -
  have a: "alive (f(t := x)) = (if x = T_none \<or> x = T_exited then alive f - {t} else alive f)" using assms(2) by (auto simp: alive_def)
  show "finite (alive (f(t := x)))" using a assms(1) by simp
  have "card (alive f) > 0" using assms card_gt_0_iff by blast
  then show "int (card (alive (f(t := x)))) = int (card (alive f)) - (if x = T_exited then 1 else 0)" if "x \<noteq> T_none"
    using that assms by (auto simp: a of_nat_diff)
qed

text \<open>A critical section of a thread keeps the invariant.\<close>

lemma section_inv:
  assumes "pool_inv s" "t \<in> alive (thr s)" "section_ok t e (pool s) ((run_of \<circ> thr s)(t := x)) (role_of \<circ> thr s) nx me"
  shows "pool_inv (s\<lparr>pool := me, thr := (thr s)(t := pc_after e nx)\<rparr>)" "pending (pool s) = pending me + out_jobs (event_of me nx)"
proof -
  let ?f = "(thr s)(t := pc_after e nx)"
  note sec = assms(3) [unfolded section_ok_def]
  have n: "pc_after e nx \<noteq> T_none" by (cases nx) auto
  have f: "finite (alive (thr s))" "thd_cnt (pool s) = int (card (alive (thr s)))" using assms(1) by (auto simp: pool_inv_def)
  have "wake_ok (s\<lparr>pool := me, thr := ?f\<rparr>)"
  proof (cases "\<exists>k. nx = Run k")
    case True
    then obtain k where "?f t = T_run e k" by auto
    then show ?thesis by (auto simp: wake_ok_def)
  next
    case False
    then show ?thesis using sec by (auto simp: wake_ok_def)
  qed
  then show "pool_inv (s\<lparr>pool := me, thr := ?f\<rparr>)"
    using sec f alive_upd [OF f(1) assms(2), of "pc_after e nx"] n by (simp add: pool_inv_def comp_upd)
  show "pending (pool s) = pending me + out_jobs (event_of me nx)" using sec by simp
qed

lemma pool_invD:
  assumes "pool_inv s"
  shows "queue_ok (pool s)" "runs_ok (pool s) (run_of \<circ> thr s)" "elts_ok (pool s) (role_of \<circ> thr s)"
    "finite (alive (thr s))" "thd_cnt (pool s) = int (card (alive (thr s)))" "wake_ok s"
  using assms by (auto simp: pool_inv_def)

text \<open>A signal changes no role, and wakes a thread if one waits.\<close>

lemma signalled_ok:
  assumes "signalled f g"
  shows "role_of \<circ> g = role_of \<circ> f" "run_of \<circ> g = run_of \<circ> f" "alive g = alive f" "g t = T_wait e \<Longrightarrow> \<exists>t e. g t = T_woken e"
  using assms by (cases rule: signalled.cases; auto simp: alive_def fun_eq_iff)+

lemma start_threads_ok:
  assumes "f n = T_none" "finite (alive f)"
  shows "role_of \<circ> start_threads b n f = role_of \<circ> f" "run_of \<circ> start_threads b n f = run_of \<circ> f" "finite (alive (start_threads b n f))"
    "int (card (alive (start_threads b n f))) = int (card (alive f)) + (if b then 1 else 0)"
proof -
  have a: "alive (start_threads True n f) = insert n (alive f)" "n \<notin> alive f" using assms(1) by (auto simp: start_threads_def alive_def)
  show "role_of \<circ> start_threads b n f = role_of \<circ> f" "run_of \<circ> start_threads b n f = run_of \<circ> f" using assms(1) by (auto simp: start_threads_def)
  show "finite (alive (start_threads b n f))" using a assms(2) by (cases b) (auto simp: start_threads_def)
  show "int (card (alive (start_threads b n f))) = int (card (alive f)) + (if b then 1 else 0)"
    using a assms(2) by (cases b) (auto simp: start_threads_def)
qed

lemma added_inv:
  assumes "pool_inv s" "thr s n = T_none" "added_ok (pool s) (run_of \<circ> thr s) j started me" "signalled (start_threads started n (thr s)) f"
  shows "pool_inv (s\<lparr>pool := me, thr := f\<rparr>)" "pending me = add_mset j (pending (pool s))"
proof -
  note i = pool_invD [OF assms(1)] and g = signalled_ok [OF assms(4)]
  note st = start_threads_ok [OF assms(2) i(4), of started]
  note a = assms(3) [unfolded added_ok_def]
  have "elts_ok me (role_of \<circ> f)" unfolding g(1) st(1) using a same_threads_ok i(3) by blast
  moreover have "runs_ok me (run_of \<circ> f)" unfolding g(2) st(2) using a by blast
  moreover have "wake_ok (s\<lparr>pool := me, thr := f\<rparr>)" using g(4) by (simp add: wake_ok_def) blast
  ultimately show "pool_inv (s\<lparr>pool := me, thr := f\<rparr>)" using a i(5) g(3) st(3,4) by (simp add: pool_inv_def)
  show "pending me = add_mset j (pending (pool s))" using a by blast
qed

lemma broadcast_ok:
  "role_of \<circ> broadcast f = role_of \<circ> f" "run_of \<circ> broadcast f = run_of \<circ> f" "alive (broadcast f) = alive f" "broadcast f t \<noteq> T_wait e"
proof -
  have r: "role_of (broadcast f t) = role_of (f t)" "run_of (broadcast f t) = run_of (f t)"
    "broadcast f t = T_none \<longleftrightarrow> f t = T_none" "broadcast f t = T_exited \<longleftrightarrow> f t = T_exited" "broadcast f t \<noteq> T_wait e" for t e
    by (cases "f t"; simp add: broadcast_def)+
  show "role_of \<circ> broadcast f = role_of \<circ> f" "run_of \<circ> broadcast f = run_of \<circ> f" "alive (broadcast f) = alive f" "broadcast f t \<noteq> T_wait e"
    by (auto simp: r alive_def)
qed

lemma pool_inv_cong:
  assumes "pool_inv s" "same_queues (pool s) me" "same_threads (pool s) me" "thd_cnt me = thd_cnt (pool s)"
  shows "pool_inv (s\<lparr>pool := me\<rparr>)"
  using assms same_queues_ok [OF assms(2)] same_threads_ok [OF assms(3)] pool_invD [OF assms(1)]
  by (simp add: pool_inv_def wake_ok_def same_threads_def)

fun in_jobs :: "event \<Rightarrow> job multiset" where
  "in_jobs (Submit j) = {#j#}"
| "in_jobs _ = {#}"

text \<open>Every step keeps the invariant and accounts for the jobs.\<close>

definition step_ok :: "pool_sys \<Rightarrow> event \<Rightarrow> pool_sys \<Rightarrow> bool" where
  "step_ok s ev s' \<longleftrightarrow> pool_inv s' \<and> pending (pool s) + in_jobs ev = pending (pool s') + out_jobs ev"

lemma event_of_in [simp]: "in_jobs (event_of me nx) = {#}"
  by (cases "(me, nx)" rule: event_of.cases) auto

lemma thread_section:
  assumes "pool_inv s"
  shows "thr s t = T_woken e \<Longrightarrow> \<exists>nx me. thread_loop now now' e (pool s) = Some (nx, me)
      \<and> section_ok t e (pool s) ((run_of \<circ> thr s)(t := None)) (role_of \<circ> thr s) nx me"
    "thr s t = T_run e k \<Longrightarrow> \<exists>nx me. task_ended now now' e k (pool s) = Some (nx, me)
      \<and> section_ok t e (pool s) ((run_of \<circ> thr s)(t := Some k)) (role_of \<circ> thr s) nx me"
    "thr s t = T_start \<Longrightarrow> (\<And>a. alloc = Some a \<Longrightarrow> a \<notin> used_elts s) \<Longrightarrow> elt_new alloc t (pool s) = (Some e, me1) \<Longrightarrow>
      \<exists>nx me. thread_start alloc now now' t (pool s) = (Some e, Some (nx, me))
      \<and> section_ok t e (pool s) ((run_of \<circ> thr s)(t := None)) (role_of \<circ> thr s) nx me"
proof -
  note i = pool_invD [OF assms]
  { assume "thr s t = T_woken e"
    moreover from this have "(run_of \<circ> thr s)(t := None) = run_of \<circ> thr s" by auto
    ultimately show "\<exists>nx me. thread_loop now now' e (pool s) = Some (nx, me)
      \<and> section_ok t e (pool s) ((run_of \<circ> thr s)(t := None)) (role_of \<circ> thr s) nx me"
      using thread_loop_ok [OF i(1,2) _ i(3), of t e now now'] by simp }
  { assume "thr s t = T_run e k"
    moreover from this have "(run_of \<circ> thr s)(t := Some k) = run_of \<circ> thr s" by auto
    ultimately show "\<exists>nx me. task_ended now now' e k (pool s) = Some (nx, me)
      \<and> section_ok t e (pool s) ((run_of \<circ> thr s)(t := Some k)) (role_of \<circ> thr s) nx me"
      using task_ended_ok [OF i(1,2) _ i(3), of t k e now now'] by simp }
  { assume a: "thr s t = T_start" "\<And>a. alloc = Some a \<Longrightarrow> a \<notin> used_elts s" "elt_new alloc t (pool s) = (Some e, me1)"
    then have "(run_of \<circ> thr s)(t := None) = run_of \<circ> thr s" by auto
    moreover have "a \<notin> set (recycled_thds (pool s)) \<and> a \<notin> set (idle_thds (pool s)) \<and> (\<forall>t r. (role_of \<circ> thr s) t = Some r \<longrightarrow> elt_of r \<noteq> a)"
      if "alloc = Some a" for a
    proof -
      have "elt_of r \<noteq> a" if "role_of (thr s t) = Some r" for t r
        using a(2) [OF \<open>alloc = Some a\<close>] that unfolding used_elts_def by (cases "thr s t") auto
      then show ?thesis using a(2) [OF that] by (auto simp: used_elts_def)
    qed
    ultimately show "\<exists>nx me. thread_start alloc now now' t (pool s) = (Some e, Some (nx, me))
      \<and> section_ok t e (pool s) ((run_of \<circ> thr s)(t := None)) (role_of \<circ> thr s) nx me"
      using thread_start_ok [OF i(1,2) _ i(3) _ _ a(3), of now now'] a(1) by simp }
qed

lemma section_step:
  assumes "pool_inv s" "t \<in> alive (thr s)" "section_ok t e (pool s) ((run_of \<circ> thr s)(t := x)) (role_of \<circ> thr s) nx me"
  shows "step_ok s (event_of me nx) (s\<lparr>pool := me, thr := (thr s)(t := pc_after e nx)\<rparr>)"
  using section_inv [OF assms] by (simp add: step_ok_def)

lemma fresh_task:
  assumes "\<And>a. alloc = Some a \<Longrightarrow> a \<notin> used_tasks s" "alloc = Some a"
  shows "a \<notin> set (tasks (pool s)) \<union> set (scheduled_tasks (pool s)) \<union> set (recycled_tasks (pool s)) \<and> (\<forall>t. (run_of \<circ> thr s) t \<noteq> Some a)"
proof -
  have "run_of (thr s t) \<noteq> Some a" for t using assms unfolding used_tasks_def by (cases "thr s t") auto
  then show ?thesis using assms by (auto simp: used_tasks_def)
qed

lemma quiet_cong:
  assumes "pool_inv s" "same_queues (pool s) me" "same_threads (pool s) me" "thd_cnt me = thd_cnt (pool s)"
  shows "step_ok s Quiet (s\<lparr>pool := me\<rparr>)"
  using pool_inv_cong [OF assms] same_queues_ok(3) [OF assms(2)] by (simp add: step_ok_def)

lemma pool_step_ok:
  assumes "pool_step s ev s'" "pool_inv s" shows "step_ok s ev s'"
  using assms
proof (induction rule: pool_step.induct)
  case (starts s t alloc now now' e nx me)
  then obtain me1 where "elt_new alloc t (pool s) = (Some e, me1)" by (auto simp: thread_start_def split: prod.splits option.splits)
  from thread_section(3) [OF starts(4,1,2) this, of now now'] starts(1,3,4) show ?case
    by (auto intro!: section_step simp: alive_def)
next
  case (fails s t now now' nx me)
  then have me: "me = pool s" by (auto simp: thread_start_def elt_new_def Let_def split: prod.splits option.splits if_splits)
  note i = pool_invD [OF fails(3)]
  have "t \<in> alive (thr s)" using fails(1) by (simp add: alive_def)
  note al = alive_upd [OF i(4) this, of T_failed]
  have w: "wake_ok (s\<lparr>thr := (thr s)(t := T_failed)\<rparr>)"
    using i(6) fails(1) unfolding wake_ok_def by (simp, metis thread_pc.distinct)
  have "pool_inv (s\<lparr>thr := (thr s)(t := T_failed)\<rparr>)"
    using i fails(1) al w by (simp add: pool_inv_def comp_upd fun_upd_idem)
  then show ?case by (simp add: step_ok_def me)
next
  case (goes_on s t e now now' nx me)
  from thread_section(1) [OF goes_on(3,1), of now now'] goes_on show ?case by (auto intro!: section_step simp: alive_def)
next
  case (ends s t e k now now' nx me)
  from thread_section(2) [OF ends(3,1), of now now'] ends show ?case by (auto intro!: section_step simp: alive_def)
next
  case (wakes s t e)
  note i = pool_invD [OF wakes(2)]
  have "t \<in> alive (thr s)" using wakes(1) by (simp add: alive_def)
  from alive_upd [OF i(4) this, of "T_woken e"] have "pool_inv (s\<lparr>thr := (thr s)(t := T_woken e)\<rparr>)"
    using i wakes(1) unfolding pool_inv_def wake_ok_def by (auto simp: comp_upd fun_upd_idem)
  then show ?case by (simp add: step_ok_def)
next
  case (adds alloc s n rv fn fl par priority push owner r started me f)
  note i = pool_invD [OF adds(5)]
  have fr: "a \<notin> set (tasks (pool s)) \<union> set (scheduled_tasks (pool s)) \<union> set (recycled_tasks (pool s)) \<and> (\<forall>t. (run_of \<circ> thr s) t \<noteq> Some a)"
    if "alloc = Some a" for a using adds(1) that by (rule fresh_task)
  have "added_ok (pool s) (run_of \<circ> thr s) (fn, fl, par, owner) started me"
    by (rule add_task_Added [OF i(1,2) fr adds(3)])
  from added_inv [OF adds(5,2) this adds(4)] show ?case by (simp add: step_ok_def)
next
  case (schedules alloc s n now beyond rv fn fl par owner time r started me f)
  note i = pool_invD [OF schedules(5)]
  have "a \<notin> set (tasks (pool s)) \<union> set (scheduled_tasks (pool s)) \<union> set (recycled_tasks (pool s)) \<and> (\<forall>t. (run_of \<circ> thr s) t \<noteq> Some a)"
    if "alloc = Some a" for a using schedules(1) that by (rule fresh_task)
  from schedule_task_ok(1) [OF i(1,2) this schedules(3)]
  have "added_ok (pool s) (run_of \<circ> thr s) (fn, fl, par, owner) started me" .
  from added_inv [OF schedules(5,2) this schedules(4)] show ?case by (simp add: step_ok_def)
next
  case (cancels s owner)
  note i = pool_invD [OF cancels]
  note c = cancel_tasks_ok [OF i(1), of owner]
  note f = same_but_queuesD [OF c(2)]
  have "elts_ok (cancel_tasks owner (pool s)) (role_of \<circ> thr s)" by (rule elts_ok_cong [OF i(3)]) (simp_all add: f)
  moreover have "runs_ok (cancel_tasks owner (pool s)) (run_of \<circ> thr s)" using i(2) c(3,4) f(1) unfolding runs_ok_def by auto
  moreover have "wake_ok (s\<lparr>pool := cancel_tasks owner (pool s)\<rparr>)" using i(6) c(3) f(9) by (cases "tasks (pool s)") (auto simp: wake_ok_def)
  ultimately have "pool_inv (s\<lparr>pool := cancel_tasks owner (pool s)\<rparr>)" using i c(1) f by (simp add: pool_inv_def)
  then show ?case using c(5) by (simp add: step_ok_def)
next
  case (trims cnt s me)
  note i = pool_invD [OF trims(2)]
  have me: "me = pool s" using trims(1) elts_okD(10) [OF i(3)]
    by (auto simp: trim_idle_threads_def trim_idle_def split: if_splits)
  have "wake_ok (s\<lparr>thr := broadcast (thr s)\<rparr>)" by (simp add: wake_ok_def broadcast_ok)
  then have "pool_inv (s\<lparr>thr := broadcast (thr s)\<rparr>)" using i by (simp add: pool_inv_def broadcast_ok)
  then show ?case by (simp add: step_ok_def me)
next
  case (terminates s)
  note i = pool_invD [OF terminates]
  have "pool_inv (s\<lparr>pool := (pool s)\<lparr>terminated := True\<rparr>\<rparr>)"
    using i by (simp add: pool_inv_def queue_ok_def runs_ok_def elts_ok_def wake_ok_def)
  then show ?case by (simp add: step_ok_def pending_def)
qed (auto intro!: quiet_cong simp: set_idle_wait_def set_threshold_def same_queues_def same_threads_def)

section \<open>Runs\<close>

lemma init_inv:
  assumes "thread_pool_construct rv_lock rv_cond mem_ok ts es i max_threads max_tasks = Inr me"
  shows "pool_inv (init_threadpool n me)" "pending (pool (init_threadpool n me)) = {#}" "\<not> terminated (pool (init_threadpool n me))"
proof -
  let ?s = "init_threadpool n me"
  have me: "tasks me = []" "scheduled_tasks me = []" "busy_thds me = []" "idle_thds me = []" "recycled_tasks me = []" "recycled_thds me = []"
      "thd_cnt me = 0" "idle_cnt me = 0" "task_cnt me = 0" "scheduled_task_cnt me = 0" "task_idx me = (\<lambda>_. None)" "\<not> terminated me"
    using assms by (auto simp: thread_pool_construct_def split: if_splits)
  have a: "alive (thr ?s) = {..<n}" by (auto simp: alive_def init_threadpool_def)
  have r: "(role_of \<circ> thr ?s) t = None" "(run_of \<circ> thr ?s) t = None" for t by (simp_all add: init_threadpool_def)
  have "elts_ok (pool ?s) (role_of \<circ> thr ?s)" unfolding elts_ok_def r by (simp add: init_threadpool_def me)
  moreover have "runs_ok (pool ?s) (run_of \<circ> thr ?s)" unfolding runs_ok_def r by simp
  moreover have "queue_ok (pool ?s)" by (simp add: queue_ok_def init_threadpool_def me)
  moreover have "wake_ok ?s" by (simp add: wake_ok_def init_threadpool_def me)
  moreover have "thd_cnt (pool ?s) = int n" by (simp add: init_threadpool_def me)
  ultimately show "pool_inv ?s" by (simp add: pool_inv_def a)
  show "pending (pool ?s) = {#}" "\<not> terminated (pool ?s)" by (simp_all add: pending_def init_threadpool_def me)
qed

lemma run_ok:
  assumes "pool_run s es s'" "pool_inv s"
  shows "pool_inv s'" "pending (pool s) + sum_list (map in_jobs es) = pending (pool s') + sum_list (map out_jobs es)"
proof -
  have "pool_inv s' \<and> pending (pool s) + sum_list (map in_jobs es) = pending (pool s') + sum_list (map out_jobs es)"
    using assms
  proof (induction rule: pool_run.induct)
    case (step s es s' e s'')
    then have IH: "pool_inv s'" "pending (pool s) + sum_list (map in_jobs es) = pending (pool s') + sum_list (map out_jobs es)" by auto
    have st: "pool_inv s''" "pending (pool s') + in_jobs e = pending (pool s'') + out_jobs e"
      using pool_step_ok [OF step(2) IH(1)] by (auto simp: step_ok_def)
    have "pending (pool s) + sum_list (map in_jobs (es @ [e])) = (pending (pool s') + in_jobs e) + sum_list (map out_jobs es)"
      using IH(2) by (simp add: ac_simps)
    then show ?case using st by (simp add: ac_simps)
  qed simp
  then show "pool_inv s'" "pending (pool s) + sum_list (map in_jobs es) = pending (pool s') + sum_list (map out_jobs es)" by blast+
qed

lemma section_terminated:
  "section_ok t e me rn rl nx me' \<Longrightarrow> terminated me' = terminated me"
  "section_ok t e me rn rl nx me' \<Longrightarrow> event_of me' nx = Drop j \<Longrightarrow> terminated me"
  unfolding section_ok_def by blast+

lemma step_terminated:
  assumes "pool_step s ev s'" "pool_inv s" "terminated (pool s) \<or> ev = Drop j" shows "terminated (pool s')"
  using assms
proof (induction rule: pool_step.induct)
  case (starts s t alloc now now' e nx me)
  then obtain me1 where "elt_new alloc t (pool s) = (Some e, me1)" by (auto simp: thread_start_def split: prod.splits option.splits)
  from thread_section(3) [OF starts(4,1,2) this, of now now'] obtain nx' me' where
    n: "thread_start alloc now now' t (pool s) = (Some e, Some (nx', me'))"
      "section_ok t e (pool s) ((run_of \<circ> thr s)(t := None)) (role_of \<circ> thr s) nx' me'" by blast
  have "nx' = nx" "me' = me" using n(1) starts(3) by auto
  then have "terminated me" using section_terminated [OF n(2)] starts(5) by blast
  then show ?case by simp
next
  case (fails s t now now' nx me)
  then have "me = pool s" by (auto simp: thread_start_def elt_new_def Let_def split: prod.splits option.splits if_splits)
  then show ?case using fails by simp
next
  case (goes_on s t e now now' nx me)
  from thread_section(1) [OF goes_on(3,1), of now now'] obtain nx' me' where
    n: "thread_loop now now' e (pool s) = Some (nx', me')"
      "section_ok t e (pool s) ((run_of \<circ> thr s)(t := None)) (role_of \<circ> thr s) nx' me'" by blast
  have "nx' = nx" "me' = me" using n(1) goes_on(2) by auto
  then have "terminated me" using section_terminated [OF n(2)] goes_on(4) by blast
  then show ?case by simp
next
  case (ends s t e k now now' nx me)
  from thread_section(2) [OF ends(3,1), of now now'] obtain nx' me' where
    n: "task_ended now now' e k (pool s) = Some (nx', me')"
      "section_ok t e (pool s) ((run_of \<circ> thr s)(t := Some k)) (role_of \<circ> thr s) nx' me'" by blast
  have "nx' = nx" "me' = me" using n(1) ends(2) by auto
  then have "terminated me" using section_terminated [OF n(2)] ends(4) by blast
  then show ?case by simp
next
  case (adds alloc s n rv fn fl par priority push owner r started me f)
  note i = pool_invD [OF adds(5)]
  have fr: "a \<notin> set (tasks (pool s)) \<union> set (scheduled_tasks (pool s)) \<union> set (recycled_tasks (pool s)) \<and> (\<forall>t. (run_of \<circ> thr s) t \<noteq> Some a)"
    if "alloc = Some a" for a using adds(1) that by (rule fresh_task)
  show ?case using add_task_Added [OF i(1,2) fr adds(3)] adds(6) by (auto simp: added_ok_def same_threads_def)
next
  case (schedules alloc s n now beyond rv fn fl par owner time r started me f)
  note i = pool_invD [OF schedules(5)]
  have fr: "a \<notin> set (tasks (pool s)) \<union> set (scheduled_tasks (pool s)) \<union> set (recycled_tasks (pool s)) \<and> (\<forall>t. (run_of \<circ> thr s) t \<noteq> Some a)"
    if "alloc = Some a" for a using schedules(1) that by (rule fresh_task)
  show ?case using schedule_task_ok(1) [OF i(1,2) fr schedules(3)] schedules(6) by (auto simp: added_ok_def same_threads_def)
next
  case (cancels s owner)
  then show ?case using same_but_queuesD(9) [OF cancel_tasks_ok(2) [OF pool_invD(1) [OF cancels(1)]]] by simp
next
  case (trims cnt s me)
  then show ?case by (auto simp: trim_idle_threads_def trim_idle_def split: if_splits)
qed (auto simp: set_idle_wait_def set_threshold_def)

lemma run_drop:
  assumes "pool_run s es s'" "pool_inv s" "terminated (pool s) \<or> Drop j \<in> set es" shows "terminated (pool s')"
  using assms
proof (induction rule: pool_run.induct)
  case (step s es s' e s'')
  then show ?case using step_terminated [OF step(2) run_ok(1) [OF step(1,4)], of j] by auto
qed simp

end
