(* ===== verification/Threadpool_Order.thy ===== *)
theory Threadpool_Order
  imports Threadpool_Inv
begin

text \<open>
  The order of the tasks in the priority queue of \<^verbatim>\<open>public/thread/base_threadpool.c\<close>: an exact index, where a
  task is inserted while the index is exact, and which operations keep it exact.
\<close>

section \<open>The order of the priorities\<close>

abbreviation prio :: "base_threadpool \<Rightarrow> nat \<Rightarrow> int" where
  "prio me t \<equiv> dispatch_priority (task_at me t)"

abbreviation seg_of :: "base_threadpool \<Rightarrow> nat \<Rightarrow> nat" where
  "seg_of me t \<equiv> TASK_PRIORITY_SEG (task_at me t)"

text \<open>
  The order that the index is meant to keep: priorities are in the documented range and do not
  increase along the queue, and an entry of the index is the first task of its segment.
\<close>

definition exact :: "base_threadpool \<Rightarrow> bool" where
  "exact me \<longleftrightarrow> (\<forall>t\<in>set (tasks me). 0 \<le> prio me t \<and> prio me t \<le> 255)
     \<and> sorted_wrt (\<lambda>t u. prio me t \<ge> prio me u) (tasks me)
     \<and> (\<forall>seg. task_idx me seg = ring_first (filter (\<lambda>t. seg_of me t = seg) (tasks me)))"

lemma seg_priority:
  assumes "0 \<le> dispatch_priority t" "dispatch_priority t \<le> 255"
  shows "int (TASK_PRIORITY_SEG t) = dispatch_priority t div 64"
proof -
  let ?w = "ucast (dispatch t) :: u32"
  have s: "0 \<le> sint ?w" "sint ?w \<le> 255" using assms by (simp_all add: dispatch_priority_def)
  have "uint ?w = sint ?w mod 2 ^ 32" by (simp add: uint_sint take_bit_eq_mod)
  then have "uint ?w = sint ?w" using s by simp
  then have u: "int (unat ?w) = sint ?w" by simp
  have "unat (?w AND 0xFF) = unat ?w mod 256" using unat_and_mask [of ?w 8] by (simp add: mask_eq_exp_minus_1)
  also have "\<dots> = unat ?w" using u s(2) by (intro mod_less) linarith
  finally show ?thesis using u by (simp add: TASK_PRIORITY_SEG_def dispatch_priority_def zdiv_int)
qed


lemma exactD:
  assumes "exact me"
  shows "t \<in> set (tasks me) \<Longrightarrow> 0 \<le> prio me t" "t \<in> set (tasks me) \<Longrightarrow> prio me t \<le> 255"
    "sorted_wrt (\<lambda>t u. prio me t \<ge> prio me u) (tasks me)" "task_idx me seg = ring_first (filter (\<lambda>t. seg_of me t = seg) (tasks me))"
  using assms by (auto simp: exact_def)

lemma seg_mono:
  assumes "0 \<le> dispatch_priority t" "dispatch_priority t \<le> 255" "0 \<le> dispatch_priority u" "dispatch_priority u \<le> 255"
  shows "dispatch_priority t \<le> dispatch_priority u \<Longrightarrow> TASK_PRIORITY_SEG t \<le> TASK_PRIORITY_SEG u"
    "TASK_PRIORITY_SEG t < TASK_PRIORITY_SEG u \<Longrightarrow> dispatch_priority t < dispatch_priority u"
proof -
  have d: "int (TASK_PRIORITY_SEG t) = dispatch_priority t div 64" "int (TASK_PRIORITY_SEG u) = dispatch_priority u div 64"
    using seg_priority assms by simp_all
  show 1: "dispatch_priority t \<le> dispatch_priority u \<Longrightarrow> TASK_PRIORITY_SEG t \<le> TASK_PRIORITY_SEG u"
    using d zdiv_mono1 [of "dispatch_priority t" "dispatch_priority u" 64] by linarith
  show "TASK_PRIORITY_SEG t < TASK_PRIORITY_SEG u \<Longrightarrow> dispatch_priority t < dispatch_priority u"
    using d zdiv_mono1 [of "dispatch_priority u" "dispatch_priority t" 64] by linarith
qed

lemma sorted_segs:
  assumes "exact me" shows "sorted_wrt (\<lambda>t u. seg_of me t \<ge> seg_of me u) (tasks me)"
  by (rule sorted_wrt_mono_rel [OF _ exactD(3) [OF assms]]) (use exactD(1,2) [OF assms] seg_mono(1) in auto)

lemma first_of_segment:
  assumes "sorted_wrt (\<lambda>t u. g t \<ge> g u) xs" "\<exists>t\<in>set xs. g t = (n :: nat)"
  shows "ring_first (filter (\<lambda>t. g t = n) xs) = ring_first (dropWhile (\<lambda>u. g u > n) xs)"
  using assms
proof (induction xs)
  case (Cons x xs)
  show ?case
  proof (cases "g x > n")
    case True
    then show ?thesis using Cons by auto
  next
    case False
    then have "g x = n" using Cons.prems by fastforce
    then show ?thesis by (simp add: ring_first_def)
  qed
qed simp

lemma lower_idx_first:
  assumes "exact me" shows "lower_idx n me = ring_first (dropWhile (\<lambda>u. seg_of me u \<ge> n) (tasks me))"
proof (induction n)
  case 0
  have d: "dropWhile (\<lambda>u. True) xs = []" for xs :: "nat list" by (induction xs) auto
  show ?case by (simp add: ring_first_def d)
next
  case (Suc n)
  show ?case
  proof (cases "\<exists>t\<in>set (tasks me). seg_of me t = n")
    case True
    have "task_idx me n = ring_first (dropWhile (\<lambda>u. seg_of me u > n) (tasks me))"
      using first_of_segment [OF sorted_segs [OF assms] True] exactD(4) [OF assms] by simp
    moreover have "task_idx me n \<noteq> None" using True exactD(4) [OF assms, of n]
      by (cases "filter (\<lambda>t. seg_of me t = n) (tasks me)") (auto simp: ring_first_def filter_empty_conv)
    ultimately show ?thesis by (simp add: Suc_le_eq)
  next
    case False
    then have "filter (\<lambda>t. seg_of me t = n) (tasks me) = []" by (simp add: filter_empty_conv)
    then have "task_idx me n = None" using exactD(4) [OF assms, of n] by (simp add: ring_first_def)
    moreover have "dropWhile (\<lambda>u. seg_of me u \<ge> Suc n) (tasks me) = dropWhile (\<lambda>u. seg_of me u \<ge> n) (tasks me)"
      by (rule dropWhile_cong) (use False in \<open>auto simp: Suc_le_eq order_less_le\<close>)
    ultimately show ?thesis using Suc by simp
  qed
qed

lemma dropWhile_twice: "(\<And>x. x \<in> set xs \<Longrightarrow> P x \<Longrightarrow> Q x) \<Longrightarrow> dropWhile Q (dropWhile P xs) = dropWhile Q xs"
  by (induction xs) auto

lemma ring_from_first:
  assumes "distinct xs" "ring_first (dropWhile P xs) = Some u" shows "ring_from u xs = dropWhile P xs"
proof -
  obtain us where us: "dropWhile P xs = u # us" using assms(2) by (cases "dropWhile P xs") (auto simp: ring_first_def)
  have xs: "xs = takeWhile P xs @ u # us" using takeWhile_dropWhile_id [of P xs] us by simp
  then have "u \<notin> set (takeWhile P xs)" using assms(1) by (metis distinct_append disjoint_iff list.set_intros(1))
  then have "dropWhile (\<lambda>y. y \<noteq> u) (takeWhile P xs @ u # us) = u # us" by (auto simp: dropWhile_append)
  then have "dropWhile (\<lambda>y. y \<noteq> u) xs = u # us" using xs by simp
  then show ?thesis using us by (simp add: ring_from_def)
qed

text \<open>The tasks before which a task of priority \<open>pr\<close> does not go: those of the same priority count for \<open>push\<close> only.\<close>

definition goes_behind :: "base_threadpool \<Rightarrow> bool \<Rightarrow> int \<Rightarrow> nat \<Rightarrow> bool" where
  "goes_behind me push pr u \<longleftrightarrow> (if push then prio me u \<ge> pr else prio me u > pr)"

lemma sorted_insert_place:
  assumes "sorted_wrt (\<lambda>t u. prio me t \<ge> prio me u) xs"
  shows "sorted_wrt (\<lambda>t u. prio me t \<ge> prio me u)
    (takeWhile (goes_behind me push (prio me t)) xs @ t # dropWhile (goes_behind me push (prio me t)) xs)"
  using assms
proof (induction xs)
  case (Cons x xs)
  let ?P = "goes_behind me push (prio me t)"
  show ?case
  proof (cases "?P x")
    case True
    then have "prio me x \<ge> prio me t" by (auto simp: goes_behind_def split: if_splits)
    then have "\<forall>y\<in>set (takeWhile ?P xs @ t # dropWhile ?P xs). prio me x \<ge> prio me y"
      using Cons.prems by (auto dest: set_takeWhileD set_dropWhileD)
    then show ?thesis using Cons True by simp
  next
    case False
    then show ?thesis using Cons.prems by (fastforce simp: goes_behind_def split: if_splits)
  qed
qed simp

lemma dropWhile_low:
  assumes "sorted_wrt (\<lambda>t u. prio me t \<ge> prio me u) xs" "u \<in> set (dropWhile (goes_behind me push pr) xs)"
  shows "\<not> goes_behind me push pr u"
  using assms
proof (induction xs)
  case (Cons x xs)
  show ?case
  proof (cases "goes_behind me push pr x")
    case False
    have "prio me u \<le> prio me x" using Cons.prems False by auto
    then show ?thesis using False by (auto simp: goes_behind_def split: if_splits)
  qed (use Cons in auto)
qed simp

text \<open>Where \<open>add_task\<close> puts a task when the index is exact.\<close>

lemma place_task_exact:
  assumes "queue_ok me" "exact me" "t \<notin> set (tasks me)" "0 \<le> prio me t" "prio me t \<le> 255"
  shows "\<exists>idx. place_task t push me = Some (me\<lparr>tasks := takeWhile (goes_behind me push (prio me t)) (tasks me) @ t # dropWhile (goes_behind me push (prio me t)) (tasks me),
      task_idx := idx\<rparr>)
    \<and> (\<forall>seg. seg \<noteq> seg_of me t \<longrightarrow> idx seg = task_idx me seg)
    \<and> idx (seg_of me t) = (case task_idx me (seg_of me t) of None \<Rightarrow> Some t
        | Some i \<Rightarrow> if \<not> push \<and> prio me i \<le> prio me t then Some t else Some i)"
proof -
  let ?seg = "seg_of me t" and ?pr = "prio me t" and ?P = "goes_behind me push (prio me t)" and ?H = "\<lambda>u. prio me u > prio me t"
  note q = queue_okD [OF assms(1)] and e = exactD [OF assms(2)]
  show ?thesis
  proof (cases "task_idx me ?seg")
    case None
    then have "filter (\<lambda>u. seg_of me u = ?seg) (tasks me) = []"
      using e(4) [of ?seg] by (cases "filter (\<lambda>u. seg_of me u = ?seg) (tasks me)") (auto simp: ring_first_def)
    then have ns: "seg_of me u \<noteq> ?seg" if "u \<in> set (tasks me)" for u using that by (auto simp: filter_empty_conv)
    have P: "?seg \<le> seg_of me u \<longleftrightarrow> ?P u" if "u \<in> set (tasks me)" for u
    proof -
      note b = e(1,2) [OF that]
      have "?seg < seg_of me u \<Longrightarrow> ?pr < prio me u" using seg_mono(2) assms(4,5) b by blast
      moreover have "?pr \<le> prio me u \<Longrightarrow> ?seg \<le> seg_of me u" using seg_mono(1) assms(4,5) b by blast
      ultimately show ?thesis using ns [OF that] by (auto simp: goes_behind_def)
    qed
    have "takeWhile (\<lambda>u. ?seg \<le> seg_of me u) (tasks me) = takeWhile ?P (tasks me)"
      "dropWhile (\<lambda>u. ?seg \<le> seg_of me u) (tasks me) = dropWhile ?P (tasks me)"
      by (rule takeWhile_cong dropWhile_cong; use P in auto)+
    then have "ring_insert_before (lower_idx ?seg me) t (tasks me) = takeWhile ?P (tasks me) @ t # dropWhile ?P (tasks me)"
      using lower_idx_first [OF assms(2), of ?seg] insert_first [OF q(1)] by simp
    moreover have "place_task t push me = Some (me\<lparr>tasks := ring_insert_before (lower_idx ?seg me) t (tasks me), task_idx := (task_idx me)(?seg := Some t)\<rparr>)"
      using None q(9) lower_idx_Some [of ?seg me]
      by (cases "lower_idx ?seg me") (auto simp: place_task_def add_if_empty_def Let_def ring_insert_before_def)
    ultimately show ?thesis using None by (intro exI [of _ "(task_idx me)(?seg := Some t)"]) simp
  next
    case (Some i)
    have i: "i \<in> set (tasks me)" "seg_of me i = ?seg" using q(9,10) Some by blast+
    have fst: "Some i = ring_first (dropWhile (\<lambda>u. seg_of me u > ?seg) (tasks me))"
      using first_of_segment [OF sorted_segs [OF assms(2)], of ?seg] i Some e(4) by auto
    have rf: "ring_from i (tasks me) = dropWhile (\<lambda>u. seg_of me u > ?seg) (tasks me)" using ring_from_first [OF q(1)] fst by metis
    have hi: "?H u" if "u \<in> set (tasks me)" "seg_of me u > ?seg" for u
      using seg_mono(2) assms(4,5) e(1,2) [OF that(1)] that(2) by blast
    then have dd: "dropWhile ?H (ring_from i (tasks me)) = dropWhile ?H (tasks me)"
      unfolding rf by (intro dropWhile_twice) blast
    then have l: "skip_higher me ?pr (ring_from i (tasks me)) = ring_first (dropWhile ?H (tasks me))" by (simp add: walks_first)
    obtain us where us: "ring_from i (tasks me) = i # us" using rf fst
      by (cases "dropWhile (\<lambda>u. seg_of me u > ?seg) (tasks me)") (auto simp: ring_first_def)
    have li: "ring_first (dropWhile ?H (tasks me)) = Some i \<longleftrightarrow> prio me i \<le> ?pr"
    proof
      assume "ring_first (dropWhile ?H (tasks me)) = Some i"
      then obtain vs where "dropWhile ?H (tasks me) = i # vs" by (cases "dropWhile ?H (tasks me)") (auto simp: ring_first_def)
      then show "prio me i \<le> ?pr" by (simp add: dropWhile_eq_Cons_conv)
    next
      assume "prio me i \<le> ?pr"
      then show "ring_first (dropWhile ?H (tasks me)) = Some i" unfolding dd [symmetric] us by (simp add: ring_first_def)
    qed
    show ?thesis
    proof (cases push)
      case False
      let ?idx = "if prio me i \<le> ?pr then (task_idx me)(?seg := Some t) else task_idx me"
      have P: "?P = ?H" using False by (auto simp: goes_behind_def)
      define loc where "loc = ring_first (dropWhile ?H (tasks me))"
      have "place_task t push me = Some (me\<lparr>tasks := ring_insert_before loc t (tasks me),
          task_idx := (if loc \<noteq> None \<and> loc = Some i then (task_idx me)(?seg := Some t) else task_idx me)\<rparr>)"
        using Some i(1) False l by (simp add: place_task_def add_if_empty_def Let_def loc_def)
      moreover have "(loc \<noteq> None \<and> loc = Some i) = (prio me i \<le> ?pr)" using li by (auto simp: loc_def)
      ultimately have "place_task t push me = Some (me\<lparr>tasks := ring_insert_before (ring_first (dropWhile ?H (tasks me))) t (tasks me), task_idx := ?idx\<rparr>)"
        by (simp only: loc_def)
      then have "place_task t push me = Some (me\<lparr>tasks := takeWhile ?P (tasks me) @ t # dropWhile ?P (tasks me), task_idx := ?idx\<rparr>)"
        unfolding P using insert_first [OF q(1), of ?H t] by simp
      moreover have "?idx ?seg = (if prio me i \<le> ?pr then Some t else Some i)" "seg \<noteq> ?seg \<Longrightarrow> ?idx seg = task_idx me seg" for seg
        using Some by simp_all
      ultimately show ?thesis unfolding Some using False by (intro exI [of _ ?idx]) simp
    next
      case True
      have P: "?P = (\<lambda>u. prio me u \<ge> ?pr)" using True by (auto simp: goes_behind_def)
      have fl: "from_loc (ring_first (dropWhile ?H (tasks me))) (tasks me) = dropWhile ?H (tasks me)"
        using ring_from_first [OF q(1), of ?H]
        by (cases "dropWhile ?H (tasks me)") (auto simp: from_loc_def ring_first_def simp del: dropWhile_eq_Nil_conv)
      have "skip_equal me ?pr (dropWhile ?H (tasks me)) = ring_first (dropWhile ?P (tasks me))"
        unfolding walks_first P by (subst dropWhile_twice) auto
      then have "place_task t push me = Some (me\<lparr>tasks := ring_insert_before (ring_first (dropWhile ?P (tasks me))) t (tasks me), task_idx := task_idx me\<rparr>)"
        using Some i(1) True l fl by (simp add: place_task_def add_if_empty_def Let_def)
      then show ?thesis using Some True insert_first [OF q(1), of ?P t] by (intro exI [of _ "task_idx me"]) auto
    qed
  qed
qed

lemma exact_place:
  assumes "queue_ok me" "exact me" "t \<notin> set (tasks me)" "0 \<le> prio me t" "prio me t \<le> 255"
    "\<And>i. push \<Longrightarrow> task_idx me (seg_of me t) = Some i \<Longrightarrow> prio me t \<le> prio me i"
  shows "\<exists>me'. place_task t push me = Some me' \<and> exact me' \<and> (\<exists>idx. me' = me\<lparr>tasks := takeWhile (goes_behind me push (prio me t)) (tasks me)
      @ t # dropWhile (goes_behind me push (prio me t)) (tasks me), task_idx := idx\<rparr>)"
proof -
  let ?P = "goes_behind me push (prio me t)" and ?seg = "seg_of me t"
  let ?xs = "takeWhile ?P (tasks me) @ t # dropWhile ?P (tasks me)"
  note e = exactD [OF assms(2)]
  obtain idx where p: "place_task t push me = Some (me\<lparr>tasks := ?xs, task_idx := idx\<rparr>)"
      "\<And>seg. seg \<noteq> ?seg \<Longrightarrow> idx seg = task_idx me seg"
      "idx ?seg = (case task_idx me ?seg of None \<Rightarrow> Some t | Some i \<Rightarrow> if \<not> push \<and> prio me i \<le> prio me t then Some t else Some i)"
    using place_task_exact [OF assms(1-5), of push] by blast
  have td: "takeWhile ?P (tasks me) @ dropWhile ?P (tasks me) = tasks me" by simp
  have set: "set ?xs = insert t (set (tasks me))" using set_append [of "takeWhile ?P (tasks me)" "dropWhile ?P (tasks me)"] unfolding td by auto
  have "idx seg = ring_first (filter (\<lambda>u. seg_of me u = seg) ?xs)" for seg
  proof (cases "seg = ?seg")
    case False
    let ?F = "\<lambda>xs. filter (\<lambda>u. seg_of me u = seg) xs"
    have "?F ?xs = ?F (takeWhile ?P (tasks me)) @ ?F (dropWhile ?P (tasks me))" using False by simp
    also have "\<dots> = ?F (tasks me)" using arg_cong [OF td, of ?F] by (simp only: filter_append)
    finally show ?thesis using p(2) [OF False] e(4) [of seg] by (simp only:)
  next
    case True
    let ?F = "\<lambda>xs. filter (\<lambda>u. seg_of me u = ?seg) xs"
    have f: "?F (tasks me) = ?F (takeWhile ?P (tasks me)) @ ?F (dropWhile ?P (tasks me))" using arg_cong [OF td, of ?F] by (simp only: filter_append)
    show ?thesis
    proof (cases "?F (takeWhile ?P (tasks me))")
      case Nil
      have "idx ?seg = Some t"
      proof (cases "task_idx me ?seg")
        case (Some j)
        then have "ring_first (?F (dropWhile ?P (tasks me))) = Some j" using e(4) [of ?seg] f Nil by simp
        then have j: "j \<in> set (dropWhile ?P (tasks me))" by (auto dest: ring_first_in)
        then have nj: "\<not> ?P j" by (rule dropWhile_low [OF e(3)])
        then have "\<not> push" using assms(6) [OF _ Some] by (auto simp: goes_behind_def)
        moreover have "prio me j \<le> prio me t" using nj by (auto simp: goes_behind_def split: if_splits)
        ultimately show ?thesis using p(3) Some by simp
      qed (use p(3) in simp)
      then show ?thesis using True Nil by (simp add: ring_first_def)
    next
      case (Cons j js)
      have "task_idx me ?seg = Some j" using e(4) [of ?seg] f Cons by (simp add: ring_first_def)
      moreover have "j \<in> set (takeWhile ?P (tasks me))" using arg_cong [OF Cons, of set] by auto
      then have "?P j" by (rule set_takeWhileD [THEN conjunct2])
      then have "push \<or> prio me j > prio me t" by (auto simp: goes_behind_def split: if_splits)
      ultimately have "idx ?seg = Some j" using p(3) by auto
      then show ?thesis using True Cons by (simp add: ring_first_def)
    qed
  qed
  then have "exact (me\<lparr>tasks := ?xs, task_idx := idx\<rparr>)"
    using sorted_insert_place [OF e(3), of push t] set e(1,2) assms(4,5) by (auto simp: exact_def goes_behind_def)
  then show ?thesis using p(1) by blast
qed

lemma exact_take:
  assumes "queue_ok me" "exact me" "t \<in> set (tasks me)"
  shows "exact (take_task t me)"
proof -
  note q = queue_okD [OF assms(1)] and e = exactD [OF assms(2)]
  obtain ys zs where s: "tasks me = ys @ t # zs" "t \<notin> set ys" using assms(3) split_list_first by fast
  have tz: "t \<notin> set zs" using q(1) s by simp
  have rm: "remove1 t (tasks me) = ys @ zs" using s by (simp add: remove1_append)
  have "sorted_wrt (\<lambda>t u. prio me t \<ge> prio me u) (ys @ zs)" using e(3) unfolding s(1) by (auto simp: sorted_wrt_append)
  moreover have "task_idx (take_task t me) seg = ring_first (filter (\<lambda>u. seg_of me u = seg) (ys @ zs))" for seg
  proof (cases "seg = seg_of me t \<and> task_idx me seg = Some t")
    case True
    let ?F = "\<lambda>xs. filter (\<lambda>u. seg_of me u = seg) xs"
    have "ring_first (?F ys @ t # ?F zs) = Some t" using e(4) [of seg] conjunct1 [OF True] conjunct2 [OF True] unfolding s(1) by simp
    then have "?F ys = [] \<or> t \<in> set (?F ys)" by (cases "?F ys") (simp_all add: ring_first_def del: set_filter)
    then have "?F ys = []" using s(2) by (simp add: filter_empty_conv)
    moreover have "idx_after t me = ring_first (?F zs)"
    proof (cases zs)
      case Nil
      then show ?thesis using s by (simp add: idx_after_def ring_next_split ring_first_def)
    next
      case (Cons u us)
      have le: "seg_of me v \<le> seg_of me u" if "v \<in> set zs" for v
        using sorted_segs [OF assms(2)] that unfolding s(1) Cons by (auto simp: sorted_wrt_append)
      have "seg_of me u \<le> seg" using sorted_segs [OF assms(2)] True unfolding s(1) Cons by (simp add: sorted_wrt_append)
      then have "?F zs = []" if "seg_of me u \<noteq> seg" using le that by (fastforce simp: filter_empty_conv)
      then show ?thesis using s True Cons by (auto simp: idx_after_def ring_next_split ring_first_def)
    qed
    ultimately show ?thesis using conjunct1 [OF True] conjunct2 [OF True] unfolding take_task_idx by simp
  next
    case False
    have "ring_first (filter (\<lambda>u. seg_of me u = seg) (ys @ t # zs)) = ring_first (filter (\<lambda>u. seg_of me u = seg) (ys @ zs))"
      if "seg_of me t = seg"
    proof -
      have "task_idx me seg \<noteq> Some t" using False that by simp
      then have "filter (\<lambda>u. seg_of me u = seg) ys \<noteq> []" using e(4) [of seg] that unfolding s(1) by (auto simp: ring_first_def)
      then show ?thesis using that by (cases "filter (\<lambda>u. seg_of me u = seg) ys") (auto simp: ring_first_def)
    qed
    then have "ring_first (filter (\<lambda>u. seg_of me u = seg) (ys @ t # zs)) = ring_first (filter (\<lambda>u. seg_of me u = seg) (ys @ zs))"
      by (cases "seg_of me t = seg") simp_all
    then show ?thesis using False e(4) [of seg] unfolding take_task_idx s(1) by auto
  qed
  moreover have "\<forall>u\<in>set (ys @ zs). 0 \<le> prio me u \<and> prio me u \<le> 255" using e(1,2) s(1) by auto
  ultimately show ?thesis unfolding exact_def take_task_sel rm by blast
qed

lemma exact_remove_loop:
  assumes "queue_ok me" "exact me" "distinct ts" "set ts \<subseteq> set (tasks me)"
  shows "exact (remove_tasks_loop owner ts me)"
  using assms
proof (induction ts arbitrary: me)
  case (Cons t ts)
  show ?case
  proof (cases "task_owner (task_at me t) = owner")
    case True
    have "set ts \<subseteq> set (tasks (take_task t me))" using Cons.prems queue_okD(1) [OF Cons.prems(1)] by auto
    then show ?thesis using True Cons.IH [of "take_task t me"] take_task_ok(1) [of me t] exact_take [of me t] Cons.prems by simp
  next
    case False
    then show ?thesis using Cons by simp
  qed
qed simp

lemma exact_cong:
  assumes "tasks me' = tasks me" "task_idx me' = task_idx me" "\<And>t. t \<in> set (tasks me) \<Longrightarrow> task_at me' t = task_at me t" "exact me"
  shows "exact me'"
proof -
  have "filter (\<lambda>t. seg_of me' t = seg) (tasks me) = filter (\<lambda>t. seg_of me t = seg) (tasks me)" for seg
    by (rule filter_cong) (simp_all add: assms(3))
  moreover have "sorted_wrt (\<lambda>t u. prio me' t \<ge> prio me' u) (tasks me)"
    by (rule sorted_wrt_mono_rel [OF _ exactD(3) [OF assms(4)]]) (simp add: assms(3))
  ultimately show ?thesis using assms by (simp add: exact_def)
qed

lemma remove_scheduled_loop_sel:
  "tasks (remove_scheduled_loop owner ts me) = tasks me" "task_idx (remove_scheduled_loop owner ts me) = task_idx me"
  "task_at (remove_scheduled_loop owner ts me) = task_at me"
  by (induction ts arbitrary: me) auto

lemma exact_cancel:
  assumes "queue_ok me" "exact me" shows "exact (cancel_tasks owner me)"
proof -
  have "exact (remove_tasks owner me)"
    using exact_remove_loop [OF assms queue_okD(1) [OF assms(1)]] by (simp add: remove_tasks_def)
  moreover have "exact (remove_scheduled_tasks owner m)" if "exact m" for m
    using exact_cong [OF _ _ _ that] by (simp add: remove_scheduled_tasks_def remove_scheduled_loop_sel)
  ultimately show ?thesis using assms(2) by (simp add: cancel_tasks_def Let_def)
qed

text \<open>The parts of the pool that \<open>task_new\<close> and \<open>add_task\<close> change, seen from the queue.\<close>

lemma set_dispatch_priority_sel [simp]: "dispatch_priority (set_dispatch_priority p t) = sint p"
proof -
  have m: "(0xFFFFFFFF00000000 :: u64) = push_bit 32 (mask 32)" by (simp add: mask_eq_exp_minus_1 push_bit_eq_mult)
  have "(ucast ((dispatch t AND 0xFFFFFFFF00000000) OR ucast p) :: u32) = p"
    unfolding m by (rule bit_eqI) (auto simp: bit_simps dest: bit_imp_le_length)
  then show ?thesis by (simp add: dispatch_priority_def set_dispatch_priority_def)
qed

lemma task_new_priority:
  assumes "task_new alloc now fn fl par priority owner 0 me = (Some t, me')"
  shows "prio me' t = sint priority"
  using assms by (auto simp: task_new_def Let_def split: option.splits)

text \<open>The segment of a priority.\<close>

lemma seg_of_priority:
  assumes "dispatch_priority x = sint priority" "0 \<le> sint priority" "sint priority \<le> 255"
  shows "TASK_PRIORITY_SEG x = nat (sint priority div 64)"
  using seg_priority [of x] assms by linarith

lemma add_task_exact:
  assumes "queue_ok me" "exact me" "\<And>a. alloc = Some a \<Longrightarrow> a \<notin> set (tasks me) \<union> set (scheduled_tasks me) \<union> set (recycled_tasks me)"
    "add_task alloc rv fn fl par priority push owner me = Some (Added r started, me')" "0 \<le> sint priority" "sint priority \<le> 255"
    "\<And>i. push \<Longrightarrow> task_idx me (nat (sint priority div 64)) = Some i \<Longrightarrow> sint priority \<le> prio me i"
  shows "exact me'" "\<exists>t. t \<notin> set (tasks me) \<and> job_of (task_at me' t) = (fn, fl, par, owner) \<and> prio me' t = sint priority
    \<and> tasks me' = takeWhile (goes_behind me push (sint priority)) (tasks me) @ t # dropWhile (goes_behind me push (sint priority)) (tasks me)"
proof -
  obtain t me1 where n: "task_new alloc 0 fn fl par priority owner 0 me = (Some t, me1)"
    using assms(4) by (auto simp: add_task_def split: if_splits prod.splits option.splits)
  note tn = task_new_ok [OF assms(1) n assms(3)]
  obtain x where x: "me1 = me\<lparr>recycled_tasks := remove1 t (recycled_tasks me), task_at := (task_at me)(t := x)\<rparr>" "job_of x = (fn, fl, par, owner)"
    using tn(1) by blast
  have px: "prio me1 t = sint priority" by (rule task_new_priority [OF n])
  have nt: "t \<notin> set (tasks me1)" "tasks me1 = tasks me" using tn(3) by (simp_all add: x)
  have at: "task_at me1 u = task_at me u" if "u \<in> set (tasks me)" for u using that nt by (auto simp: x)
  have e1: "exact me1" by (rule exact_cong [OF _ _ _ assms(2)]) (use at in \<open>simp_all add: x(1)\<close>)
  have sg: "seg_of me1 t = nat (sint priority div 64)" by (rule seg_of_priority [OF px assms(5,6)])
  have up: "prio me1 t \<le> prio me1 i" if "push" "task_idx me1 (seg_of me1 t) = Some i" for i
  proof -
    have i: "task_idx me (nat (sint priority div 64)) = Some i" using that(2) sg by (simp add: x)
    then show ?thesis using assms(7) [OF that(1) i] at [OF queue_okD(9) [OF assms(1) i]] px by simp
  qed
  let ?P = "goes_behind me1 push (sint priority)"
  have "\<exists>me2. place_task t push me1 = Some me2 \<and> exact me2 \<and> (\<exists>idx. me2 = me1\<lparr>tasks := takeWhile ?P (tasks me1)
      @ t # dropWhile ?P (tasks me1), task_idx := idx\<rparr>)"
    using exact_place [OF tn(4) e1 nt(1) _ _ up, of push] assms(5,6) unfolding px by blast
  then obtain me2 idx where p: "place_task t push me1 = Some me2" "exact me2"
      "me2 = me1\<lparr>tasks := takeWhile ?P (tasks me1) @ t # dropWhile ?P (tasks me1), task_idx := idx\<rparr>" by blast
  have g: "?P u = goes_behind me push (sint priority) u" if "u \<in> set (tasks me)" for u using at [OF that] by (simp add: goes_behind_def)
  have "takeWhile ?P (tasks me) = takeWhile (goes_behind me push (sint priority)) (tasks me)"
    "dropWhile ?P (tasks me) = dropWhile (goes_behind me push (sint priority)) (tasks me)"
    by (rule takeWhile_cong dropWhile_cong; use g in simp)+
  then have ts: "tasks me2 = takeWhile (goes_behind me push (sint priority)) (tasks me) @ t # dropWhile (goes_behind me push (sint priority)) (tasks me)"
    using nt(2) by (simp add: p(3))
  have m: "tasks me' = tasks me2" "task_idx me' = task_idx me2" "task_at me' = task_at me2"
    using assms(4) n p(1) by (auto simp: add_task_def count_thread_def Let_def split: if_splits)
  show "exact me'" by (rule exact_cong [OF m(1,2) _ p(2)]) (simp add: m)
  show "\<exists>t. t \<notin> set (tasks me) \<and> job_of (task_at me' t) = (fn, fl, par, owner) \<and> prio me' t = sint priority
    \<and> tasks me' = takeWhile (goes_behind me push (sint priority)) (tasks me) @ t # dropWhile (goes_behind me push (sint priority)) (tasks me)"
    using nt ts x(2) px by (intro exI [of _ t]) (simp add: m p(3) x(1))
qed

lemma pop_task_exact:
  assumes "queue_ok me" "exact me" "pop_task now me = Some (Some k, me')"
  shows "exact me'" "k \<in> set (scheduled_tasks me) \<or> tasks me = k # tasks me' \<and> (\<forall>u\<in>set (tasks me). prio me u \<le> prio me k)"
proof -
  consider (timed) "k \<in> set (scheduled_tasks me)" "tasks me' = tasks me" "task_idx me' = task_idx me" "task_at me' = task_at me"
    | (first) "ring_first (tasks me) = Some k" "me' = take_task k me"
    using assms(3) by (auto simp: pop_task_def Let_def dest: ring_first_in split: if_splits option.splits)
  then have "exact me' \<and> (k \<in> set (scheduled_tasks me) \<or> tasks me = k # tasks me' \<and> (\<forall>u\<in>set (tasks me). prio me u \<le> prio me k))"
  proof cases
    case timed
    then show ?thesis using exact_cong [OF _ _ _ assms(2)] by simp
  next
    case first
    then obtain ks where ks: "tasks me = k # ks" by (cases "tasks me") (auto simp: ring_first_def)
    then have "exact me'" using exact_take [OF assms(1,2), of k] first(2) by simp
    moreover have "\<forall>u\<in>set (tasks me). prio me u \<le> prio me k" using exactD(3) [OF assms(2)] unfolding ks by auto
    ultimately show ?thesis using ks first(2) by simp
  qed
  then show "exact me'" "k \<in> set (scheduled_tasks me) \<or> tasks me = k # tasks me' \<and> (\<forall>u\<in>set (tasks me). prio me u \<le> prio me k)" by blast+
qed

end
