(* ===== verification/Threadpool_Runs.thy ===== *)
theory Threadpool_Runs
  imports Threadpool_Order
begin

text \<open>
  Runs of the pool of \<^verbatim>\<open>public/thread/base_threadpool.c\<close>: progress of the threads that are awake, and the
  properties of the pool: its invariant, the account of the jobs, the wake-ups, the order of the
  priorities, and what goes wrong.
\<close>

section \<open>Progress\<close>

lemma run_Cons: "pool_run s' es s'' \<Longrightarrow> pool_step s e s' \<Longrightarrow> pool_run s (e # es) s''"
proof (induction rule: pool_run.induct)
  case (refl s')
  then show ?case using pool_run.step [OF pool_run.refl] by fastforce
next
  case (step s' es s1 e1 s2)
  then show ?case using pool_run.step [of s "e # es" s1 e1 s2] by simp
qed

text \<open>A thread that is awake takes a task in its next critical section while there is one.\<close>

lemma awake_takes:
  assumes "pool_inv s" "\<not> terminated (pool s)" "tasks (pool s) \<noteq> []"
  shows "thr s t = T_woken e \<Longrightarrow> \<exists>k me. thread_loop now now' e (pool s) = Some (Run k, me)"
    "thr s t = T_run e j \<Longrightarrow> \<exists>k me. task_ended now now' e j (pool s) = Some (Run k, me)"
  using thread_section(1) [OF assms(1), of t e now now'] thread_section(2) [OF assms(1), of t e j now now'] assms(2,3)
  unfolding section_ok_def by blast+

lemma awake_step:
  assumes "pool_inv s" "\<not> terminated (pool s)" "tasks (pool s) \<noteq> []" "thr s t = T_woken e \<or> thr s t = T_run e k"
  shows "\<exists>k' me j. pool_step s (Begin j) (s\<lparr>pool := me, thr := (thr s)(t := T_run e k')\<rparr>) \<and> \<not> terminated me"
proof -
  obtain k' me where c: "thread_loop 0 0 e (pool s) = Some (Run k', me) \<and> thr s t = T_woken e
      \<or> task_ended 0 0 e k (pool s) = Some (Run k', me) \<and> thr s t = T_run e k"
    using awake_takes [OF assms(1-3)] assms(4) by blast
  from c have st: "pool_step s (event_of me (Run k')) (s\<lparr>pool := me, thr := (thr s)(t := pc_after e (Run k'))\<rparr>)"
    using pool_step.goes_on [of s t e 0 0 "Run k'" me] pool_step.ends [of s t e k 0 0 "Run k'" me] by blast
  have "terminated me = terminated (pool s)"
  proof -
    note ts = thread_section(1) [OF assms(1), of t e 0 0] thread_section(2) [OF assms(1), of t e k 0 0]
    from c show ?thesis using ts section_terminated(1) by fastforce
  qed
  then have "\<not> terminated me" using assms(2) by simp
  moreover have "pool_step s (Begin (job_of (task_at me k'))) (s\<lparr>pool := me, thr := (thr s)(t := T_run e k')\<rparr>)" using st by simp
  ultimately show ?thesis by blast
qed

lemma drain:
  assumes "pool_inv s" "\<not> terminated (pool s)" "thr s t = T_woken e \<or> thr s t = T_run e k"
  shows "\<exists>es s'. pool_run s es s' \<and> tasks (pool s') = [] \<and> (\<forall>ev\<in>set es. \<exists>j. ev = Begin j)"
  using assms
proof (induction "size (pending (pool s))" arbitrary: s k rule: less_induct)
  case less
  show ?case
  proof (cases "tasks (pool s) = []")
    case True
    then show ?thesis using pool_run.refl [of s] by (intro exI [of _ "[]"] exI [of _ s]) simp
  next
    case False
    from awake_step [OF less(2,3) False less(4)] obtain k' me j where
      st: "pool_step s (Begin j) (s\<lparr>pool := me, thr := (thr s)(t := T_run e k')\<rparr>)" "\<not> terminated me" by blast
    let ?s = "s\<lparr>pool := me, thr := (thr s)(t := T_run e k')\<rparr>"
    have ok: "pool_inv ?s" "pending (pool s) = add_mset j (pending (pool ?s))"
      using pool_step_ok [OF st(1) less(2)] by (simp_all add: step_ok_def)
    have "size (pending (pool ?s)) < size (pending (pool s))" unfolding ok(2) by simp
    from less(1) [OF this ok(1), of k'] st(2) obtain es s' where
      r: "pool_run ?s es s'" "tasks (pool s') = []" "\<forall>ev\<in>set es. \<exists>j. ev = Begin j" by auto
    have "\<forall>ev\<in>set (Begin j # es). \<exists>j. ev = Begin j" unfolding list.set(2) using r(3) by blast
    then show ?thesis using run_Cons [OF r(1) st(1)] r(2) by blast
  qed
qed

lemma waiting_awake:
  assumes "pool_inv s" "\<not> terminated (pool s)" "tasks (pool s) \<noteq> []" "thr s t \<in> {T_wait e, T_woken e, T_run e k}"
  shows "\<exists>t e k. thr s t = T_woken e \<or> thr s t = T_run e k"
  using pool_invD(6) [OF assms(1)] assms(2-4) unfolding wake_ok_def by blast

section \<open>Properties\<close>

text \<open>A pool of two threads, and runs of it in which a client adds a task and a thread takes it.\<close>

definition demo_pool :: base_threadpool where
  "demo_pool = projr (thread_pool_construct 0 0 True (\<lambda>_. \<lparr>func = 0, flag = 0, param = 0, task_owner = 0, dispatch = 0\<rparr>)
     (\<lambda>_. \<lparr>thd = 0, current_owner = 0, state = TH_RUN\<rparr>) 2 4 0)"

lemmas demo_simps = demo_pool_def thread_pool_construct_def init_threadpool_def add_task_def task_new_def place_task_def
  add_if_empty_def ring_first_def Let_def set_dispatch_priority_def TASK_PRIORITY_SEG_def dispatch_priority_def lower_idx.simps
  count_thread_def start_threads_def ring_insert_before_def thread_start_def elt_new_def thread_loop_def next_task_def pop_task_def
  take_task_def idx_after_def ring_next.simps job_of_def tasks_done_def leaves_pool_def become_idle_def waiting_time_def

lemma demo_construct:
  "thread_pool_construct 0 0 True (\<lambda>_. \<lparr>func = 0, flag = 0, param = 0, task_owner = 0, dispatch = 0\<rparr>)
     (\<lambda>_. \<lparr>thd = 0, current_owner = 0, state = TH_RUN\<rparr>) 2 4 0 = Inr demo_pool"
  by (simp add: demo_pool_def thread_pool_construct_def)

lemma demo_waits:
  "\<exists>me. pool_step (init_threadpool 2 demo_pool) Quiet \<lparr>pool = me, thr = (\<lambda>t. if t < 2 then T_start else T_none)(0 := T_wait 0)\<rparr>
     \<and> tasks me = [] \<and> task_idx me = (\<lambda>_. None) \<and> idle_thds me = [0] \<and> idle_cnt me = 1 \<and> busy_thds me = [] \<and> recycled_tasks me = []
     \<and> task_cnt me = 0 \<and> task_max me = 0 \<and> thd_cnt me = 2 \<and> \<not> terminated me \<and> scheduled_tasks me = [] \<and> scheduled_task_cnt me = 0
     \<and> state (elt_at me 0) = TH_RUN"
proof -
  let ?s = "init_threadpool 2 demo_pool"
  define me where "me = snd (the (snd (thread_start (Some 0) 0 0 0 (pool ?s))))"
  have a: "thread_start (Some 0) 0 0 0 (pool ?s) = (Some 0, Some (Wait, me))" "tasks me = []" "task_idx me = (\<lambda>_. None)" "idle_thds me = [0]"
      "idle_cnt me = 1" "busy_thds me = []" "recycled_tasks me = []" "task_cnt me = 0" "task_max me = 0" "thd_cnt me = 2" "\<not> terminated me"
      "scheduled_tasks me = []" "scheduled_task_cnt me = 0" "state (elt_at me 0) = TH_RUN"
    unfolding me_def by (simp_all add: demo_simps)
  have t: "thr ?s = (\<lambda>t. if t < 2 then T_start else T_none)" by (simp add: init_threadpool_def)
  have "0 \<notin> used_elts ?s" by (auto simp: used_elts_def t demo_simps split: if_splits)
  then have "pool_step ?s (event_of me Wait) (?s\<lparr>pool := me, thr := (thr ?s)(0 := pc_after 0 Wait)\<rparr>)"
    by (intro pool_step.starts [OF _ _ a(1)]) (simp_all add: t)
  moreover have "?s\<lparr>pool := me, thr := (thr ?s)(0 := pc_after 0 Wait)\<rparr> = \<lparr>pool = me, thr = (\<lambda>t. if t < 2 then T_start else T_none)(0 := T_wait 0)\<rparr>"
    unfolding t by (simp add: init_threadpool_def)
  ultimately show ?thesis using a by auto
qed

lemma demo_added:
  "\<exists>me. pool_run (init_threadpool 2 demo_pool) [Quiet, Submit (7, 0, 8, 9)] \<lparr>pool = me, thr = (\<lambda>t. if t < 2 then T_start else T_none)(0 := T_woken 0)\<rparr>
     \<and> tasks me = [0] \<and> \<not> terminated me \<and> job_of (task_at me 0) = (7, 0, 8, 9) \<and> scheduled_tasks me = [] \<and> recycled_tasks me = []"
proof -
  let ?f = "\<lambda>t :: nat. if t < 2 then T_start else T_none"
  obtain me where w: "pool_step (init_threadpool 2 demo_pool) Quiet \<lparr>pool = me, thr = ?f(0 := T_wait 0)\<rparr>"
     and m: "tasks me = []" "task_idx me = (\<lambda>_. None)" "idle_thds me = [0]" "idle_cnt me = 1" "busy_thds me = []" "recycled_tasks me = []"
     "task_cnt me = 0" "task_max me = 0" "thd_cnt me = 2" "\<not> terminated me" "scheduled_tasks me = []" "scheduled_task_cnt me = 0"
     "state (elt_at me 0) = TH_RUN" using demo_waits by blast
  define me' where "me' = snd (the (add_task (Some 0) 0 7 0 8 100 True 9 me))"
  have a: "add_task (Some 0) 0 7 0 8 100 True 9 me = Some (Added 0 False, me')" "tasks me' = [0]" "\<not> terminated me'"
      "job_of (task_at me' 0) = (7, 0, 8, 9)" "scheduled_tasks me' = []" "recycled_tasks me' = []"
    unfolding me'_def using m by (simp_all add: demo_simps)
  let ?s = "\<lparr>pool = me, thr = ?f(0 := T_wait 0)\<rparr>"
  have "signalled (start_threads False 2 (thr ?s)) (?f(0 := T_woken 0))"
    using signalled.somebody [of "?f(0 := T_wait 0)" 0 0] by (simp add: start_threads_def)
  moreover have "0 \<notin> used_tasks ?s" by (auto simp: used_tasks_def m split: if_splits)
  ultimately have "pool_step ?s (Submit (7, 0, 8, 9)) (?s\<lparr>pool := me', thr := ?f(0 := T_woken 0)\<rparr>)"
    using pool_step.adds [of "Some 0" ?s 2 0 7 0 8 100 True 9 0 False me'] a(1) by simp
  from run_Cons [OF run_Cons [OF pool_run.refl this] w] show ?thesis using a by (intro exI [of _ me']) simp
qed

text \<open>
  (C10) The invariant of the pool: after every run of a pool, whatever the threads and the clients do and in
  whatever order, the counters are the lengths of the queues and of the rings of threads, \<open>thd_cnt\<close> is
  the number of threads that have not ended, no task or thread object is in two places, every
  entry of the index is a queued task of its segment, and the timed tasks are in the order of their times;
  so every critical section of a thread that is awake is defined, and so is adding a task.
\<close>

theorem pool_invariant:
  assumes "thread_pool_construct rv_lock rv_cond mem_ok ts es init_threads max_threads max_tasks = Inr me"
    and "pool_run (init_threadpool n me) evs s"
  shows "pool_inv s
    \<and> (\<forall>t e now now'. thr s t = T_woken e \<longrightarrow> thread_loop now now' e (pool s) \<noteq> None)
    \<and> (\<forall>t e k now now'. thr s t = T_run e k \<longrightarrow> task_ended now now' e k (pool s) \<noteq> None)
    \<and> (\<forall>a rv fn fl par priority push owner. a \<notin> used_tasks s
         \<longrightarrow> add_task (Some a) rv fn fl par priority push owner (pool s) \<noteq> None)"
proof -
  have inv: "pool_inv s" by (rule run_ok(1) [OF assms(2) init_inv(1) [OF assms(1)]])
  have "add_task (Some a) rv fn fl par priority push owner (pool s) \<noteq> None"
    if "a \<notin> used_tasks s" for a rv fn fl par priority push owner
  proof -
    have "b \<notin> set (tasks (pool s)) \<union> set (scheduled_tasks (pool s)) \<union> set (recycled_tasks (pool s)) \<and> (\<forall>t. (run_of \<circ> thr s) t \<noteq> Some b)"
      if "Some a = Some b" for b using fresh_task [OF _ that] that \<open>a \<notin> used_tasks s\<close> by blast
    from add_task_ok [OF pool_invD(1,2) [OF inv], of "Some a" rv fn fl par priority push owner, OF this] show ?thesis
      by (metis option.distinct(1))
  qed
  moreover have "thread_loop now now' e (pool s) \<noteq> None" if "thr s t = T_woken e" for t e now now'
    using thread_section(1) [OF inv that, of now now'] by auto
  moreover have "task_ended now now' e k (pool s) \<noteq> None" if "thr s t = T_run e k" for t e k now now'
    using thread_section(2) [OF inv that, of now now'] by auto
  ultimately show ?thesis using inv by blast
qed

theorem pool_invariant_witness:
  "\<exists>me. pool_inv \<lparr>pool = me, thr = (\<lambda>t. if t < 2 then T_start else T_none)(0 := T_woken 0)\<rparr> \<and> tasks me = [0]
     \<and> thread_loop 0 0 0 me \<noteq> None \<and> add_task (Some 5) 0 1 0 2 200 False 3 me \<noteq> None"
proof -
  let ?s = "\<lambda>me. \<lparr>pool = me, thr = (\<lambda>t :: nat. if t < 2 then T_start else T_none)(0 := T_woken 0)\<rparr>"
  obtain me where r: "pool_run (init_threadpool 2 demo_pool) [Quiet, Submit (7, 0, 8, 9)] (?s me)" "tasks me = [0]"
    "scheduled_tasks me = []" "recycled_tasks me = []" using demo_added by blast
  note p = pool_invariant [OF demo_construct r(1)]
  have "thr (?s me) 0 = T_woken 0" by simp
  then have "thread_loop 0 0 0 (pool (?s me)) \<noteq> None" using p by blast
  then have "thread_loop 0 0 0 me \<noteq> None" by simp
  moreover have "add_task (Some 5) 0 1 0 2 200 False 3 me \<noteq> None"
  proof -
    have "5 \<notin> used_tasks (?s me)" using r by (auto simp: used_tasks_def split: if_splits)
    then have "add_task (Some 5) 0 1 0 2 200 False 3 (pool (?s me)) \<noteq> None" using p by blast
    then show ?thesis by simp
  qed
  ultimately show ?thesis using p r(2) by blast
qed

text \<open>
  (C8) A job is run at most once and is not forgotten: over every run of a pool, the jobs that clients added
  are, with their multiplicities, those that threads have begun, those that were cancelled, those that a thread
  took and dropped, and those that are still queued; and a job is dropped only when the pool is being
  terminated.
\<close>

theorem pool_jobs_once:
  assumes "thread_pool_construct rv_lock rv_cond mem_ok ts es init_threads max_threads max_tasks = Inr me"
    and "pool_run (init_threadpool n me) evs s"
  shows "sum_list (map in_jobs evs) = sum_list (map out_jobs evs) + pending (pool s)
    \<and> (\<forall>j. Drop j \<in> set evs \<longrightarrow> terminated (pool s))"
  using run_ok(2) [OF assms(2) init_inv(1) [OF assms(1)]] init_inv(2) [OF assms(1), of n]
    run_drop [OF assms(2) init_inv(1) [OF assms(1)]] by (simp add: ac_simps) blast

theorem pool_jobs_once_witness:
  "\<exists>me. pool_run (init_threadpool 2 demo_pool) [Quiet, Submit (7, 0, 8, 9)] \<lparr>pool = me, thr = (\<lambda>t. if t < 2 then T_start else T_none)(0 := T_woken 0)\<rparr>
     \<and> pending me = {#(7, 0, 8, 9)#}"
proof -
  obtain me where r: "pool_run (init_threadpool 2 demo_pool) [Quiet, Submit (7, 0, 8, 9)]
      \<lparr>pool = me, thr = (\<lambda>t :: nat. if t < 2 then T_start else T_none)(0 := T_woken 0)\<rparr>" using demo_added by blast
  then show ?thesis using pool_jobs_once [OF demo_construct r] by auto
qed

text \<open>
  (C9) No wake-up is lost: in every reachable state of a pool that is not terminated, while a task is in
  the priority queue and a thread with an object waits for the condition, is woken or runs, some thread
  is awake; every thread that is awake takes a task in its next critical section, whatever the clock says; and
  awake threads alone can empty the priority queue.
\<close>

theorem pool_no_lost_wakeup:
  assumes "thread_pool_construct rv_lock rv_cond mem_ok ts es init_threads max_threads max_tasks = Inr me"
    and "pool_run (init_threadpool n me) evs s"
    and "\<not> terminated (pool s)" "tasks (pool s) \<noteq> []" "thr s t \<in> {T_wait e, T_woken e, T_run e k}"
  shows "(\<exists>t e k. thr s t = T_woken e \<or> thr s t = T_run e k)
    \<and> (\<forall>t e now now'. thr s t = T_woken e \<longrightarrow> (\<exists>k' m. thread_loop now now' e (pool s) = Some (Run k', m)))
    \<and> (\<forall>t e k now now'. thr s t = T_run e k \<longrightarrow> (\<exists>k' m. task_ended now now' e k (pool s) = Some (Run k', m)))
    \<and> (\<exists>evs' s'. pool_run s evs' s' \<and> tasks (pool s') = [] \<and> (\<forall>ev\<in>set evs'. \<exists>j. ev = Begin j))"
proof -
  have inv: "pool_inv s" by (rule run_ok(1) [OF assms(2) init_inv(1) [OF assms(1)]])
  obtain t' e' k' where "thr s t' = T_woken e' \<or> thr s t' = T_run e' k'" using waiting_awake [OF inv assms(3-5)] by blast
  then show ?thesis using awake_takes [OF inv assms(3,4)] drain [OF inv assms(3)] by blast
qed

theorem pool_no_lost_wakeup_witness:
  "\<exists>me k m. pool_run (init_threadpool 2 demo_pool) [Quiet, Submit (7, 0, 8, 9)] \<lparr>pool = me, thr = (\<lambda>t. if t < 2 then T_start else T_none)(0 := T_woken 0)\<rparr>
     \<and> thread_loop 0 0 0 me = Some (Run k, m)"
proof -
  let ?s = "\<lambda>me. \<lparr>pool = me, thr = (\<lambda>t :: nat. if t < 2 then T_start else T_none)(0 := T_woken 0)\<rparr>"
  obtain me where r: "pool_run (init_threadpool 2 demo_pool) [Quiet, Submit (7, 0, 8, 9)] (?s me)" "tasks me = [0]" "\<not> terminated me"
    using demo_added by blast
  have w: "thr (?s me) 0 = T_woken 0" by simp
  then have "thr (?s me) 0 \<in> {T_wait 0, T_woken 0, T_run 0 0}" by simp
  from pool_no_lost_wakeup [OF demo_construct r(1) _ _ this] r(2,3)
  have "\<forall>t e now now'. thr (?s me) t = T_woken e \<longrightarrow> (\<exists>k' m. thread_loop now now' e (pool (?s me)) = Some (Run k', m))" by simp
  then obtain k m where "thread_loop 0 0 0 (pool (?s me)) = Some (Run k, m)" using w by blast
  then show ?thesis using r(1) by auto
qed

lemma construct_exact:
  "thread_pool_construct rv_lock rv_cond mem_ok ts es init_threads max_threads max_tasks = Inr m \<Longrightarrow> queue_ok m \<and> exact m"
  by (auto simp: thread_pool_construct_def exact_def queue_ok_def ring_first_def split: if_splits)

text \<open>
  (C18) The order of the tasks: on a pool whose index is exact, which a new one has, and whose
  priorities are in the documented range, adding a task puts it behind all tasks of a higher
  priority and, for \<open>base_threadpool_push\<close>, behind those of the same priority, for \<open>base_threadpool_top\<close> before
  them, and keeps the index exact, unless a push meets a segment that starts with a lower priority;
  taking a task, which for a task that is not timed is the first of the highest priority, and cancelling
  keep it exact.
\<close>

theorem pool_priority_order:
  assumes "queue_ok me" "exact me"
  shows "(\<forall>a rv fn fl par priority push owner r started me'.
        a \<notin> set (tasks me) \<union> set (scheduled_tasks me) \<union> set (recycled_tasks me) \<and> 0 \<le> sint priority \<and> sint priority \<le> 255
        \<and> (push \<longrightarrow> (\<forall>i. task_idx me (nat (sint priority div 64)) = Some i \<longrightarrow> sint priority \<le> prio me i))
        \<and> add_task (Some a) rv fn fl par priority push owner me = Some (Added r started, me')
        \<longrightarrow> exact me' \<and> (\<exists>t. t \<notin> set (tasks me) \<and> job_of (task_at me' t) = (fn, fl, par, owner) \<and> prio me' t = sint priority
          \<and> tasks me' = takeWhile (goes_behind me push (sint priority)) (tasks me) @ t # dropWhile (goes_behind me push (sint priority)) (tasks me)))
    \<and> (\<forall>now k me'. pop_task now me = Some (Some k, me')
        \<longrightarrow> exact me' \<and> (k \<in> set (scheduled_tasks me) \<or> tasks me = k # tasks me' \<and> (\<forall>u\<in>set (tasks me). prio me u \<le> prio me k)))
    \<and> (\<forall>owner. exact (cancel_tasks owner me))"
proof (intro conjI allI impI)
  fix a rv fn fl par and priority :: u32 and push owner r started me'
  assume h: "a \<notin> set (tasks me) \<union> set (scheduled_tasks me) \<union> set (recycled_tasks me) \<and> 0 \<le> sint priority \<and> sint priority \<le> 255
        \<and> (push \<longrightarrow> (\<forall>i. task_idx me (nat (sint priority div 64)) = Some i \<longrightarrow> sint priority \<le> prio me i))
        \<and> add_task (Some a) rv fn fl par priority push owner me = Some (Added r started, me')"
  note x = add_task_exact [OF assms, of "Some a" rv fn fl par priority push owner r started me']
  show "exact me'" using x(1) h by blast
  show "\<exists>t. t \<notin> set (tasks me) \<and> job_of (task_at me' t) = (fn, fl, par, owner) \<and> prio me' t = sint priority
      \<and> tasks me' = takeWhile (goes_behind me push (sint priority)) (tasks me) @ t # dropWhile (goes_behind me push (sint priority)) (tasks me)"
    using x(2) h by blast
next
  fix now k me'
  assume "pop_task now me = Some (Some k, me')"
  from pop_task_exact [OF assms this]
  show "exact me'" "k \<in> set (scheduled_tasks me) \<or> tasks me = k # tasks me' \<and> (\<forall>u\<in>set (tasks me). prio me u \<le> prio me k)" by blast+
qed (rule exact_cancel [OF assms])

theorem pool_priority_order_witness:
  "\<exists>me. add_task (Some 5) 0 7 0 8 100 True 9 demo_pool = Some (Added 0 True, me) \<and> exact me \<and> tasks me = [5]
     \<and> exact (cancel_tasks 9 me) \<and> (\<exists>me'. pop_task 0 me = Some (Some 5, me') \<and> exact me')"
proof -
  define me where "me = snd (the (add_task (Some 5) 0 7 0 8 100 True 9 demo_pool))"
  have a: "add_task (Some 5) 0 7 0 8 100 True 9 demo_pool = Some (Added 0 True, me)" "tasks me = [5]"
    unfolding me_def by (simp_all add: demo_simps)
  have e: "queue_ok demo_pool" "exact demo_pool" using construct_exact [OF demo_construct] by simp_all
  have t: "set (tasks demo_pool) \<union> set (scheduled_tasks demo_pool) \<union> set (recycled_tasks demo_pool) = {}" "task_idx demo_pool i = None" for i
    by (simp_all add: demo_pool_def thread_pool_construct_def)
  note p = conjunct1 [OF pool_priority_order [OF e], THEN spec, THEN spec, THEN spec, THEN spec, THEN spec, THEN spec, THEN spec,
      THEN spec, THEN spec, THEN spec, THEN spec, THEN mp]
  have x: "exact me" using p [of 5 100 True 0 7 0 8 9 0 True me] a(1) t by simp
  have q1: "queue_ok me" unfolding me_def by (simp add: demo_simps queue_ok_def)
  have "pop_task 0 me = Some (Some 5, snd (the (pop_task 0 me)))" unfolding me_def by (simp add: demo_simps)
  then show ?thesis using a x pool_priority_order [OF q1 x] by blast
qed



end
