(* ===== verification/Spec2Isabelle.thy ===== *)
theory Spec2Isabelle
  imports Values Json_Codec Tea DataPacket Buffer Text_Util DebugMem Threadpool_Runs
begin

text \<open>
  Verification library for the own code of the repository \<^verbatim>\<open>mylib\<close>: the C++ base library
  under \<^verbatim>\<open>src/base\<close> and \<^verbatim>\<open>src/public\<close> that its services are built on.

  \<^bold>\<open>The program and the theories that model it.\<close>

  \<^item> \<^emph>\<open>Characters.\<close> \<open>Unicode\<close> models \<^verbatim>\<open>public/basic/icu_utf.{h,cc}\<close> and the conversions between
    UTF-8 and wide strings of \<^verbatim>\<open>public/basic/basic_util.cc\<close>. \<open>StringEscape\<close> models
    \<^verbatim>\<open>base/logic/string_escape.cc\<close>, which quotes strings for the serializers.
  \<^item> \<^emph>\<open>Numbers.\<close> \<open>Numbers\<close> models the conversions between numbers and text of
    \<^verbatim>\<open>basic_util.{h,cc}\<close> (\<^verbatim>\<open>IntToStringT\<close>, \<^verbatim>\<open>StringToNumber\<close>, \<^verbatim>\<open>StringAppendVT\<close>); \<open>Doubles\<close>
    has the part of the C++ library that the text of doubles needs, on bit patterns.
  \<^item> \<^emph>\<open>Values.\<close> \<open>Values\<close> models \<^verbatim>\<open>base/logic/base_values.{h,cc}\<close>, the tree of values that all
    the serializers read and write: the class hierarchy is a datatype, each method a
    definition. Its dictionaries are the sorted maps of \<open>Std_Map\<close>.
  \<^item> \<^emph>\<open>JSON.\<close> \<open>Value_Serializer\<close> has the tokens and errors of \<^verbatim>\<open>base/logic/value_serializer.h\<close>
    and the contract of a serializer; \<open>Json\<close> models \<^verbatim>\<open>base/logic/json_serializer.{h,cc}\<close>, the
    writer and the recursive-descent reader; \<open>Json_Reader\<close>, \<open>Json_Roundtrip\<close> and
    \<open>Json_Codec\<close> hold the theorems. The writer uses \<open>StringEscape\<close>, \<open>Unicode\<close> and \<open>Numbers\<close>,
    the reader \<open>Unicode\<close> and \<open>Numbers\<close>, and both \<open>Values\<close>.
  \<^item> \<^emph>\<open>Encodings.\<close> \<open>Base64\<close> models \<^verbatim>\<open>public/basic/base64.{h,cc}\<close> with its tables.
  \<^item> \<^emph>\<open>Ciphers.\<close> \<open>Tea\<close> models \<^verbatim>\<open>base/algo/tea.{h,cc}\<close> and the class of
    \<^verbatim>\<open>public/algorithm/tea.{h,cc}\<close>, on the storage of words of \<open>Memory\<close>.
  \<^item> \<^emph>\<open>Packets.\<close> \<open>DataPacket\<close> models \<^verbatim>\<open>public/protocol/data_packet.{h,cc}\<close>, the growing
    buffer and the stream operators of the network code.
  \<^item> \<^emph>\<open>Buffers.\<close> \<open>Buffer\<close> models the cyclic and the flat buffer of \<^verbatim>\<open>public/comm/buffer.h\<close>
    with growth, locks and repositioning.
  \<^item> \<^emph>\<open>Text.\<close> \<open>Text_Util\<close> models the rest of \<^verbatim>\<open>basic_util.cc\<close>: URL encoding, splitting, tests and
    conversions of character sets, numbers in Chinese.
  \<^item> \<^emph>\<open>Memory checker.\<close> \<open>Rbtree\<close> and \<open>Rbtree_Erase\<close> model the red-black tree on linked nodes of
    \<^verbatim>\<open>public/check/rbtree.{h,cc}\<close>; \<open>DebugMem\<close> models \<^verbatim>\<open>public/check/debugnew.cc\<close>, the operators \<^verbatim>\<open>new\<close> and
    \<^verbatim>\<open>delete\<close> that keep the blocks in that tree and report those that are left.
  \<^item> \<^emph>\<open>Thread pool.\<close> \<open>Ring\<close> models the macros for rings of \<^verbatim>\<open>public/thread/base_ring.h\<close>. \<open>Threadpool\<close>
    models \<^verbatim>\<open>public/thread/base_threadpool.c\<close>: each critical section is a definition, and the
    relation \<open>pool_step\<close> interleaves those of the threads and of the clients in any order.
    \<open>Threadpool_Inv\<close>, \<open>Threadpool_Order\<close> and \<open>Threadpool_Runs\<close> hold the invariant, the order of the
    queue and the theorems about runs.

  \<open>Prelude\<close> has the types, the model of C strings and the generic lemmas.

  \<^bold>\<open>How code becomes definitions.\<close> A machine integer is a word of its width; \<^verbatim>\<open>char\<close> is a byte
  and \<^verbatim>\<open>wchar_t\<close> a word of 32 bits. A \<^verbatim>\<open>std::string\<close> is the list of its bytes. A pointer that
  only moves forward through a buffer is the list of what is left of the buffer; in
  \<open>DataPacket\<close>, where cursors move freely and writes may overrun, it is an offset into a block. A
  pointer that may be NULL, and an output parameter that is only set on success, are options.
  An object is a record, and a method that changes it returns the new record. Undefined
  behaviour (an access outside of a block) is \<open>None\<close>, so that a theorem that a result is \<open>Some\<close>
  is a theorem that the access is defined. The allocator is a parameter where the code looks at
  its result (\<open>heap\<close> in \<open>DataPacket\<close>). In \<open>Rbtree\<close> and \<open>Ring\<close> memory is a store of nodes by address,
  and links are addresses, so that rotations and splices are the assignments of the code. The
  thread pool has its rings as lists of addresses, which \<open>ring_refines_list\<close> justifies; the clock,
  the allocator and the creation of threads are arguments there.

  \<^bold>\<open>What is shown.\<close>

  \<^item> Round trips: JSON text, UTF-8, Base64, TEA, hexadecimal text, decimal numbers and packets
    are read back as they were written, each with the exact condition under which this holds.
    The conditions are not idle: companion theorems show what happens outside of them.
  \<^item> Refinement: the buffers implement a queue of bytes, the memory checker a map from blocks to
    their sizes and places, with an exact report of the leaks, and the rings lists.
  \<^item> Concurrency: in every interleaving the thread pool keeps its invariant, runs a job at most once
    and forgets none, loses no wake-up, and, while its index is exact, takes the tasks in the order
    of their priorities.
  \<^item> Equivalence: the table-driven routines (UTF-8 reader, Base64) compute the functions of the
    standards they implement, written with arithmetic.
  \<^item> Invariants: every operation on a dictionary keeps its map sorted without duplicate keys
    at every depth; the JSON reader builds only such trees, nested no deeper than its limit.
    Insertion and removal keep a red-black tree one, of logarithmic height.
  \<^item> Termination: the JSON reader returns on every text.
  \<^item> Safety and bounds: which of the packet operations stay inside their buffer, and exactly
    when the others do not.
  \<^item> Errors: the places where the code does not do what it says are stated as theorems.

  The interfaces are locales: \<open>codec\<close> (\<open>Prelude\<close>), \<open>key_map\<close> and \<open>key_order\<close> (\<open>Std_Map\<close>),
  \<open>serializer\<close> (\<open>Value_Serializer\<close>), \<open>block_cipher\<close> (\<open>Tea\<close>), \<open>wire\<close> (\<open>DataPacket\<close>), \<open>byte_queue\<close> (\<open>Buffer\<close>),
  \<open>step_refinement\<close> (\<open>DebugMem\<close>), \<open>ring_ops\<close> (\<open>Ring\<close>), each
  interpreted on the definitions of the component that provides it.

  \<^bold>\<open>Bounds and fuel.\<close> \<open>BuildValue\<close> of the JSON reader takes fuel; the methods run it with
  twice the length of the text plus one, and \<open>json_reader_terminates\<close> shows that this is
  enough on every text. The loops of the red-black tree and of the memory checker are
  partial functions with \<open>None\<close> for a fault or no end, and the theorems show that they return. Loops elsewhere are structural or have a measure. The sizes of
  strings that the code keeps in \<^verbatim>\<open>int\<close> are assumed to fit where a theorem needs it.

  \<^bold>\<open>Not modelled.\<close> Vendored and generated code (jsoncpp under \<^verbatim>\<open>public/json\<close>, libjingle under
  \<^verbatim>\<open>public/xmpp\<close>, the Thrift code under \<^verbatim>\<open>public/hbase_storage\<close>, the copy of Chromium's
  \<^verbatim>\<open>values.cc\<close> that nothing builds, MD5); clients of databases, queues and web services,
  which are calls into libraries that are not in the repository; wrappers of threads, files,
  sockets and logs; the HTTP, XML and JSONP serializers; of the thread pool, the reduction of the
  maximal number of threads, which writes NULL into a ring that is in use, and the loops that poll.
\<close>

end
